(* ===== verification/Prelude.thy ===== *)
theory Prelude
  imports Main "HOL-Library.Word"
begin

text \<open>
  Shared vocabulary of the development: machine integers, labelled transition systems and
  their runs, the sequential FIFO queue that every queue of the runtime is compared with, and
  the two interfaces (locales) through which the components state and use their guarantees.
\<close>

section \<open>Machine integers\<close>

type_synonym u32 = "32 word"
type_synonym u64 = "64 word"

named_theorems unat_rules \<open>values of word expressions as naturals\<close>

lemma unat_drop_bit_div [unat_rules]:
  fixes x :: "'a::len word"
  shows "unat (drop_bit n x) = unat x div 2 ^ n"
  by (simp add: unat_drop_bit_eq drop_bit_nat_def)

lemma unat_push_bit_small [unat_rules]:
  fixes x :: "'a::len word"
  assumes "unat x * 2 ^ n < 2 ^ LENGTH('a)"
  shows "unat (push_bit n x) = unat x * 2 ^ n"
  using assms
  by (simp add: unsigned_push_bit_eq take_bit_nat_eq_self push_bit_nat_def)

lemma unat_plus_small [unat_rules]:
  fixes x y :: "'a::len word"
  assumes "unat x + unat y < 2 ^ LENGTH('a)"
  shows "unat (x + y) = unat x + unat y"
  using assms by (simp add: unat_word_ariths)

lemma unat_mult_small [unat_rules]:
  fixes x y :: "'a::len word"
  assumes "unat x * unat y < 2 ^ LENGTH('a)"
  shows "unat (x * y) = unat x * unat y"
  using assms by (simp add: unat_word_ariths)

lemma unat_minus_small [unat_rules]:
  fixes x y :: "'a::len word"
  assumes "unat y \<le> unat x"
  shows "unat (x - y) = unat x - unat y"
  using assms by (simp add: unat_sub word_le_nat_alt)

text \<open>Numbers that differ by less than the modulus are told apart by their low bits.\<close>

lemma of_nat_eq_window:
  fixes a b :: nat
  assumes "(of_nat a :: 'a::len word) = of_nat b" "a < b + 2 ^ LENGTH('a)" "b < a + 2 ^ LENGTH('a)"
  shows "a = b"
proof -
  have "a mod 2 ^ LENGTH('a) = b mod 2 ^ LENGTH('a)"
    using assms(1) by (simp add: word_of_nat_eq_iff take_bit_eq_mod)
  then have "int (2 ^ LENGTH('a)) dvd int a - int b"
    by (metis mod_eq_dvd_iff of_nat_mod)
  then obtain k where k: "int a - int b = int (2 ^ LENGTH('a)) * k"
    by (auto simp: dvd_def)
  have "- int (2 ^ LENGTH('a)) < int a - int b" and "int a - int b < int (2 ^ LENGTH('a))"
    using assms(2,3) by linarith+
  then have "int (2 ^ LENGTH('a)) * (- 1) < int (2 ^ LENGTH('a)) * k"
    and "int (2 ^ LENGTH('a)) * k < int (2 ^ LENGTH('a)) * 1"
    using k by linarith+
  moreover have M: "0 < int (2 ^ LENGTH('a))" by simp
  ultimately have "- 1 < k" "k < 1"
    using mult_less_cancel_left_pos [OF M, THEN iffD1] by blast+
  then have "k = 0" by linarith
  then show ?thesis using k by simp
qed

text \<open>A position in a row of blocks of the same size determines the block and the place in it.\<close>

lemma block_pos_eq:
  fixes i i' j j' k :: nat
  assumes "i < k" "i' < k"
  shows "j * k + i = j' * k + i' \<longleftrightarrow> j = j' \<and> i = i'"
proof
  assume eq: "j * k + i = j' * k + i'"
  then have "(j * k + i) div k = (j' * k + i') div k" and "(j * k + i) mod k = (j' * k + i') mod k"
    by simp_all
  then show "j = j' \<and> i = i'" using assms by simp
qed simp

section \<open>Labelled transition systems\<close>

text \<open>
  A step carries the list of events that take effect at it: the empty list for a step inside
  an operation, one event where an operation takes effect, several where one store publishes
  several elements. A run collects them in order.
\<close>

inductive run :: "('s \<Rightarrow> 'e list \<Rightarrow> 's \<Rightarrow> bool) \<Rightarrow> 's \<Rightarrow> 'e list \<Rightarrow> 's \<Rightarrow> bool"
  for step where
  run_start: "run step s [] s"
| run_snoc: "run step s es t \<Longrightarrow> step t fs u \<Longrightarrow> run step s (es @ fs) u"

lemma run_single: "step s es t \<Longrightarrow> run step s es t"
  using run_snoc [OF run_start, of step s es t] by simp

lemma run_trans:
  assumes "run step t fs u" and "run step s es t"
  shows "run step s (es @ fs) u"
  using assms
proof (induction rule: run.induct)
  case (run_start t')
  then show ?case by simp
next
  case (run_snoc t' fs u gs v)
  then show ?case
    using run.run_snoc [of step s "es @ fs" u gs v] by simp
qed

lemma run_mono:
  assumes "run step s es t" "\<And>s es t. step s es t \<Longrightarrow> step' s es t"
  shows "run step' s es t"
  using assms(1) by (induction rule: run.induct) (auto intro: run.intros assms(2))

text \<open>
  The interface of a component that runs concurrently: its start states, its steps and an
  invariant. What every component gets from it is that its invariant holds in every state a
  run reaches.
\<close>

locale machine =
  fixes init :: "'s \<Rightarrow> bool"
    and step :: "'s \<Rightarrow> 'e list \<Rightarrow> 's \<Rightarrow> bool"
    and inv :: "'s \<Rightarrow> bool"
  assumes init_inv: "init s \<Longrightarrow> inv s"
    and step_inv: "inv s \<Longrightarrow> step s es t \<Longrightarrow> inv t"
begin

lemma run_inv_from: "run step s es t \<Longrightarrow> inv s \<Longrightarrow> inv t"
  by (induction rule: run.induct) (auto intro: step_inv)

lemma run_inv: "init s \<Longrightarrow> run step s es t \<Longrightarrow> inv t"
  by (blast intro: run_inv_from init_inv)

end

text \<open>
  The interface of a component whose steps are also given as a function of the choice made at
  each step (which thread moves, with what arguments): schedules can then be executed, and
  every step is one a schedule can choose.
\<close>

fun exec :: "('c \<Rightarrow> 's \<Rightarrow> ('e list \<times> 's) option) \<Rightarrow> 'c list \<Rightarrow> 's \<Rightarrow> ('e list \<times> 's) option" where
  "exec act [] s = Some ([], s)"
| "exec act (c # cs) s =
     (case act c s of None \<Rightarrow> None | Some (es, t) \<Rightarrow>
        (case exec act cs t of None \<Rightarrow> None | Some (fs, u) \<Rightarrow> Some (es @ fs, u)))"

text \<open>Whether a schedule can be executed, as a value that computes.\<close>

definition is_some :: "'x option \<Rightarrow> bool" where
  "is_some x = (case x of None \<Rightarrow> False | Some _ \<Rightarrow> True)"

lemma is_some_iff: "is_some x \<longleftrightarrow> x \<noteq> None"
  by (simp add: is_some_def split: option.splits)

locale scheduled =
  fixes act :: "'c \<Rightarrow> 's \<Rightarrow> ('e list \<times> 's) option"
    and step :: "'s \<Rightarrow> 'e list \<Rightarrow> 's \<Rightarrow> bool"
  assumes act_step: "act c s = Some (es, t) \<Longrightarrow> step s es t"
    and step_act: "step s es t \<Longrightarrow> \<exists>c. act c s = Some (es, t)"
begin

lemma exec_run: "exec act cs s = Some (es, t) \<Longrightarrow> run step s es t"
proof (induction cs arbitrary: s es)
  case Nil
  then show ?case by (simp add: run_start)
next
  case (Cons c cs)
  then obtain es1 t1 fs where "act c s = Some (es1, t1)" "exec act cs t1 = Some (fs, t)" "es = es1 @ fs"
    by (auto split: option.splits prod.splits)
  then show ?case
    using Cons.IH [of t1 fs] run_trans [OF _ run_single [of step, OF act_step]] by blast
qed

lemma exec_append:
  "exec act (cs @ ds) s = (case exec act cs s of None \<Rightarrow> None | Some (es, t) \<Rightarrow>
     (case exec act ds t of None \<Rightarrow> None | Some (fs, u) \<Rightarrow> Some (es @ fs, u)))"
  by (induction cs arbitrary: s) (auto split: option.splits prod.splits)

lemma run_exec: "run step s es t \<Longrightarrow> \<exists>cs. exec act cs s = Some (es, t)"
proof (induction rule: run.induct)
  case (run_start s)
  show ?case by (rule exI [of _ "[]"]) simp
next
  case (run_snoc s es t fs u)
  then obtain cs c where "exec act cs s = Some (es, t)" "act c t = Some (fs, u)"
    using step_act by blast
  then have "exec act (cs @ [c]) s = Some (es @ fs, u)" by (simp add: exec_append)
  then show ?case by blast
qed

lemma run_iff_exec: "run step s es t \<longleftrightarrow> (\<exists>cs. exec act cs s = Some (es, t))"
  using exec_run run_exec by blast

end

section \<open>Sequential specifications\<close>

text \<open>
  A sequential object is a function that takes a state and an event to the next state, or to
  \<open>None\<close> where the object could not have answered so. A concurrent object implements it if at
  every step the events that take effect there are ones of the sequential object, whose state is
  a function of the concurrent one.
\<close>

fun spec_run :: "('q \<Rightarrow> 'e \<Rightarrow> 'q option) \<Rightarrow> 'q \<Rightarrow> 'e list \<Rightarrow> 'q option" where
  "spec_run f q [] = Some q"
| "spec_run f q (e # es) = (case f q e of None \<Rightarrow> None | Some q' \<Rightarrow> spec_run f q' es)"

lemma spec_run_append [simp]:
  "spec_run f q (es @ fs) = (case spec_run f q es of None \<Rightarrow> None | Some q' \<Rightarrow> spec_run f q' fs)"
  by (induction es arbitrary: q) (auto split: option.splits)

locale spec_machine = machine init step inv
  for init :: "'s \<Rightarrow> bool" and step :: "'s \<Rightarrow> 'e list \<Rightarrow> 's \<Rightarrow> bool" and inv +
  fixes content :: "'s \<Rightarrow> 'q" and spec :: "'q \<Rightarrow> 'e \<Rightarrow> 'q option"
  assumes step_spec: "inv s \<Longrightarrow> step s es t \<Longrightarrow> spec_run spec (content s) es = Some (content t)"
begin

lemma run_spec_from: "run step s es t \<Longrightarrow> inv s \<Longrightarrow> spec_run spec (content s) es = Some (content t)"
proof (induction rule: run.induct)
  case (run_start s)
  then show ?case by simp
next
  case (run_snoc s es t fs u)
  then show ?case
    using step_spec [of t fs u] run_inv_from [of s es t] by simp
qed

lemma run_spec: "init s \<Longrightarrow> run step s es t \<Longrightarrow> spec_run spec (content s) es = Some (content t)"
  using run_spec_from [of s es t] init_inv [of s] by simp

end

section \<open>The sequential FIFO queue\<close>

text \<open>
  The specification every unbounded queue of the runtime is held to: a list, a push that
  appends, a pop that takes the oldest element, and a pop that answers empty only on the
  empty list. \<open>fifo_run q es\<close> is the content after the events \<open>es\<close>, or \<open>None\<close> when some
  event is not one the sequential queue could have produced there.
\<close>

datatype 'a qevent = Enq 'a | Deq 'a | DeqEmpty

fun fifo_step :: "'a list \<Rightarrow> 'a qevent \<Rightarrow> 'a list option" where
  "fifo_step q (Enq v) = Some (q @ [v])"
| "fifo_step q (Deq v) = (case q of [] \<Rightarrow> None | x # xs \<Rightarrow> if x = v then Some xs else None)"
| "fifo_step q DeqEmpty = (if q = [] then Some [] else None)"

fun fifo_run :: "'a list \<Rightarrow> 'a qevent list \<Rightarrow> 'a list option" where
  "fifo_run q [] = Some q"
| "fifo_run q (e # es) = (case fifo_step q e of None \<Rightarrow> None | Some q' \<Rightarrow> fifo_run q' es)"

fun enqs :: "'a qevent list \<Rightarrow> 'a list" where
  "enqs [] = []"
| "enqs (Enq v # es) = v # enqs es"
| "enqs (_ # es) = enqs es"

fun deqs :: "'a qevent list \<Rightarrow> 'a list" where
  "deqs [] = []"
| "deqs (Deq v # es) = v # deqs es"
| "deqs (_ # es) = deqs es"

lemma fifo_run_append [simp]:
  "fifo_run q (es @ fs) = (case fifo_run q es of None \<Rightarrow> None | Some q' \<Rightarrow> fifo_run q' fs)"
  by (induction es arbitrary: q) (auto split: option.splits)

lemma fifo_run_enqs [simp]: "fifo_run q (map Enq vs) = Some (q @ vs)"
  by (induction vs arbitrary: q) auto

lemma fifo_run_balance: "fifo_run q es = Some q' \<Longrightarrow> q @ enqs es = deqs es @ q'"
proof (induction es arbitrary: q)
  case Nil
  then show ?case by simp
next
  case (Cons e es)
  then obtain r where "fifo_step q e = Some r" and "fifo_run r es = Some q'"
    by (auto split: option.splits)
  then show ?case
    using Cons.IH [of r] by (cases e) (auto split: list.splits if_splits)
qed

text \<open>
  The contract of a concurrent queue: at every step the events that take effect there are
  those of the sequential queue, whose content is a function of the state. The client's
  consequences are proved once, here.
\<close>

locale fifo_machine = machine init step inv
  for init :: "'s \<Rightarrow> bool" and step :: "'s \<Rightarrow> 'a qevent list \<Rightarrow> 's \<Rightarrow> bool" and inv +
  fixes content :: "'s \<Rightarrow> 'a list"
  assumes init_content: "init s \<Longrightarrow> content s = []"
    and step_fifo: "inv s \<Longrightarrow> step s es t \<Longrightarrow> fifo_run (content s) es = Some (content t)"
begin

lemma run_fifo_from:
  "run step s es t \<Longrightarrow> inv s \<Longrightarrow> fifo_run (content s) es = Some (content t)"
proof (induction rule: run.induct)
  case (run_start s)
  then show ?case by simp
next
  case (run_snoc s es t fs u)
  then show ?case
    using step_fifo [of t fs u] run_inv_from [of s es t] by simp
qed

lemma run_fifo: "init s \<Longrightarrow> run step s es t \<Longrightarrow> fifo_run [] es = Some (content t)"
  using run_fifo_from [of s es t] init_inv [of s] init_content [of s] by simp

lemma run_order: "init s \<Longrightarrow> run step s es t \<Longrightarrow> enqs es = deqs es @ content t"
  using run_fifo [of s es t] fifo_run_balance [of "[]" es "content t"] by simp

end

section \<open>Linked lists in a heap\<close>

text \<open>
  \<open>linked f xs z\<close>: following \<open>f\<close> from the first node of \<open>xs\<close> visits \<open>xs\<close> in order and leaves
  its last node for \<open>z\<close>. A ring is a list linked to its own first node.
\<close>

fun linked :: "('b \<Rightarrow> 'b) \<Rightarrow> 'b list \<Rightarrow> 'b \<Rightarrow> bool" where
  "linked f [] z = True"
| "linked f (x # xs) z \<longleftrightarrow> f x = hd (xs @ [z]) \<and> linked f xs z"

lemma linked_append: "linked f (xs @ ys) z \<longleftrightarrow> linked f xs (hd (ys @ [z])) \<and> linked f ys z"
proof (induction xs)
  case (Cons x xs)
  then show ?case by (cases xs) auto
qed simp

lemma linked_upd [simp]: "x \<notin> set xs \<Longrightarrow> linked (f(x := y)) xs z \<longleftrightarrow> linked f xs z"
  by (induction xs) auto

lemma linked_cong: "(\<And>x. x \<in> set xs \<Longrightarrow> f x = g x) \<Longrightarrow> linked f xs z \<longleftrightarrow> linked g xs z"
  by (induction xs) auto

lemma linked_last: "linked f xs z \<Longrightarrow> xs \<noteq> [] \<Longrightarrow> f (last xs) = z"
  by (induction xs) auto

lemma linked_nth: "linked f xs z \<Longrightarrow> Suc j < length xs \<Longrightarrow> f (xs ! j) = xs ! Suc j"
proof (induction xs arbitrary: j)
  case (Cons x xs)
  then show ?case by (cases j) (auto simp: hd_append hd_conv_nth)
qed simp

lemma linked_rotate: "linked f (x # xs) x \<Longrightarrow> xs \<noteq> [] \<Longrightarrow> linked f (xs @ [x]) (hd xs)"
  by (auto simp: linked_append)

lemma linked_insert:
  assumes "linked f (xs @ ys) z" "xs \<noteq> []" "distinct (xs @ ys)" "n \<notin> set (xs @ ys)"
  shows "linked (f(n := f (last xs), last xs := n)) (xs @ n # ys) z"
proof -
  obtain as a where xs: "xs = as @ [a]" using assms(2) by (cases xs rule: rev_cases) auto
  have fa: "f a = hd (ys @ [z])" and as: "linked f as a" and ys: "linked f ys z"
    using assms(1) by (auto simp: xs linked_append)
  have "linked (f(n := f a, a := n)) as a"
    using as assms(3,4) by (auto simp: xs)
  moreover have "linked (f(n := f a, a := n)) ys z"
    using ys assms(3,4) by (auto simp: xs)
  ultimately show ?thesis
    using fa assms(3,4) by (auto simp: xs linked_append)
qed

end
