(* ===== verification/Stream_Gate.thy ===== *)
theory Stream_Gate
  imports Prelude
begin

text \<open>
  \<open>runtime/stream_gate.hpp\<close>: whether a single consumer should wait for a batch. The tick
  counter and the steady clock are inputs; everything the class computes from them is here,
  at the widths the class uses (64-bit sums, 32-bit counters).
\<close>

section \<open>The counter's rate\<close>

text \<open>
  One sample of \<open>paired\<close>: the counter before a clock read, the clock, the counter after it.
  The narrowest bracket wins; a bracket whose counter went backwards is skipped.
\<close>

fun paired_from :: "u64 \<Rightarrow> u64 \<Rightarrow> int \<Rightarrow> (u64 \<times> int \<times> u64) list \<Rightarrow> u64 \<times> int" where
  "paired_from width tick at [] = (tick, at)"
| "paired_from width tick at ((a, c, b) # samples) =
     (if a \<le> b \<and> b - a < width then paired_from (b - a) (a + (b - a) div 2) c samples
      else paired_from width tick at samples)"

definition paired :: "u64 \<Rightarrow> (u64 \<times> int \<times> u64) list \<Rightarrow> u64 \<times> int" where
  "paired tick samples = paired_from (- 1) tick 0 samples"

text \<open>The rate from the two ends of the interval: never zero, so it may be divided by.\<close>

definition rate_per_ms :: "u64 \<Rightarrow> u64 \<Rightarrow> int \<Rightarrow> u64" where
  "rate_per_ms t0 t1 ns =
     (let r = (if ns > 0 \<and> t0 < t1 then (t1 - t0) * 1000000 div (of_int ns) else 0)
      in if r \<noteq> 0 then r else 1)"

text \<open>
  The three builds of the function: the measured rate on x86, the counter's stated frequency
  \<open>cntfrq\<close> on AArch64, and the steady clock's nanoseconds elsewhere.
\<close>

datatype target = X86 | AArch64 | Elsewhere

fun measure_ticks_per_ms :: "target \<Rightarrow> u64 \<Rightarrow> (u64 \<times> int \<times> u64) list \<Rightarrow> (u64 \<times> int \<times> u64) list \<Rightarrow> u64" where
  "measure_ticks_per_ms X86 cntfrq first_end second_end =
     (let (t0, c0) = paired 0 first_end; (t1, c1) = paired 0 second_end
      in rate_per_ms t0 t1 (c1 - c0))"
| "measure_ticks_per_ms AArch64 cntfrq first_end second_end =
     (let r = cntfrq div 1000 in if r \<noteq> 0 then r else 1)"
| "measure_ticks_per_ms Elsewhere cntfrq first_end second_end = 1000000"

lemma measure_positive: "0 < measure_ticks_per_ms tgt cntfrq first_end second_end"
  by (cases tgt) (auto simp: rate_per_ms_def Let_def word_neq_0_conv split: prod.splits)

section \<open>The gate\<close>

record stream_gate =
  thr :: u64
  t_last :: u64
  started :: bool
  t_sum :: u64
  a_sum :: u64
  streams :: u64
  probes :: u64
  probe :: u32
  probe_every :: u32
  open_run :: u32
  probing :: bool

definition kStreamNs :: u64 where "kStreamNs = 100"
definition kProbeEvery :: u32 where "kProbeEvery = 256"
definition kProbeMax :: u32 where "kProbeMax = 65536"
definition kStayOpen :: u32 where "kStayOpen = 8"
definition kProbeSeed :: u64 where "kProbeSeed = 4"
definition kMaxInterval :: u64 where "kMaxInterval = 2 ^ 32"
definition kFrac :: nat where "kFrac = 4"

definition gate_init :: stream_gate where
  "gate_init = \<lparr>thr = 0, t_last = 0, started = False, t_sum = 0, a_sum = 0, streams = 0,
     probes = 0, probe = 0, probe_every = kProbeEvery, open_run = 0, probing = False\<rparr>"

definition gate_of_rate :: "u64 \<Rightarrow> stream_gate" where
  "gate_of_rate ticks_per_ms = gate_init\<lparr>thr := kStreamNs * ticks_per_ms\<rparr>"

text \<open>One sample into the two running sums, each decayed by a quarter.\<close>

definition gate_sample :: "stream_gate \<Rightarrow> u64 \<Rightarrow> u64 \<Rightarrow> stream_gate" where
  "gate_sample g arrived now =
     (if started g \<and> t_last g \<le> now then
        let dt = now - t_last g;
            dt = (if dt > kMaxInterval then kMaxInterval else dt)
        in g\<lparr>t_sum := t_sum g - drop_bit 2 (t_sum g) + push_bit kFrac dt,
             a_sum := a_sum g - drop_bit 2 (a_sum g) + push_bit kFrac arrived\<rparr>
      else g)"

definition reads_as_stream :: "stream_gate \<Rightarrow> bool" where
  "reads_as_stream g \<longleftrightarrow> a_sum g \<noteq> 0 \<and> t_sum g * 1000000 \<le> thr g * a_sum g"

definition gate_open :: "stream_gate \<Rightarrow> stream_gate" where
  "gate_open g =
     (let g = g\<lparr>streams := streams g + 1, probe := 0\<rparr> in
      if open_run g < kStayOpen then
        let g = g\<lparr>open_run := open_run g + 1\<rparr>
        in if open_run g = kStayOpen then g\<lparr>probe_every := kProbeEvery\<rparr> else g
      else g)"

definition gate_shut :: "stream_gate \<Rightarrow> bool \<times> stream_gate" where
  "gate_shut g =
     (let g = g\<lparr>open_run := 0, probe := probe g + 1\<rparr> in
      if probe g \<ge> probe_every g then
        let g = g\<lparr>probe := 0\<rparr>;
            g = (if probe_every g < kProbeMax then g\<lparr>probe_every := probe_every g * 2\<rparr> else g)
        in (True, g\<lparr>probing := True, probes := probes g + 1\<rparr>)
      else (False, g))"

text \<open>The state the test is made in: the threshold known, the sample taken, the flags reset.\<close>

definition gate_measured :: "u64 \<Rightarrow> stream_gate \<Rightarrow> u64 \<Rightarrow> u64 \<Rightarrow> stream_gate" where
  "gate_measured ticks_per_ms g arrived now =
     (let g = (if thr g = 0 then g\<lparr>thr := kStreamNs * ticks_per_ms\<rparr> else g);
          g = gate_sample g arrived now
      in g\<lparr>t_last := now, started := True, probing := False\<rparr>)"

definition should_wait_at :: "u64 \<Rightarrow> stream_gate \<Rightarrow> u64 \<Rightarrow> u64 \<Rightarrow> bool \<times> stream_gate" where
  "should_wait_at ticks_per_ms g arrived now =
     (let g = gate_measured ticks_per_ms g arrived now
      in if reads_as_stream g then (True, gate_open g) else gate_shut g)"

definition waited :: "stream_gate \<Rightarrow> bool \<Rightarrow> stream_gate" where
  "waited g filled =
     (let g = (if probing g \<and> filled
               then g\<lparr>t_sum := 0, a_sum := a_sum g + push_bit kFrac kProbeSeed\<rparr> else g)
      in g\<lparr>probing := False\<rparr>)"

section \<open>What the sums stay below\<close>

lemmas gate_consts = kStreamNs_def kProbeEvery_def kProbeMax_def kStayOpen_def kProbeSeed_def
  kMaxInterval_def kFrac_def

text \<open>
  The decay keeps three quarters, rounded up, so a sum that takes at most \<open>d\<close> per sample
  stays at or below any \<open>B\<close> of at least \<open>4 * (d + 1)\<close>.
\<close>

lemma decay_bound:
  fixes x d B :: nat
  assumes "x \<le> B" "4 * (d + 1) \<le> B"
  shows "x - x div 4 + d \<le> B"
proof -
  define y where "y = x - x div 4"
  have "4 * y \<le> x * 3 + 3" unfolding y_def by auto
  then have "y + d \<le> B" using assms by simp
  then show ?thesis by (simp add: y_def)
qed

lemma decay_word:
  fixes x y :: u64
  assumes "unat x \<le> B" "4 * (unat y + room + 1) \<le> B" "B < 2 ^ 64"
  shows "unat (x - drop_bit 2 x + y) + room \<le> B"
proof -
  have sub: "unat (x - drop_bit 2 x) = unat x - unat x div 4"
    by (simp add: unat_rules)
  have le: "unat x - unat x div 4 + (unat y + room) \<le> B"
    using assms by (intro decay_bound) auto
  with assms(3) have "unat (x - drop_bit 2 x + y) = unat x - unat x div 4 + unat y"
    by (subst unat_plus_small) (auto simp: sub)
  with le show ?thesis by simp
qed

text \<open>
  The consumer's use of the gate: one catch-up asks whether to wait and, when it should,
  reports afterwards whether the batch filled.
\<close>

definition catch_up :: "u64 \<Rightarrow> stream_gate \<Rightarrow> u64 \<times> u64 \<times> bool \<Rightarrow> bool \<times> stream_gate" where
  "catch_up ticks_per_ms g c =
     (case c of (arrived, now, filled) \<Rightarrow>
        case should_wait_at ticks_per_ms g arrived now of
          (w, g') \<Rightarrow> (w, if w then waited g' filled else g'))"

fun catch_ups :: "u64 \<Rightarrow> stream_gate \<Rightarrow> (u64 \<times> u64 \<times> bool) list \<Rightarrow> bool list \<times> stream_gate" where
  "catch_ups tpm g [] = ([], g)"
| "catch_ups tpm g (c # cs) =
     (case catch_up tpm g c of (w, g') \<Rightarrow>
        case catch_ups tpm g' cs of (ws, g'') \<Rightarrow> (w # ws, g''))"

lemmas gate_defs = gate_init_def gate_of_rate_def gate_sample_def gate_measured_def
  gate_open_def gate_shut_def should_wait_at_def waited_def catch_up_def

text \<open>
  While the counter does not run backwards every catch-up but the first decays both sums. With at
  most \<open>A\<close> elements arriving between two catch-ups the time sum then stays at or below
  \<open>2 ^ 38 + 4\<close> and the arrival sum, to which a filled probe adds 64, at or below \<open>64 * A + 260\<close>.
\<close>

fun forward :: "u64 \<Rightarrow> (u64 \<times> u64 \<times> bool) list \<Rightarrow> bool" where
  "forward t [] = True"
| "forward t ((arrived, now, filled) # cs) \<longleftrightarrow> t \<le> now \<and> forward now cs"

definition gate_bounded :: "nat \<Rightarrow> stream_gate \<Rightarrow> bool" where
  "gate_bounded A g \<longleftrightarrow> unat (t_sum g) \<le> 2 ^ 38 + 4 \<and> unat (a_sum g) \<le> 64 * A + 260 \<and>
     (\<not> started g \<longrightarrow> a_sum g = 0)"

lemma gate_bounded_init: "gate_bounded A gate_init"
  by (simp add: gate_bounded_def gate_defs)

lemma gate_measured_bounded:
  assumes g: "gate_bounded A g" and A: "unat arrived \<le> A" and fits: "64 * A + 260 < 2 ^ 64" and now: "t_last g \<le> now"
  shows "unat (t_sum (gate_measured tpm g arrived now)) \<le> 2 ^ 38 + 4"
    and "unat (a_sum (gate_measured tpm g arrived now)) + 64 \<le> 64 * A + 260"
proof -
  define dt where "dt = (if now - t_last g > kMaxInterval then kMaxInterval else now - t_last g)"
  have dt: "unat (push_bit kFrac dt) \<le> 2 ^ 36"
  proof -
    have "unat dt \<le> 2 ^ 32"
      by (auto simp: dt_def kMaxInterval_def word_less_nat_alt not_less)
    then show ?thesis by (subst unat_push_bit_small) (auto simp: kFrac_def)
  qed
  have ar: "unat (push_bit kFrac arrived) \<le> 16 * A"
    using A fits by (subst unat_push_bit_small) (auto simp: kFrac_def)
  have t: "unat (t_sum g - drop_bit 2 (t_sum g) + push_bit kFrac dt) + 0 \<le> 2 ^ 38 + 4"
    using g dt by (intro decay_word) (auto simp: gate_bounded_def)
  have a: "unat (a_sum g - drop_bit 2 (a_sum g) + push_bit kFrac arrived) + 64 \<le> 64 * A + 260"
    using g ar fits by (intro decay_word) (auto simp: gate_bounded_def)
  show "unat (t_sum (gate_measured tpm g arrived now)) \<le> 2 ^ 38 + 4"
    using t g unfolding dt_def by (auto simp: gate_bounded_def gate_measured_def gate_sample_def Let_def split: if_splits)
  show "unat (a_sum (gate_measured tpm g arrived now)) + 64 \<le> 64 * A + 260"
    using a g now by (auto simp: gate_bounded_def gate_measured_def gate_sample_def Let_def)
qed

lemma catch_up_bounded:
  assumes g: "gate_bounded A g" and A: "unat arrived \<le> A" and fits: "64 * A + 260 < 2 ^ 64" and now: "t_last g \<le> now"
    and c: "catch_up tpm g (arrived, now, filled) = (w, g')"
  shows "gate_bounded A g' \<and> t_last g' = now"
proof -
  let ?m = "gate_measured tpm g arrived now"
  note m = gate_measured_bounded [OF g A fits now, of tpm]
  have st: "started ?m" "t_last ?m = now" by (simp_all add: gate_measured_def Let_def)
  have "unat (a_sum ?m + 64) = unat (a_sum ?m) + 64"
    using m(2) fits by (intro unat_plus_small [THEN trans]) auto
  moreover have "push_bit kFrac kProbeSeed = (64 :: u64)"
    by (simp add: kFrac_def kProbeSeed_def push_bit_eq_mult)
  ultimately show ?thesis
    using m st c by (auto simp: catch_up_def should_wait_at_def gate_open_def gate_shut_def
        waited_def gate_bounded_def Let_def split: if_splits)
qed

lemma catch_ups_bounded:
  assumes "gate_bounded A g" "\<forall>c \<in> set cs. unat (fst c) \<le> A" "64 * A + 260 < 2 ^ 64"
    "forward (t_last g) (cs @ [(arrived, now, filled)])" "catch_ups tpm g cs = (ws, g')"
  shows "gate_bounded A g' \<and> t_last g' \<le> now"
  using assms
proof (induction cs arbitrary: g ws)
  case Nil
  then show ?case by simp
next
  case (Cons c cs)
  obtain ar nw fl where c: "c = (ar, nw, fl)" by (cases c)
  obtain w h where h: "catch_up tpm g c = (w, h)" by (cases "catch_up tpm g c")
  obtain vs where vs: "catch_ups tpm h cs = (vs, g')"
    using Cons.prems(5) h by (auto split: prod.splits)
  have "gate_bounded A h \<and> t_last h = nw"
    using Cons.prems c h by (intro catch_up_bounded [of A g ar]) auto
  then show ?case
    using Cons.IH [of h vs] Cons.prems vs c by auto
qed

text \<open>The threshold is the measured rate's, from the first catch-up on.\<close>

definition gate_thr :: "u64 \<Rightarrow> stream_gate \<Rightarrow> bool" where
  "gate_thr tpm g \<longleftrightarrow> thr g = 0 \<or> thr g = kStreamNs * tpm"

lemma gate_thr_frames [simp]:
  "thr (gate_sample g arrived now) = thr g"
  "thr (gate_open g) = thr g"
  "thr (snd (gate_shut g)) = thr g"
  "thr (waited g filled) = thr g"
  by (simp_all add: gate_sample_def gate_open_def gate_shut_def waited_def Let_def)

lemma should_wait_thr:
  "thr (snd (should_wait_at tpm g arrived now)) = (if thr g = 0 then kStreamNs * tpm else thr g)"
  by (simp add: should_wait_at_def gate_measured_def Let_def)

lemma catch_up_thr:
  assumes "gate_thr tpm g" "catch_up tpm g c = (w, g')"
  shows "gate_thr tpm g'"
proof -
  obtain arrived now filled where c: "c = (arrived, now, filled)" by (cases c)
  obtain v h where h: "should_wait_at tpm g arrived now = (v, h)"
    by (cases "should_wait_at tpm g arrived now")
  have "thr h = (if thr g = 0 then kStreamNs * tpm else thr g)"
    using should_wait_thr [of tpm g arrived now] h by simp
  moreover have "thr g' = thr h"
    using assms(2) c h by (auto simp: catch_up_def)
  ultimately show ?thesis
    using assms(1) by (auto simp: gate_thr_def)
qed

lemma catch_ups_thr: "gate_thr tpm g \<Longrightarrow> catch_ups tpm g cs = (ws, g') \<Longrightarrow> gate_thr tpm g'"
  by (induction cs arbitrary: g ws) (auto split: prod.splits dest: catch_up_thr)

text \<open>
  C29. The gate's test does not wrap: after any number of catch-ups, with at most \<open>A\<close> elements
  arriving in each and a counter that does not run backwards, the 64-bit comparison the code makes
  agrees with the comparison of the unbounded products, time against the threshold of
  \<open>kStreamNs\<close> = 100 ns an element, provided \<open>100 * ticks_per_ms * (64 * A + 260)\<close> is below
  \<open>2 ^ 64\<close>. At 10 GHz that allows 280 million elements in one catch-up.
\<close>

theorem gate_test_exact:
  assumes run: "catch_ups tpm gate_init cs = (ws, g)"
    and A: "\<forall>c \<in> set cs. unat (fst c) \<le> A" "unat arrived \<le> A"
    and clock: "forward 0 (cs @ [(arrived, now, False)])"
    and tpm: "0 < tpm" and fits: "100 * unat tpm * (64 * A + 260) < 2 ^ 64"
    and m: "m = gate_measured tpm g arrived now"
  shows "reads_as_stream m \<longleftrightarrow>
    0 < unat (a_sum m) \<and> unat (t_sum m) * 1000000 \<le> 100 * unat tpm * unat (a_sum m)"
proof -
  define B where "B = 64 * A + 260"
  have tpm': "0 < unat tpm" using tpm by (simp add: word_less_nat_alt)
  have B: "100 * unat tpm * B < 2 ^ 64" "0 < B" using fits by (auto simp: B_def)
  have small: "B < 2 ^ 64" and thr_fits: "100 * unat tpm < 2 ^ 64"
    by (rule le_less_trans [OF _ B(1)], use tpm' B(2) in simp)+
  have "gate_bounded A g \<and> t_last g \<le> now"
    using catch_ups_bounded [OF gate_bounded_init A(1) _ _ run] small clock by (simp add: B_def gate_init_def)
  then have m_bounded: "unat (t_sum m) \<le> 2 ^ 38 + 4" "unat (a_sum m) \<le> B"
    using gate_measured_bounded [of A g arrived now tpm] A(2) small by (auto simp: m B_def)
  have "thr m = kStreamNs * tpm"
    using catch_ups_thr [OF _ run] m
    by (auto simp: gate_thr_def gate_measured_def gate_sample_def gate_init_def Let_def)
  then have thr_m: "unat (thr m) = 100 * unat tpm"
    using thr_fits by (simp add: kStreamNs_def unat_mult_small)
  have "100 * unat tpm * unat (a_sum m) < 2 ^ 64"
    using m_bounded(2) B(1) by (meson le_less_trans mult_le_mono2)
  then have "unat (thr m * a_sum m) = 100 * unat tpm * unat (a_sum m)"
    using thr_m by (simp add: unat_mult_small)
  moreover have "unat (t_sum m * 1000000) = unat (t_sum m) * 1000000"
    using m_bounded(1) by (subst unat_mult_small) auto
  moreover have "a_sum m \<noteq> 0 \<longleftrightarrow> 0 < unat (a_sum m)"
    by (simp add: unat_gt_0)
  ultimately show ?thesis by (simp add: reads_as_stream_def word_le_nat_alt)
qed

text \<open>
  Two catch-ups of 40 elements each on a 3 GHz counter, 1000 ticks apart: 25 ticks,
  8 ns, an element read as a stream; 100000 ticks apart they do not.
\<close>

definition gate_demo :: "u64 \<Rightarrow> stream_gate" where
  "gate_demo now = gate_measured 3000000 (snd (catch_ups 3000000 gate_init [(40, 5000, False)])) 40 now"

theorem gate_test_exact_witness:
  "(reads_as_stream (gate_demo 6000) \<longleftrightarrow>
      0 < unat (a_sum (gate_demo 6000)) \<and> unat (t_sum (gate_demo 6000)) * 1000000 \<le> 300000000 * unat (a_sum (gate_demo 6000)))
   \<and> (reads_as_stream (gate_demo 105000) \<longleftrightarrow>
      0 < unat (a_sum (gate_demo 105000)) \<and> unat (t_sum (gate_demo 105000)) * 1000000 \<le> 300000000 * unat (a_sum (gate_demo 105000)))
   \<and> reads_as_stream (gate_demo 6000) \<and> \<not> reads_as_stream (gate_demo 105000)
   \<and> a_sum (gate_demo 105000) = 640 \<and> t_sum (gate_demo 105000) = 1600000"
proof -
  let ?r = "catch_ups 3000000 gate_init [(40, 5000, False)]"
  have run: "?r = (fst ?r, snd ?r)" by simp
  have both: "reads_as_stream (gate_demo now) \<longleftrightarrow>
      0 < unat (a_sum (gate_demo now)) \<and> unat (t_sum (gate_demo now)) * 1000000 \<le> 300000000 * unat (a_sum (gate_demo now))"
    if "5000 \<le> now" for now
    using gate_test_exact [OF run, of 40 40 now "gate_demo now"] that by (simp add: gate_demo_def)
  have "reads_as_stream (gate_demo 6000)" "\<not> reads_as_stream (gate_demo 105000)"
    "a_sum (gate_demo 105000) = 640" "t_sum (gate_demo 105000) = 1600000" by code_simp+
  then show ?thesis using both [of 6000] both [of 105000] by simp
qed

section \<open>When the gate probes\<close>

definition gate_counters :: "stream_gate \<Rightarrow> bool" where
  "gate_counters g \<longleftrightarrow>
     probe g < probe_every g \<and> open_run g \<le> kStayOpen \<and>
     (\<exists>k \<le> 8. unat (probe_every g) = 256 * 2 ^ k)"

lemma gate_init_counters [simp]: "gate_counters gate_init"
  by (auto simp: gate_counters_def gate_init_def gate_consts intro: exI [of _ 0])

lemma probe_every_le: "gate_counters g \<Longrightarrow> unat (probe_every g) \<le> 65536"
  using power_increasing [of _ 8 "2 :: nat"] by (fastforce simp: gate_counters_def)

lemma gate_open_counters: "gate_counters g \<Longrightarrow> gate_counters (gate_open g)"
  by (auto simp: gate_counters_def gate_open_def gate_consts Let_def word_less_nat_alt
      word_le_nat_alt unat_plus_small intro: exI [of _ 0])

text \<open>One catch-up that does not read as a stream, in naturals.\<close>

lemma gate_shut_nat:
  assumes k: "unat (probe_every g) = 256 * 2 ^ k" "k \<le> 8" and p: "probe g < probe_every g"
    and shut: "gate_shut g = (w, g')"
  shows "w \<longleftrightarrow> unat (probe g) + 1 = 256 * 2 ^ k"
    and "unat (probe_every g') = 256 * 2 ^ (if w then min (k + 1) 8 else k)"
    and "unat (probe g') = (if w then 0 else unat (probe g) + 1)"
    and "open_run g' = 0"
proof -
  have pow: "(2::nat) ^ k \<le> 2 ^ 8" using k(2) by (rule power_increasing) simp
  have p': "unat (probe g) < 256 * 2 ^ k" using p k(1) by (simp add: word_less_nat_alt)
  have inc: "unat (probe g + 1) = unat (probe g) + 1"
    using p' pow by (subst unat_plus_small) auto
  have due: "probe_every g \<le> probe g + 1 \<longleftrightarrow> unat (probe g) + 1 = 256 * 2 ^ k"
    using p' by (auto simp: word_le_nat_alt k(1) inc)
  have lt: "probe_every g < kProbeMax \<longleftrightarrow> k < 8"
  proof -
    have "(256::nat) * 2 ^ k < 65536 \<longleftrightarrow> (2::nat) ^ k < 2 ^ 8" by auto
    also have "\<dots> \<longleftrightarrow> k < 8" by (rule power_strict_increasing_iff) simp
    finally show ?thesis by (simp add: word_less_nat_alt k(1) kProbeMax_def)
  qed
  have dbl: "unat (probe_every g * 2) = 256 * 2 ^ Suc k"
    using k pow by (subst unat_mult_small) auto
  show "w \<longleftrightarrow> unat (probe g) + 1 = 256 * 2 ^ k"
    and "unat (probe_every g') = 256 * 2 ^ (if w then min (k + 1) 8 else k)"
    and "unat (probe g') = (if w then 0 else unat (probe g) + 1)"
    and "open_run g' = 0"
    using shut k dbl due lt inc
    by (auto simp: gate_shut_def Let_def min_def not_less split: if_splits)
qed

lemma gate_counter_frames [simp]:
  "probe (gate_measured tpm g arrived now) = probe g"
  "probe_every (gate_measured tpm g arrived now) = probe_every g"
  "open_run (gate_measured tpm g arrived now) = open_run g"
  "probe (waited g filled) = probe g"
  "probe_every (waited g filled) = probe_every g"
  "open_run (waited g filled) = open_run g"
  by (simp_all add: gate_measured_def gate_sample_def waited_def Let_def)

lemma gate_counters_cong:
  "probe h = probe g \<Longrightarrow> probe_every h = probe_every g \<Longrightarrow> open_run h = open_run g \<Longrightarrow>
   gate_counters h \<longleftrightarrow> gate_counters g"
  by (simp add: gate_counters_def)

lemma gate_shut_counters:
  assumes "gate_counters g" "gate_shut g = (w, g')"
  shows "gate_counters g'"
proof -
  obtain k where k: "unat (probe_every g) = 256 * 2 ^ k" "k \<le> 8" and p: "probe g < probe_every g"
    using assms(1) by (auto simp: gate_counters_def)
  note step = gate_shut_nat [OF k p assms(2)]
  have "unat (probe g) < 256 * 2 ^ k" using p k(1) by (simp add: word_less_nat_alt)
  then have "probe g' < probe_every g'"
    using step by (auto simp: word_less_nat_alt split: if_splits)
  moreover have "\<exists>k \<le> 8. unat (probe_every g') = 256 * 2 ^ k"
    using step(2) k(2) by (intro exI [of _ "if w then min (k + 1) 8 else k"]) auto
  ultimately show ?thesis
    using step(4) by (simp add: gate_counters_def)
qed

lemma catch_up_cases:
  assumes "catch_up tpm g (arrived, now, filled) = (w, g')"
  obtains (stream) "reads_as_stream (gate_measured tpm g arrived now)" "w"
      "g' = waited (gate_open (gate_measured tpm g arrived now)) filled"
  | (shut) h where "\<not> reads_as_stream (gate_measured tpm g arrived now)"
      "gate_shut (gate_measured tpm g arrived now) = (w, h)" "g' = (if w then waited h filled else h)"
  using assms by (auto simp: catch_up_def should_wait_at_def Let_def split: if_splits prod.splits)

lemma catch_up_counters:
  assumes "gate_counters g" "catch_up tpm g c = (w, g')"
  shows "gate_counters g'"
proof -
  obtain arrived now filled where c: "c = (arrived, now, filled)" by (cases c)
  let ?m = "gate_measured tpm g arrived now"
  have m: "gate_counters ?m" using assms(1) by (simp add: gate_counters_def)
  from assms(2) [unfolded c] show ?thesis
  proof (cases rule: catch_up_cases)
    case stream
    then show ?thesis using gate_open_counters [OF m] by (simp add: gate_counters_def)
  next
    case (shut h)
    then show ?thesis using gate_shut_counters [OF m] by (simp add: gate_counters_def)
  qed
qed

lemma catch_ups_counters:
  "gate_counters g \<Longrightarrow> catch_ups tpm g cs = (ws, g') \<Longrightarrow> gate_counters g'"
  by (induction cs arbitrary: g ws) (auto split: prod.splits dest: catch_up_counters)

lemma catch_up_False:
  assumes "gate_counters g" "catch_up tpm g c = (False, g')"
  shows "unat (probe g') = unat (probe g) + 1" "probe_every g' = probe_every g"
proof -
  obtain arrived now filled where c: "c = (arrived, now, filled)" by (cases c)
  obtain k where k: "unat (probe_every g) = 256 * 2 ^ k" "k \<le> 8" and p: "probe g < probe_every g"
    using assms(1) by (auto simp: gate_counters_def)
  from assms(2) [unfolded c] have shut: "gate_shut (gate_measured tpm g arrived now) = (False, g')"
    by (cases rule: catch_up_cases) auto
  then show "unat (probe g') = unat (probe g) + 1" "probe_every g' = probe_every g"
    using gate_shut_nat [OF _ k(2) _ shut] k(1) p by (auto simp: word_unat_eq_iff)
qed

lemma catch_ups_False:
  assumes "gate_counters g" "catch_ups tpm g cs = (ws, g')" "True \<notin> set ws"
  shows "unat (probe g') = unat (probe g) + length cs \<and> probe_every g' = probe_every g"
  using assms
proof (induction cs arbitrary: g ws)
  case Nil
  then show ?case by simp
next
  case (Cons c cs)
  then obtain h vs where h: "catch_up tpm g c = (False, h)" and vs: "catch_ups tpm h cs = (vs, g')"
    "True \<notin> set vs"
    by (auto split: prod.splits)
  have "gate_counters h" using catch_up_counters [OF Cons.prems(1) h] .
  then show ?case
    using Cons.IH [OF _ vs] catch_up_False [OF Cons.prems(1) h] by simp
qed

text \<open>
  C31. A consumer that is never told to wait is told so within \<open>kProbeMax\<close> = 65536 catch-ups,
  whatever the clock, the arrivals and the earlier history of the gate: a run of refusals from
  any gate the code can reach is shorter than that, so the gate cannot lock the queue into
  the regime in which every element costs a line transfer.
\<close>

theorem gate_probe_due:
  assumes "catch_ups tpm gate_init before = (vs, g)" and "catch_ups tpm g cs = (ws, g')"
    and "65536 \<le> length cs"
  shows "True \<in> set ws"
proof (rule ccontr)
  assume "True \<notin> set ws"
  have g: "gate_counters g" using catch_ups_counters [OF gate_init_counters assms(1)] .
  then have g': "gate_counters g'" using catch_ups_counters assms(2) by blast
  have "unat (probe g') = unat (probe g) + length cs"
    using catch_ups_False [OF g assms(2) \<open>True \<notin> set ws\<close>] by simp
  moreover have "unat (probe g') < 65536"
    using g' probe_every_le [OF g'] by (auto simp: gate_counters_def word_less_nat_alt)
  ultimately show False using assms(3) by simp
qed

theorem gate_probe_due_witness:
  "True \<in> set (fst (catch_ups 3000000 gate_init (replicate 65536 (0, 0, False))))"
  using gate_probe_due [of 3000000 "[]" "[]" gate_init "replicate 65536 (0, 0, False)"
      "fst (catch_ups 3000000 gate_init (replicate 65536 (0, 0, False)))"
      "snd (catch_ups 3000000 gate_init (replicate 65536 (0, 0, False)))"]
  by simp

text \<open>
  A paced producer: no catch-up reads as a stream. After \<open>n\<close> of them \<open>w\<close> have been probes,
  and the counters say exactly how far the next one is.
\<close>

fun never_streams :: "u64 \<Rightarrow> stream_gate \<Rightarrow> (u64 \<times> u64 \<times> bool) list \<Rightarrow> bool" where
  "never_streams tpm g [] = True"
| "never_streams tpm g (c # cs) \<longleftrightarrow>
     \<not> reads_as_stream (gate_measured tpm g (fst c) (fst (snd c))) \<and>
     never_streams tpm (snd (catch_up tpm g c)) cs"

definition paced :: "nat \<Rightarrow> nat \<Rightarrow> stream_gate \<Rightarrow> bool" where
  "paced n w g \<longleftrightarrow>
     unat (probe_every g) = 256 * 2 ^ min w 8 \<and> unat (probe g) < 256 * 2 ^ min w 8 \<and>
     n + 256 = 256 * 2 ^ min w 8 + 65536 * (w - 8) + unat (probe g)"

lemma catch_up_paced:
  assumes "paced n w g" "\<not> reads_as_stream (gate_measured tpm g (fst c) (fst (snd c)))"
    "catch_up tpm g c = (v, g')"
  shows "paced (Suc n) (if v then Suc w else w) g'"
proof -
  obtain arrived now filled where c: "c = (arrived, now, filled)" by (cases c)
  let ?m = "gate_measured tpm g arrived now"
  from assms(3) [unfolded c] obtain h where h: "gate_shut ?m = (v, h)"
      and g': "g' = (if v then waited h filled else h)"
    using assms(2) c by (cases rule: catch_up_cases) auto
  have "unat (probe_every ?m) = 256 * 2 ^ min w 8" "probe ?m < probe_every ?m"
    using assms(1) by (auto simp: paced_def word_less_nat_alt)
  note step = gate_shut_nat [OF this(1) _ this(2) h]
  have "min (min w 8 + 1) 8 = min (Suc w) 8" by simp
  then show ?thesis
    using step assms(1) unfolding g'
    by (cases "w < 8") (auto simp: paced_def min_def split: if_splits)
qed

lemma catch_ups_paced:
  assumes "paced n w g" "never_streams tpm g cs" "catch_ups tpm g cs = (ws, g')"
  shows "paced (n + length cs) (w + length (filter id ws)) g'"
  using assms
proof (induction cs arbitrary: n w g ws)
  case Nil
  then show ?case by simp
next
  case (Cons c cs)
  then obtain v h vs where h: "catch_up tpm g c = (v, h)" and vs: "catch_ups tpm h cs = (vs, g')"
      and ws: "ws = v # vs"
    by (auto split: prod.splits)
  have "paced (Suc n) (if v then Suc w else w) h"
    using catch_up_paced [OF Cons.prems(1) _ h] Cons.prems(2) by simp
  then show ?case
    using Cons.IH [of "Suc n" "if v then Suc w else w" h vs] Cons.prems(2) h vs ws
    by (cases v) auto
qed

text \<open>
  C33. A paced producer pays a handful of waits and then one per \<open>kProbeMax\<close> catch-ups: of
  \<open>n\<close> catch-ups none of which reads as a stream, at most \<open>8 + n div 65536\<close> make the consumer
  wait.
\<close>

theorem gate_paced_waits:
  assumes "never_streams tpm gate_init cs" and "catch_ups tpm gate_init cs = (ws, g)"
  shows "length (filter id ws) \<le> 8 + length cs div 65536"
proof -
  have "paced 0 0 gate_init" by (simp add: paced_def gate_init_def gate_consts)
  from catch_ups_paced [OF this assms] have p: "paced (length cs) (length (filter id ws)) g"
    by simp
  then show ?thesis
    by (cases "length (filter id ws) \<le> 8") (auto simp: paced_def min_def)
qed

theorem gate_paced_waits_witness:
  "never_streams 3000000 gate_init [(0, 5, False), (0, 6, False)] \<and>
   length (filter id (fst (catch_ups 3000000 gate_init [(0, 5, False), (0, 6, False)]))) \<le> 8"
proof -
  let ?cs = "[(0, 5, False), (0, 6, False)]"
  have "never_streams 3000000 gate_init ?cs"
    by code_simp
  then show ?thesis
    using gate_paced_waits [of 3000000 ?cs "fst (catch_ups 3000000 gate_init ?cs)"
        "snd (catch_ups 3000000 gate_init ?cs)"] by simp
qed

end
