(* ===== verification/Spsc_Ring.thy ===== *)
theory Spsc_Ring
  imports Stream_Gate
begin

text \<open>
  \<open>runtime/spsc_ring.hpp\<close>: the unbounded single-producer single-consumer ring. The first part
  is the code, operation by operation, over the object's fields and the heap of its blocks.
  The second part interleaves the two threads at every access to memory the other side may
  touch (the two counters, the next pointers, the slots) and shows that the ring is the
  sequential FIFO queue, that no slot is read before it is filled or overwritten before it is
  left, and that a pop finishes within a fixed number of its own steps.
\<close>

section \<open>The object\<close>

text \<open>
  A block is named by its index in the order of allocation. A slot is \<open>None\<close> while it is raw
  storage and \<open>Some e\<close> while the element \<open>e\<close> lives in it. Element numbers and counters are
  naturals: the code's are 64-bit and count elements, so they do not wrap in a run of fewer
  than \<open>2 ^ 64\<close> pushes. The block size \<open>kSlots\<close> is the parameter \<open>k\<close>.
\<close>

record 'a block =
  next_blk :: nat
  end_no :: nat
  slots :: "nat \<Rightarrow> 'a option"

record 'a spsc_ring =
  blocks :: "nat \<Rightarrow> 'a block"
  nblocks :: nat
  p_blk :: nat
  p_count :: nat
  p_off :: nat
  p_cached_pop :: nat
  push_pub :: nat
  c_blk :: nat
  c_count :: nat
  c_off :: nat
  c_cached_push :: nat
  c_lent :: "(nat \<times> nat) option"
  c_batch :: u32
  c_rate :: u32
  c_slips :: nat
  c_at_catch :: nat
  c_gate :: stream_gate
  pop_pub :: nat

definition default_slots :: "nat \<Rightarrow> nat" where
  "default_slots slot_size = (let n = 128 * 1024 div slot_size in if n < 2 then 2 else n)"

definition kSlipMax :: "nat \<Rightarrow> nat \<Rightarrow> nat" where
  "kSlipMax slot_size k =
     (let n = 32 * 64 div slot_size;
          n = (if n > k div 4 then k div 4 else n)
      in if n < 2 then 2 else n)"

definition kSlipPauses :: u32 where "kSlipPauses = 64"
definition kSlipGapMax :: u32 where "kSlipGapMax = 32"
definition kRateScale :: u32 where "kRateScale = 16"

text \<open>A new block; its next pointer is stored before any other thread can reach it.\<close>

definition make_block :: "nat \<Rightarrow> nat \<Rightarrow> 'a block" where
  "make_block nxt e = \<lparr>next_blk = nxt, end_no = e, slots = (\<lambda>_. None)\<rparr>"

definition new_ring :: "nat \<Rightarrow> 'a spsc_ring" where
  "new_ring k =
     \<lparr>blocks = (\<lambda>_. make_block 0 0)(0 := make_block 1 k, 1 := make_block 0 0), nblocks = 2,
      p_blk = 0, p_count = 0, p_off = 0, p_cached_pop = 0, push_pub = 0,
      c_blk = 0, c_count = 0, c_off = 0, c_cached_push = 0, c_lent = None,
      c_batch = 1, c_rate = kRateScale, c_slips = 0, c_at_catch = 0, c_gate = gate_init,
      pop_pub = 0\<rparr>"

abbreviation nxt :: "'a spsc_ring \<Rightarrow> nat \<Rightarrow> nat" where
  "nxt r b \<equiv> next_blk (blocks r b)"

abbreviation slot_at :: "'a spsc_ring \<Rightarrow> nat \<Rightarrow> nat \<Rightarrow> 'a option" where
  "slot_at r b i \<equiv> slots (blocks r b) i"

definition set_slot :: "nat \<Rightarrow> nat \<Rightarrow> 'a option \<Rightarrow> 'a spsc_ring \<Rightarrow> 'a spsc_ring" where
  "set_slot b i v r =
     r\<lparr>blocks := (blocks r)(b := (blocks r b)\<lparr>slots := (slots (blocks r b))(i := v)\<rparr>)\<rparr>"

section \<open>The producer's side\<close>

text \<open>
  \<open>turn_over\<close> in its three parts: the test whether the candidate is drained by what the
  producer knows of the consumer, the load that refreshes that knowledge, and the two ways
  on: into the candidate, or into a new block linked before it.
\<close>

definition drained :: "'a spsc_ring \<Rightarrow> bool" where
  "drained r \<longleftrightarrow> end_no (blocks r (nxt r (p_blk r))) \<le> p_cached_pop r"

definition load_pop_pub :: "'a spsc_ring \<Rightarrow> 'a spsc_ring" where
  "load_pop_pub r = r\<lparr>p_cached_pop := pop_pub r\<rparr>"

definition enter_candidate :: "nat \<Rightarrow> 'a spsc_ring \<Rightarrow> 'a spsc_ring" where
  "enter_candidate k r =
     (let cand = nxt r (p_blk r) in
      r\<lparr>blocks := (blocks r)(cand := (blocks r cand)\<lparr>end_no := p_count r + k\<rparr>),
        p_blk := cand, p_off := 0\<rparr>)"

definition link_block :: "nat \<Rightarrow> 'a spsc_ring \<Rightarrow> 'a spsc_ring" where
  "link_block k r =
     (let cand = nxt r (p_blk r);
          nb = nblocks r;
          heap = (blocks r)(nb := make_block cand (p_count r + k));
          heap = heap(p_blk r := (heap (p_blk r))\<lparr>next_blk := nb\<rparr>)
      in r\<lparr>blocks := heap, nblocks := Suc nb, p_blk := nb, p_off := 0\<rparr>)"

definition turn_over :: "nat \<Rightarrow> 'a spsc_ring \<Rightarrow> 'a spsc_ring" where
  "turn_over k r =
     (if drained r then enter_candidate k r
      else let r = load_pop_pub r
           in if drained r then enter_candidate k r else link_block k r)"

definition fill_slot :: "'a \<Rightarrow> 'a spsc_ring \<Rightarrow> 'a spsc_ring" where
  "fill_slot v r =
     (set_slot (p_blk r) (p_off r) (Some v) r)\<lparr>p_off := Suc (p_off r), p_count := Suc (p_count r)\<rparr>"

definition spsc_push_deferred :: "nat \<Rightarrow> 'a \<Rightarrow> 'a spsc_ring \<Rightarrow> 'a spsc_ring" where
  "spsc_push_deferred k v r = fill_slot v (if p_off r = k then turn_over k r else r)"

definition spsc_publish :: "'a spsc_ring \<Rightarrow> 'a spsc_ring" where
  "spsc_publish r = r\<lparr>push_pub := p_count r\<rparr>"

definition spsc_push :: "nat \<Rightarrow> 'a \<Rightarrow> 'a spsc_ring \<Rightarrow> 'a spsc_ring" where
  "spsc_push k v r = spsc_publish (spsc_push_deferred k v r)"

section \<open>The consumer's side\<close>

definition load_push_pub :: "'a spsc_ring \<Rightarrow> 'a spsc_ring" where
  "load_push_pub r = r\<lparr>c_cached_push := push_pub r\<rparr>"

text \<open>
  \<open>slip\<close> up to its loop, given the largest batch and what the tick counter reads: whether the
  loop is entered, and the state. The comparisons of the 64-bit \<open>delta\<close> with the 32-bit batch
  are made on their values, as C++ widens the batch.
\<close>

definition slip_enter :: "nat \<Rightarrow> u64 \<Rightarrow> u64 \<Rightarrow> 'a spsc_ring \<Rightarrow> bool \<times> 'a spsc_ring" where
  "slip_enter smax tpm now r =
     (let arrived = c_cached_push r - c_at_catch r;
          r = r\<lparr>c_at_catch := c_cached_push r\<rparr>;
          (wait, g) = should_wait_at tpm (c_gate r) (of_nat arrived) now;
          r = r\<lparr>c_gate := g\<rparr>
      in if \<not> wait then (False, r\<lparr>c_batch := 1\<rparr>)
         else let r = (if probing g \<and> c_batch r < 2 then r\<lparr>c_batch := 2\<rparr> else r);
                  delta = c_cached_push r - c_count r
              in if delta \<ge> unat (c_batch r) then
                   let r = (if delta \<ge> unat (2 * c_batch r) \<and> unat (c_batch r) < smax then
                              let b = c_batch r * 2
                              in r\<lparr>c_batch := (if unat b > smax then of_nat smax else b)\<rparr>
                            else r)
                   in (False, r\<lparr>c_gate := waited (c_gate r) True\<rparr>)
                 else (True, r\<lparr>c_slips := Suc (c_slips r)\<rparr>))"

text \<open>
  One turn of the loop: the pauses (whose number is all they leave), one load of \<open>push_pub_\<close>,
  the new rate. The first component says whether the slip is over.
\<close>

definition slip_gap :: "'a spsc_ring \<Rightarrow> nat \<Rightarrow> u32" where
  "slip_gap r delta =
     (let need = of_nat (unat (c_batch r) - delta);
          gap = (need * kRateScale + c_rate r - 1) div c_rate r;
          gap = (if gap < 1 then 1 else gap)
      in if gap > kSlipGapMax then kSlipGapMax else gap)"

definition slip_poll :: "u32 \<Rightarrow> nat \<Rightarrow> 'a spsc_ring \<Rightarrow> bool \<times> u32 \<times> nat \<times> 'a spsc_ring" where
  "slip_poll wtd delta r =
     (let gap = slip_gap r delta;
          wtd = wtd + gap;
          before = delta;
          r = load_push_pub r;
          delta = c_cached_push r - c_count r;
          seen = of_nat ((delta - before) * unat kRateScale div unat gap);
          rate = (3 * c_rate r + seen) div 4;
          r = r\<lparr>c_rate := (if rate < 1 then 1 else rate)\<rparr>
      in if delta \<ge> unat (c_batch r) then (True, wtd, delta, r\<lparr>c_gate := waited (c_gate r) True\<rparr>)
         else (False, wtd, delta, r))"

definition slip_give_up :: "'a spsc_ring \<Rightarrow> 'a spsc_ring" where
  "slip_give_up r =
     r\<lparr>c_batch := (if c_batch r > 1 then c_batch r div 2 else c_batch r),
       c_gate := waited (c_gate r) False\<rparr>"

lemma slip_gap_range: "1 \<le> slip_gap r delta" "slip_gap r delta \<le> kSlipGapMax"
proof -
  have pos: "(1::u32) \<le> (if 32 < (if g < 1 then 1 else g) then 32 else if g < 1 then 1 else g)" for g :: u32
    by (cases "g < 1"; cases "32 < g") (auto simp: not_less simp del: word_less_1)
  show "1 \<le> slip_gap r delta"
    unfolding slip_gap_def kSlipGapMax_def Let_def by (rule pos)
  show "slip_gap r delta \<le> kSlipGapMax"
    by (simp add: slip_gap_def kSlipGapMax_def Let_def not_less)
qed

lemma slip_poll_wtd:
  assumes "wtd < kSlipPauses" "slip_poll wtd delta r = (filled, wtd', delta', r')"
  shows "unat wtd < unat wtd'" "unat wtd' \<le> unat wtd + 32"
proof -
  have gap: "1 \<le> unat (slip_gap r delta)" "unat (slip_gap r delta) \<le> 32"
    using slip_gap_range [of r delta] by (simp_all add: word_le_nat_alt kSlipGapMax_def)
  have "unat wtd < 64" using assms(1) by (simp add: word_less_nat_alt kSlipPauses_def)
  moreover have "wtd' = wtd + slip_gap r delta"
    using assms(2) by (auto simp: slip_poll_def Let_def split: if_splits)
  ultimately show "unat wtd < unat wtd'" "unat wtd' \<le> unat wtd + 32"
    using gap by (simp_all add: unat_plus_small)
qed

text \<open>The loop with nobody else running, which the pauses bound.\<close>

function slip_loop :: "u32 \<Rightarrow> nat \<Rightarrow> 'a spsc_ring \<Rightarrow> 'a spsc_ring" where
  "slip_loop wtd delta r =
     (if wtd < kSlipPauses then
        (case slip_poll wtd delta r of (filled, wtd', delta', r') \<Rightarrow>
           if filled then r' else slip_loop wtd' delta' r')
      else slip_give_up r)"
  by pat_completeness auto
termination
proof (relation "measure (\<lambda>(wtd, delta, r). 64 - unat wtd)", goal_cases)
  case 1
  then show ?case by simp
next
  case 2
  then show ?case
    by (auto simp: word_less_nat_alt kSlipPauses_def dest!: sym [of "(_, _)"] slip_poll_wtd(1) [rotated])
qed

declare slip_loop.simps [simp del]

definition slip :: "nat \<Rightarrow> u64 \<Rightarrow> u64 \<Rightarrow> 'a spsc_ring \<Rightarrow> 'a spsc_ring" where
  "slip smax tpm now r =
     (case slip_enter smax tpm now r of (loops, r') \<Rightarrow>
        if loops then slip_loop 0 (c_cached_push r' - c_count r') r' else r')"

definition release_lent :: "'a spsc_ring \<Rightarrow> 'a spsc_ring" where
  "release_lent r =
     (case c_lent r of None \<Rightarrow> r | Some (b, i) \<Rightarrow> (set_slot b i None r)\<lparr>c_lent := None\<rparr>)"

text \<open>\<open>advance\<close> past the block's end: the next pointer first, then the announcement.\<close>

definition follow_next :: "'a spsc_ring \<Rightarrow> 'a spsc_ring" where
  "follow_next r = r\<lparr>c_blk := nxt r (c_blk r), c_off := 0\<rparr>"

definition announce :: "'a spsc_ring \<Rightarrow> 'a spsc_ring" where
  "announce r = r\<lparr>pop_pub := c_count r\<rparr>"

definition step_past :: "'a spsc_ring \<Rightarrow> 'a spsc_ring" where
  "step_past r = r\<lparr>c_off := Suc (c_off r), c_count := Suc (c_count r)\<rparr>"

text \<open>The two ways to take the element: moved out and destroyed, or lent in place.\<close>

definition take_slot :: "bool \<Rightarrow> 'a spsc_ring \<Rightarrow> 'a spsc_ring" where
  "take_slot borrow r =
     (if borrow then (step_past r)\<lparr>c_lent := Some (c_blk r, c_off r)\<rparr>
      else set_slot (c_blk r) (c_off r) None (step_past r))"

text \<open>
  \<open>advance\<close>: \<open>None\<close> when the queue was empty, else the place of the next element, with the
  consumer moved past it.
\<close>

definition turn_page :: "nat \<Rightarrow> 'a spsc_ring \<Rightarrow> 'a spsc_ring" where
  "turn_page k r = (if c_off r = k then announce (follow_next r) else r)"

definition advance :: "nat \<Rightarrow> nat \<Rightarrow> u64 \<Rightarrow> u64 \<Rightarrow> 'a spsc_ring \<Rightarrow> (nat \<times> nat) option \<times> 'a spsc_ring" where
  "advance k smax tpm now r =
     (let found = (\<lambda>r. let r = turn_page k r in (Some (c_blk r, c_off r), step_past r)) in
      if c_count r = c_cached_push r then
        let r = load_push_pub r in
        if c_count r = c_cached_push r then (None, r) else found (slip smax tpm now r)
      else found r)"

text \<open>
  \<open>consume\<close> (and \<open>try_pop\<close>, whose taker assigns): the element handed to the taker, its slot
  released. \<open>try_pop_borrow\<close>: the element left in place and lent.
\<close>

definition spsc_consume ::
    "nat \<Rightarrow> nat \<Rightarrow> u64 \<Rightarrow> u64 \<Rightarrow> 'a spsc_ring \<Rightarrow> 'a option \<times> 'a spsc_ring" where
  "spsc_consume k smax tpm now r =
     (case advance k smax tpm now (release_lent r) of
        (None, r') \<Rightarrow> (None, r')
      | (Some (b, i), r') \<Rightarrow> (slot_at r' b i, set_slot b i None r'))"

definition try_pop_borrow ::
    "nat \<Rightarrow> nat \<Rightarrow> u64 \<Rightarrow> u64 \<Rightarrow> 'a spsc_ring \<Rightarrow> (nat \<times> nat) option \<times> 'a spsc_ring" where
  "try_pop_borrow k smax tpm now r =
     (case advance k smax tpm now (release_lent r) of (e, r') \<Rightarrow> (e, r'\<lparr>c_lent := e\<rparr>))"

text \<open>
  The destructor, run when both threads have made their last call: the elements destroyed (the
  lent one, then those from the consumer's position to the producer's) and the blocks freed
  (around the ring from the consumer's block, at most as many as were ever allocated).
\<close>

fun destroy_from :: "nat \<Rightarrow> 'a spsc_ring \<Rightarrow> nat \<Rightarrow> nat \<Rightarrow> nat \<Rightarrow> 'a option list" where
  "destroy_from k r b off 0 = []"
| "destroy_from k r b off (Suc n) =
     (if off = k then slot_at r (nxt r b) 0 # destroy_from k r (nxt r b) 1 n
      else slot_at r b off # destroy_from k r b (Suc off) n)"

fun free_from :: "nat \<Rightarrow> 'a spsc_ring \<Rightarrow> nat \<Rightarrow> nat \<Rightarrow> nat list option" where
  "free_from 0 r start b = None"
| "free_from (Suc fuel) r start b =
     (let n = nxt r b in
      if n = start then Some [b] else map_option ((#) b) (free_from fuel r start n))"

definition spsc_destroy :: "nat \<Rightarrow> 'a spsc_ring \<Rightarrow> 'a option list \<times> nat list option" where
  "spsc_destroy k r =
     (let lent = (case c_lent r of None \<Rightarrow> [] | Some (b, i) \<Rightarrow> [slot_at r b i]);
          r = release_lent r
      in (lent @ destroy_from k r (c_blk r) (c_off r) (p_count r - c_count r),
          free_from (nblocks r) r (c_blk r) (c_blk r)))"

end
