(* ===== verification/Spsc_Concurrent.thy ===== *)
theory Spsc_Concurrent
  imports Spsc_Ring
begin

text \<open>
  The ring with its two threads. Each thread is a program counter; a step is one access to
  memory the other thread may touch, with the private work around it. The step relation lets
  the two interleave in any order, with any values of the tick counter; the accesses are
  sequentially consistent. The events of a step are the queue operations that take effect
  there: a publish makes every element pushed since the last one an \<open>Enq\<close>, a pop is a \<open>Deq\<close>
  where it takes its slot, or a \<open>DeqEmpty\<close> at the load that found nothing.
\<close>

section \<open>Threads\<close>

text \<open>The flag of a push says whether it publishes (\<open>push\<close>) or not (\<open>push_deferred\<close>).\<close>

datatype 'a ppc = PIdle | PLoadPop 'a bool | PLink 'a bool | PFill 'a bool | PPublish

text \<open>The flag of a pop says whether it borrows (\<open>try_pop_borrow\<close>) or not (\<open>consume\<close>).\<close>

datatype cpc = CIdle | CLoad bool | CSlip bool u32 nat | CNext bool | CAnnounce bool | CTake bool

record 'a spsc_sys =
  ring :: "'a spsc_ring"
  ppc :: "'a ppc"
  cpc :: cpc
  pushed :: "'a list"

definition spsc_start :: "nat \<Rightarrow> 'a spsc_sys" where
  "spsc_start k = \<lparr>ring = new_ring k, ppc = PIdle, cpc = CIdle, pushed = []\<rparr>"

definition push_begin :: "nat \<Rightarrow> 'a \<Rightarrow> bool \<Rightarrow> 'a spsc_ring \<Rightarrow> 'a ppc \<times> 'a spsc_ring" where
  "push_begin k v pub r =
     (if p_off r = k then
        if drained r then (PFill v pub, enter_candidate k r) else (PLoadPop v pub, r)
      else (PFill v pub, r))"

definition push_loaded :: "nat \<Rightarrow> 'a \<Rightarrow> bool \<Rightarrow> 'a spsc_ring \<Rightarrow> 'a ppc \<times> 'a spsc_ring" where
  "push_loaded k v pub r =
     (let r = load_pop_pub r
      in if drained r then (PFill v pub, enter_candidate k r) else (PLink v pub, r))"

definition pop_begin :: "bool \<Rightarrow> 'a spsc_ring \<Rightarrow> cpc \<times> 'a spsc_ring" where
  "pop_begin borrow r =
     (let r = release_lent r
      in (if c_count r = c_cached_push r then CLoad borrow else CNext borrow, r))"

definition pop_loaded :: "nat \<Rightarrow> u64 \<Rightarrow> u64 \<Rightarrow> bool \<Rightarrow> 'a spsc_ring \<Rightarrow> cpc \<times> 'a spsc_ring" where
  "pop_loaded smax tpm now borrow r =
     (let r = load_push_pub r
      in if c_count r = c_cached_push r then (CIdle, r)
         else case slip_enter smax tpm now r of (loops, r') \<Rightarrow>
           (if loops then CSlip borrow 0 (c_cached_push r' - c_count r') else CNext borrow, r'))"

definition pop_slip :: "bool \<Rightarrow> u32 \<Rightarrow> nat \<Rightarrow> 'a spsc_ring \<Rightarrow> cpc \<times> 'a spsc_ring" where
  "pop_slip borrow wtd delta r =
     (if wtd < kSlipPauses then
        case slip_poll wtd delta r of (filled, wtd', delta', r') \<Rightarrow>
          (if filled then CNext borrow else CSlip borrow wtd' delta', r')
      else (CNext borrow, slip_give_up r))"

definition pop_next :: "nat \<Rightarrow> bool \<Rightarrow> 'a spsc_ring \<Rightarrow> cpc \<times> 'a spsc_ring" where
  "pop_next k borrow r =
     (if c_off r = k then (CAnnounce borrow, follow_next r) else (CTake borrow, r))"

inductive spsc_step :: "nat \<Rightarrow> nat \<Rightarrow> u64 \<Rightarrow> 'a spsc_sys \<Rightarrow> 'a qevent list \<Rightarrow> 'a spsc_sys \<Rightarrow> bool"
  for k :: nat and smax :: nat and tpm :: u64 where
  push_call: "ppc s = PIdle \<Longrightarrow> push_begin k v pub (ring s) = (pc, r) \<Longrightarrow>
    spsc_step k smax tpm s [] (s\<lparr>ring := r, ppc := pc\<rparr>)"
| push_load: "ppc s = PLoadPop v pub \<Longrightarrow> push_loaded k v pub (ring s) = (pc, r) \<Longrightarrow>
    spsc_step k smax tpm s [] (s\<lparr>ring := r, ppc := pc\<rparr>)"
| push_link: "ppc s = PLink v pub \<Longrightarrow>
    spsc_step k smax tpm s [] (s\<lparr>ring := link_block k (ring s), ppc := PFill v pub\<rparr>)"
| push_fill: "ppc s = PFill v pub \<Longrightarrow>
    spsc_step k smax tpm s []
      (s\<lparr>ring := fill_slot v (ring s), ppc := (if pub then PPublish else PIdle), pushed := pushed s @ [v]\<rparr>)"
| push_publish: "ppc s = PPublish \<or> ppc s = PIdle \<Longrightarrow>
    spsc_step k smax tpm s (map Enq (drop (push_pub (ring s)) (pushed s)))
      (s\<lparr>ring := spsc_publish (ring s), ppc := PIdle\<rparr>)"
| pop_call: "cpc s = CIdle \<Longrightarrow> pop_begin borrow (ring s) = (pc, r) \<Longrightarrow>
    spsc_step k smax tpm s [] (s\<lparr>ring := r, cpc := pc\<rparr>)"
| pop_load: "cpc s = CLoad borrow \<Longrightarrow> pop_loaded smax tpm now borrow (ring s) = (pc, r) \<Longrightarrow>
    spsc_step k smax tpm s (if pc = CIdle then [DeqEmpty] else []) (s\<lparr>ring := r, cpc := pc\<rparr>)"
| pop_poll: "cpc s = CSlip borrow wtd delta \<Longrightarrow> pop_slip borrow wtd delta (ring s) = (pc, r) \<Longrightarrow>
    spsc_step k smax tpm s [] (s\<lparr>ring := r, cpc := pc\<rparr>)"
| pop_turn: "cpc s = CNext borrow \<Longrightarrow> pop_next k borrow (ring s) = (pc, r) \<Longrightarrow>
    spsc_step k smax tpm s [] (s\<lparr>ring := r, cpc := pc\<rparr>)"
| pop_announce: "cpc s = CAnnounce borrow \<Longrightarrow>
    spsc_step k smax tpm s [] (s\<lparr>ring := announce (ring s), cpc := CTake borrow\<rparr>)"
| pop_take: "cpc s = CTake borrow \<Longrightarrow>
    spsc_step k smax tpm s [Deq (the (slot_at (ring s) (c_blk (ring s)) (c_off (ring s))))]
      (s\<lparr>ring := take_slot borrow (ring s), cpc := CIdle\<rparr>)"

text \<open>The queue's content: what is published and not yet popped.\<close>

definition spsc_content :: "'a spsc_sys \<Rightarrow> 'a list" where
  "spsc_content s = drop (c_count (ring s)) (take (push_pub (ring s)) (pushed s))"

section \<open>The invariant\<close>

text \<open>
  The blocks form one ring. \<open>path\<close> is its part from the consumer's block to the producer's,
  \<open>rest\<close> the part the producer will come to next; \<open>base\<close> is the number of the first element of
  the consumer's block, so block \<open>j\<close> of the path holds the elements from \<open>base + j * k\<close> on.
  Every element not yet popped, published or not, is in its slot, and so is the lent one;
  every other slot is raw.
\<close>

definition live :: "'a spsc_ring \<Rightarrow> nat \<Rightarrow> bool" where
  "live r n \<longleftrightarrow> c_count r \<le> n \<and> n < p_count r \<or> c_lent r \<noteq> None \<and> Suc n = c_count r"

definition ring_shape :: "nat \<Rightarrow> 'a spsc_ring \<Rightarrow> nat list \<Rightarrow> nat list \<Rightarrow> nat \<Rightarrow> bool" where
  "ring_shape k r path rest base \<longleftrightarrow>
     path \<noteq> [] \<and> hd path = c_blk r \<and> last path = p_blk r \<and>
     distinct (path @ rest) \<and> set (path @ rest) = {..<nblocks r} \<and>
     linked (nxt r) (path @ rest) (hd path) \<and>
     (\<forall>j < length path. end_no (blocks r (path ! j)) = base + Suc j * k) \<and>
     (\<forall>b \<in> set rest. end_no (blocks r b) \<le> base)"

definition ring_counts :: "nat \<Rightarrow> 'a spsc_ring \<Rightarrow> nat \<Rightarrow> nat \<Rightarrow> bool" where
  "ring_counts k r len base \<longleftrightarrow>
     c_count r = base + c_off r \<and> c_off r \<le> k \<and>
     p_count r + k = base + len * k + p_off r \<and> p_off r \<le> k \<and>
     c_count r \<le> c_cached_push r \<and> c_cached_push r \<le> push_pub r \<and> push_pub r \<le> p_count r \<and>
     c_at_catch r \<le> c_cached_push r \<and>
     p_cached_pop r \<le> pop_pub r \<and> pop_pub r \<le> base \<and>
     (c_lent r = None \<or> 0 < c_off r \<and> c_lent r = Some (c_blk r, c_off r - 1))"

definition ring_slots :: "nat \<Rightarrow> 'a spsc_ring \<Rightarrow> nat list \<Rightarrow> nat list \<Rightarrow> nat \<Rightarrow> 'a list \<Rightarrow> bool" where
  "ring_slots k r path rest base hist \<longleftrightarrow>
     (\<forall>j < length path. \<forall>i < k. slot_at r (path ! j) i =
        (if live r (base + j * k + i) then Some (hist ! (base + j * k + i)) else None)) \<and>
     (\<forall>b \<in> set rest. \<forall>i < k. slot_at r b i = None)"

definition ring_inv ::
    "nat \<Rightarrow> 'a spsc_ring \<Rightarrow> nat list \<Rightarrow> nat list \<Rightarrow> nat \<Rightarrow> 'a list \<Rightarrow> bool" where
  "ring_inv k r path rest base hist \<longleftrightarrow>
     0 < k \<and> ring_shape k r path rest base \<and> ring_counts k r (length path) base \<and>
     ring_slots k r path rest base hist \<and> length hist = p_count r"

lemmas ring_inv_defs = ring_inv_def ring_shape_def ring_counts_def ring_slots_def live_def

definition ppc_ok :: "nat \<Rightarrow> 'a spsc_ring \<Rightarrow> 'a ppc \<Rightarrow> bool" where
  "ppc_ok k r pc \<longleftrightarrow>
     (case pc of PFill _ _ \<Rightarrow> p_off r < k | PLoadPop _ _ \<Rightarrow> p_off r = k | PLink _ _ \<Rightarrow> p_off r = k
      | _ \<Rightarrow> True)"

definition cpc_ok :: "nat \<Rightarrow> 'a spsc_ring \<Rightarrow> cpc \<Rightarrow> bool" where
  "cpc_ok k r pc \<longleftrightarrow>
     (pc \<noteq> CIdle \<longrightarrow> c_lent r = None) \<and>
     (case pc of CIdle \<Rightarrow> True | CLoad _ \<Rightarrow> c_count r = c_cached_push r
      | CSlip _ _ _ \<Rightarrow> c_count r < c_cached_push r
      | CNext _ \<Rightarrow> c_count r < c_cached_push r
      | CAnnounce _ \<Rightarrow> c_count r < c_cached_push r \<and> c_off r = 0
      | CTake _ \<Rightarrow> c_count r < c_cached_push r \<and> c_off r < k)"

definition ring_ok :: "nat \<Rightarrow> 'a spsc_ring \<Rightarrow> 'a list \<Rightarrow> bool" where
  "ring_ok k r hist \<longleftrightarrow> (\<exists>path rest base. ring_inv k r path rest base hist)"

definition spsc_inv :: "nat \<Rightarrow> 'a spsc_sys \<Rightarrow> bool" where
  "spsc_inv k s \<longleftrightarrow>
     ring_ok k (ring s) (pushed s) \<and> ppc_ok k (ring s) (ppc s) \<and> cpc_ok k (ring s) (cpc s)"

subsection \<open>The start\<close>

lemma ring_inv_start: "0 < k \<Longrightarrow> ring_inv k (new_ring k) [0] [1] 0 []"
  by (auto simp: ring_inv_defs new_ring_def make_block_def)

subsection \<open>The producer keeps it\<close>

lemma ring_inv_load_pop:
  "ring_inv k r path rest base hist \<Longrightarrow> ring_inv k (load_pop_pub r) path rest base hist"
  by (auto simp: ring_inv_defs load_pop_pub_def)

lemma ring_inv_publish:
  "ring_inv k r path rest base hist \<Longrightarrow> ring_inv k (spsc_publish r) path rest base hist"
  by (auto simp: ring_inv_defs spsc_publish_def)

text \<open>The candidate comes right after the producer's block: the first of the rest, or the
  consumer's own block, which is never drained.\<close>

lemma candidate:
  assumes "ring_inv k r path rest base hist"
  shows "nxt r (p_blk r) = hd (rest @ [hd path])"
  using assms linked_last [of "nxt r" path "hd (rest @ [hd path])"]
  by (auto simp: ring_inv_def ring_shape_def linked_append)

lemma drained_rest:
  assumes inv: "ring_inv k r path rest base hist" and "drained r"
  obtains rest' where "rest = nxt r (p_blk r) # rest'"
proof (cases rest)
  case Nil
  then have "nxt r (p_blk r) = path ! 0"
    using candidate [OF inv] inv by (auto simp: ring_inv_defs hd_conv_nth)
  then have "end_no (blocks r (nxt r (p_blk r))) = base + k"
    using inv by (auto simp: ring_inv_defs)
  then show ?thesis
    using assms by (auto simp: ring_inv_defs drained_def)
next
  case (Cons b rest')
  then show ?thesis using candidate [OF inv] that by simp
qed

lemma enter_simps [simp]:
  "nxt (enter_candidate k r) b = nxt r b"
  "end_no (blocks (enter_candidate k r) b) =
     (if b = nxt r (p_blk r) then p_count r + k else end_no (blocks r b))"
  "slot_at (enter_candidate k r) b i = slot_at r b i"
  "nblocks (enter_candidate k r) = nblocks r"
  "p_blk (enter_candidate k r) = nxt r (p_blk r)" "p_off (enter_candidate k r) = 0"
  "p_count (enter_candidate k r) = p_count r" "p_cached_pop (enter_candidate k r) = p_cached_pop r"
  "push_pub (enter_candidate k r) = push_pub r" "pop_pub (enter_candidate k r) = pop_pub r"
  "c_blk (enter_candidate k r) = c_blk r" "c_count (enter_candidate k r) = c_count r"
  "c_off (enter_candidate k r) = c_off r" "c_cached_push (enter_candidate k r) = c_cached_push r"
  "c_lent (enter_candidate k r) = c_lent r" "c_at_catch (enter_candidate k r) = c_at_catch r"
  by (simp_all add: enter_candidate_def Let_def)

lemma link_simps [simp]:
  "p_blk (link_block k r) = nblocks r" "p_off (link_block k r) = 0"
  "nblocks (link_block k r) = Suc (nblocks r)"
  "p_count (link_block k r) = p_count r" "p_cached_pop (link_block k r) = p_cached_pop r"
  "push_pub (link_block k r) = push_pub r" "pop_pub (link_block k r) = pop_pub r"
  "c_blk (link_block k r) = c_blk r" "c_count (link_block k r) = c_count r"
  "c_off (link_block k r) = c_off r" "c_cached_push (link_block k r) = c_cached_push r"
  "c_lent (link_block k r) = c_lent r" "c_at_catch (link_block k r) = c_at_catch r"
  by (simp_all add: link_block_def Let_def)

lemma link_nxt:
  assumes "p_blk r \<noteq> nblocks r"
  shows "nxt (link_block k r) = (nxt r)(nblocks r := nxt r (p_blk r), p_blk r := nblocks r)"
  using assms by (auto simp: link_block_def make_block_def Let_def)

lemma link_heap:
  assumes "p_blk r \<noteq> nblocks r"
  shows "end_no (blocks (link_block k r) b) =
      (if b = nblocks r then p_count r + k else end_no (blocks r b))"
    and "slot_at (link_block k r) b i = (if b = nblocks r then None else slot_at r b i)"
  using assms by (simp_all add: link_block_def make_block_def Let_def)

lemma set_slot_simps [simp]:
  "nxt (set_slot b i v r) b' = nxt r b'"
  "end_no (blocks (set_slot b i v r) b') = end_no (blocks r b')"
  "slot_at (set_slot b i v r) b' i' = (if b' = b \<and> i' = i then v else slot_at r b' i')"
  "nblocks (set_slot b i v r) = nblocks r"
  "p_blk (set_slot b i v r) = p_blk r" "p_off (set_slot b i v r) = p_off r"
  "p_count (set_slot b i v r) = p_count r" "p_cached_pop (set_slot b i v r) = p_cached_pop r"
  "push_pub (set_slot b i v r) = push_pub r" "pop_pub (set_slot b i v r) = pop_pub r"
  "c_blk (set_slot b i v r) = c_blk r" "c_count (set_slot b i v r) = c_count r"
  "c_off (set_slot b i v r) = c_off r" "c_cached_push (set_slot b i v r) = c_cached_push r"
  "c_lent (set_slot b i v r) = c_lent r" "c_at_catch (set_slot b i v r) = c_at_catch r"
  by (simp_all add: set_slot_def)

lemma ring_inv_enter:
  assumes inv: "ring_inv k r path rest base hist" and "p_off r = k" and "drained r"
  shows "\<exists>rest'. ring_inv k (enter_candidate k r) (path @ [nxt r (p_blk r)]) rest' base hist"
proof -
  let ?c = "nxt r (p_blk r)"
  obtain rest' where rest: "rest = ?c # rest'" using drained_rest [OF inv \<open>drained r\<close>] .
  have full: "p_count r = base + length path * k" using inv \<open>p_off r = k\<close> by (simp add: ring_inv_defs)
  have fresh: "?c \<notin> set path" "?c \<notin> set rest'" using inv rest by (auto simp: ring_inv_defs)
  have other: "path ! j \<noteq> ?c" if "j < length path" for j using fresh that by (metis nth_mem)
  have "ring_shape k (enter_candidate k r) (path @ [?c]) rest' base"
    using inv rest fresh other full
    by (auto simp: ring_inv_def ring_shape_def nth_append less_Suc_eq)
  moreover have "ring_counts k (enter_candidate k r) (length (path @ [?c])) base"
    using inv full by (auto simp: ring_inv_def ring_counts_def)
  moreover have "ring_slots k (enter_candidate k r) (path @ [?c]) rest' base hist"
    using inv rest full by (auto simp: ring_inv_defs nth_append less_Suc_eq)
  ultimately show ?thesis
    using inv by (auto simp: ring_inv_def)
qed

lemma ring_inv_link:
  assumes inv: "ring_inv k r path rest base hist" and "p_off r = k"
  shows "ring_inv k (link_block k r) (path @ [nblocks r]) rest base hist"
proof -
  let ?n = "nblocks r"
  have full: "p_count r = base + length path * k" using inv \<open>p_off r = k\<close> by (simp add: ring_inv_defs)
  have all: "set (path @ rest) = {..<?n}" using inv by (simp add: ring_inv_defs)
  then have fresh: "?n \<notin> set path" "?n \<notin> set rest" by auto
  have "p_blk r \<in> set path" using inv last_in_set [of path] by (auto simp: ring_inv_def ring_shape_def)
  then have p: "p_blk r \<noteq> ?n" using fresh by auto
  have other: "path ! j \<noteq> ?n" if "j < length path" for j using fresh that by (metis nth_mem)
  have "linked (nxt (link_block k r)) (path @ ?n # rest) (hd path)"
    using inv fresh linked_insert [of "nxt r" path rest "hd path" ?n]
    unfolding link_nxt [OF p] by (auto simp: ring_inv_def ring_shape_def)
  then have "ring_shape k (link_block k r) (path @ [?n]) rest base"
    using inv fresh other full all
    by (auto simp: ring_inv_def ring_shape_def link_heap(1) [OF p] nth_append less_Suc_eq)
  moreover have "ring_counts k (link_block k r) (length (path @ [?n])) base"
    using inv full by (auto simp: ring_inv_def ring_counts_def)
  moreover have "ring_slots k (link_block k r) (path @ [?n]) rest base hist"
    using inv full fresh other
    by (auto simp: ring_inv_defs link_heap(2) [OF p] nth_append less_Suc_eq)
  ultimately show ?thesis
    using inv by (auto simp: ring_inv_def)
qed

text \<open>Where an element of the path lives: the blocks of the path do not overlap.\<close>

lemma path_pos:
  assumes "distinct path" "j < length path" "j' < length path" "i < k" "i' < k"
  shows "path ! j = path ! j' \<and> i = i' \<longleftrightarrow> (base::nat) + j * k + i = base + j' * k + i'"
proof -
  have "base + j * k + i = base + j' * k + i' \<longleftrightarrow> j = j' \<and> i = i'"
    using block_pos_eq [OF assms(4,5), of j j'] by simp
  then show ?thesis using assms(1-3) by (auto simp: nth_eq_iff_index_eq)
qed

lemma ring_inv_fill:
  assumes inv: "ring_inv k r path rest base hist" and "p_off r < k"
  shows "ring_inv k (fill_slot v r) path rest base (hist @ [v])"
    and "slot_at r (p_blk r) (p_off r) = None"
proof -
  have path: "path \<noteq> []" "distinct path" "last path = p_blk r" "set path \<inter> set rest = {}"
    using inv by (auto simp: ring_inv_def ring_shape_def)
  define l where "l = length path - 1"
  have l: "l < length path" "path ! l = p_blk r" "length path = Suc l"
    using path by (auto simp: l_def last_conv_nth)
  have p: "p_count r = base + l * k + p_off r"
    using inv l(3) by (auto simp: ring_inv_def ring_counts_def)
  have len: "length hist = p_count r" using inv by (simp add: ring_inv_def)
  have c: "c_count r \<le> p_count r" using inv by (auto simp: ring_inv_def ring_counts_def)
  show raw: "slot_at r (p_blk r) (p_off r) = None"
    using inv l p c \<open>p_off r < k\<close> by (auto simp: ring_inv_def ring_slots_def live_def)
  have p_blk: "p_blk r \<in> set path" using l nth_mem by metis
  have "ring_slots k (fill_slot v r) path rest base (hist @ [v])"
    unfolding ring_slots_def
  proof (intro conjI allI ballI impI)
    fix j i assume j: "j < length path" and i: "i < k"
    have "path ! j = p_blk r \<and> i = p_off r \<longleftrightarrow> base + j * k + i = p_count r"
      using path_pos [OF path(2) j l(1) i \<open>p_off r < k\<close>] l(2) p by simp
    then show "slot_at (fill_slot v r) (path ! j) i =
        (if live (fill_slot v r) (base + j * k + i) then Some ((hist @ [v]) ! (base + j * k + i)) else None)"
      using inv j i len c by (auto simp: ring_inv_def ring_slots_def live_def fill_slot_def nth_append less_Suc_eq)
  next
    fix b i assume "b \<in> set rest" "i < k"
    then show "slot_at (fill_slot v r) b i = None"
      using inv path(4) p_blk by (auto simp: ring_inv_def ring_slots_def fill_slot_def)
  qed
  moreover have "ring_shape k (fill_slot v r) path rest base"
    using inv by (auto simp: ring_inv_def ring_shape_def fill_slot_def)
  moreover have "ring_counts k (fill_slot v r) (length path) base"
    using inv \<open>p_off r < k\<close> by (auto simp: ring_inv_def ring_counts_def fill_slot_def)
  ultimately show "ring_inv k (fill_slot v r) path rest base (hist @ [v])"
    using inv by (auto simp: ring_inv_def fill_slot_def)
qed

subsection \<open>The consumer keeps it\<close>

text \<open>The slip touches nothing but the consumer's own bookkeeping and its copy of the count.\<close>

lemma slip_enter_frame:
  assumes "slip_enter smax tpm now r = (loops, r')"
  obtains b g n where
    "r' = r\<lparr>c_at_catch := c_cached_push r, c_gate := g, c_batch := b, c_slips := n\<rparr>"
proof -
  have "r' = r\<lparr>c_at_catch := c_cached_push r, c_gate := c_gate r', c_batch := c_batch r',
      c_slips := c_slips r'\<rparr>"
    using assms by (auto simp: slip_enter_def Let_def split: prod.splits if_splits)
  then show ?thesis using that by blast
qed

lemma slip_poll_frame:
  assumes "slip_poll wtd delta r = (filled, wtd', delta', r')"
  obtains rate g where "r' = r\<lparr>c_cached_push := push_pub r, c_rate := rate, c_gate := g\<rparr>"
proof -
  have "r' = r\<lparr>c_cached_push := push_pub r, c_rate := c_rate r', c_gate := c_gate r'\<rparr>"
    using assms by (auto simp: slip_poll_def load_push_pub_def Let_def split: if_splits)
  then show ?thesis using that by blast
qed

lemma ring_inv_load_push:
  "ring_inv k r path rest base hist \<Longrightarrow> ring_inv k (load_push_pub r) path rest base hist"
  by (auto simp: ring_inv_defs load_push_pub_def)

lemma ring_inv_slip_enter:
  assumes "ring_inv k r path rest base hist" "slip_enter smax tpm now r = (loops, r')"
  shows "ring_inv k r' path rest base hist"
  by (rule slip_enter_frame [OF assms(2)]) (use assms(1) in \<open>auto simp: ring_inv_defs\<close>)

lemma ring_inv_slip_poll:
  assumes "ring_inv k r path rest base hist" "slip_poll wtd delta r = (filled, wtd', delta', r')"
  shows "ring_inv k r' path rest base hist"
  by (rule slip_poll_frame [OF assms(2)]) (use assms(1) in \<open>auto simp: ring_inv_defs\<close>)

lemma ring_inv_give_up:
  "ring_inv k r path rest base hist \<Longrightarrow> ring_inv k (slip_give_up r) path rest base hist"
  by (auto simp: ring_inv_defs slip_give_up_def)

lemma ring_inv_announce:
  "ring_inv k r path rest base hist \<Longrightarrow> c_off r = 0 \<Longrightarrow> ring_inv k (announce r) path rest base hist"
  by (auto simp: ring_inv_defs announce_def)

lemma path_head:
  assumes "ring_inv k r path rest base hist"
  shows "0 < length path" "path ! 0 = c_blk r" "distinct path" "set path \<inter> set rest = {}"
  using assms by (auto simp: ring_inv_def ring_shape_def hd_conv_nth)

lemma ring_slots_head:
  assumes inv: "ring_inv k r path rest base hist" and "i < k"
    and r': "\<And>b j. slot_at r' b j = (if b = c_blk r \<and> j = i then v else slot_at r b j)"
    and live: "\<And>n. base \<le> n \<Longrightarrow> n \<noteq> base + i \<Longrightarrow> live r' n = live r n"
    and v: "v = (if live r' (base + i) then Some (hist ! (base + i)) else None)"
  shows "ring_slots k r' path rest base hist"
  unfolding ring_slots_def
proof (intro conjI allI ballI impI)
  note p = path_head [OF inv]
  fix j i' assume j: "j < length path" and i': "i' < k"
  have "path ! j = c_blk r \<and> i' = i \<longleftrightarrow> base + j * k + i' = base + i"
    using path_pos [OF p(3) j p(1) i' \<open>i < k\<close>, of base] p(2) by simp
  then show "slot_at r' (path ! j) i' =
      (if live r' (base + j * k + i') then Some (hist ! (base + j * k + i')) else None)"
    using inv j i' live [of "base + j * k + i'"] v by (auto simp: ring_inv_def ring_slots_def r')
next
  note p = path_head [OF inv]
  fix b i' assume "b \<in> set rest" "i' < k"
  moreover have "c_blk r \<in> set path" using p(1,2) nth_mem by metis
  ultimately show "slot_at r' b i' = None"
    using inv p(4) by (auto simp: ring_inv_def ring_slots_def r')
qed

lemma ring_inv_release:
  assumes inv: "ring_inv k r path rest base hist"
  shows "ring_inv k (release_lent r) path rest base hist"
proof (cases "c_lent r")
  case None
  then show ?thesis using inv by (simp add: release_lent_def)
next
  case (Some bi)
  then have lent: "c_lent r = Some (c_blk r, c_off r - 1)" and off: "0 < c_off r" "c_off r \<le> k"
    and c: "c_count r = base + c_off r"
    using inv by (auto simp: ring_inv_def ring_counts_def)
  have rel: "release_lent r = (set_slot (c_blk r) (c_off r - 1) None r)\<lparr>c_lent := None\<rparr>"
    using lent by (simp add: release_lent_def)
  have "ring_slots k (release_lent r) path rest base hist"
    by (rule ring_slots_head [OF inv, of "c_off r - 1" _ None])
      (use off c in \<open>auto simp: rel live_def\<close>)
  then show ?thesis
    using inv by (auto simp: ring_inv_def ring_shape_def ring_counts_def rel)
qed

lemma ring_inv_take:
  assumes inv: "ring_inv k r path rest base hist"
    and off: "c_off r < k" and some: "c_count r < c_cached_push r" and lent: "c_lent r = None"
  shows "ring_inv k (take_slot borrow r) path rest base hist"
    and "slot_at r (c_blk r) (c_off r) = Some (hist ! c_count r)"
proof -
  have c: "c_count r = base + c_off r" "c_count r < p_count r"
    using inv some by (auto simp: ring_inv_def ring_counts_def)
  note p = path_head [OF inv]
  have "slot_at r (path ! 0) (c_off r) =
      (if live r (base + 0 * k + c_off r) then Some (hist ! (base + 0 * k + c_off r)) else None)"
    using inv p(1) off unfolding ring_inv_def ring_slots_def by blast
  then show full: "slot_at r (c_blk r) (c_off r) = Some (hist ! c_count r)"
    using p(2) c by (simp add: live_def)
  have "ring_slots k (take_slot borrow r) path rest base hist"
    by (rule ring_slots_head [OF inv off, of _ "if borrow then Some (hist ! c_count r) else None"])
      (use full c lent in \<open>auto simp: take_slot_def step_past_def live_def\<close>)
  then show "ring_inv k (take_slot borrow r) path rest base hist"
    using inv off some lent
    by (auto simp: ring_inv_def ring_shape_def ring_counts_def take_slot_def step_past_def)
qed

text \<open>
  Leaving a block: the path loses its first block to the end of the rest. There is a block to
  go to, because an element beyond this one is published; and the block left behind is raw.
\<close>

lemma ring_inv_follow:
  assumes inv: "ring_inv k r path rest base hist"
    and off: "c_off r = k" and some: "c_count r < c_cached_push r" and lent: "c_lent r = None"
  shows "ring_inv k (follow_next r) (tl path) (rest @ [c_blk r]) (base + k) hist"
proof -
  have c: "c_count r = base + k" "c_count r < p_count r"
      "p_count r + k = base + length path * k + p_off r" "p_off r \<le> k"
    using inv some off by (auto simp: ring_inv_def ring_counts_def)
  obtain xs where path: "path = c_blk r # xs"
    using inv by (cases path) (auto simp: ring_inv_def ring_shape_def)
  have xs: "xs \<noteq> []" using c path by auto
  have lk: "linked (nxt r) (c_blk r # xs @ rest) (c_blk r)"
    using inv path by (auto simp: ring_inv_def ring_shape_def)
  then have next_hd: "nxt r (c_blk r) = hd xs" using xs by simp
  have shape: "ring_shape k (follow_next r) xs (rest @ [c_blk r]) (base + k)"
  proof -
    have "linked (nxt r) (xs @ rest @ [c_blk r]) (hd xs)"
      using linked_rotate [OF lk] xs by simp
    moreover have "end_no (blocks r (xs ! j)) = base + k + Suc j * k" if "j < length xs" for j
      using inv that path by (auto simp: ring_inv_def ring_shape_def dest: spec [of _ "Suc j"])
    moreover have "end_no (blocks r b) \<le> base + k" if "b \<in> set (rest @ [c_blk r])" for b
      using inv that path by (auto simp: ring_inv_def ring_shape_def dest: spec [of _ 0])
    ultimately show ?thesis
      using inv path xs next_hd
      by (auto simp: ring_inv_def ring_shape_def follow_next_def)
  qed
  have "ring_slots k (follow_next r) xs (rest @ [c_blk r]) (base + k) hist"
    unfolding ring_slots_def
  proof (intro conjI allI ballI impI)
    fix j i assume j: "j < length xs" and i: "i < k"
    have "slot_at r (path ! Suc j) i =
        (if live r (base + Suc j * k + i) then Some (hist ! (base + Suc j * k + i)) else None)"
      using inv path i j unfolding ring_inv_def ring_slots_def by (metis Suc_less_eq length_Cons)
    then show "slot_at (follow_next r) (xs ! j) i =
        (if live (follow_next r) (base + k + j * k + i)
         then Some (hist ! (base + k + j * k + i)) else None)"
      using path by (simp add: follow_next_def live_def add.assoc)
  next
    fix b i assume "b \<in> set (rest @ [c_blk r])" "i < k"
    then show "slot_at (follow_next r) b i = None"
      using inv path c lent by (auto simp: ring_inv_def ring_slots_def follow_next_def live_def
          dest: spec [of _ 0])
  qed
  then show ?thesis
    using inv shape c path lent by (auto simp: ring_inv_def ring_counts_def follow_next_def)
qed

subsection \<open>Every step keeps it\<close>

named_theorems ring_ok_intros \<open>what each access keeps of the ring\<close>

lemma ring_okD:
  assumes "ring_ok k r hist"
  shows "0 < k" "p_off r \<le> k" "c_off r \<le> k" "length hist = p_count r"
    "c_count r \<le> c_cached_push r" "c_cached_push r \<le> push_pub r" "push_pub r \<le> p_count r"
    "c_at_catch r \<le> c_cached_push r" "p_cached_pop r \<le> pop_pub r" "pop_pub r \<le> c_count r"
  using assms by (auto simp: ring_ok_def ring_inv_def ring_counts_def)

lemma ring_ok_start: "0 < k \<Longrightarrow> ring_ok k (new_ring k) []"
  unfolding ring_ok_def using ring_inv_start by blast

lemma ring_ok_producer [ring_ok_intros]:
  "ring_ok k r hist \<Longrightarrow> ring_ok k (load_pop_pub r) hist"
  "ring_ok k r hist \<Longrightarrow> p_off r = k \<Longrightarrow> drained r \<Longrightarrow> ring_ok k (enter_candidate k r) hist"
  "ring_ok k r hist \<Longrightarrow> p_off r = k \<Longrightarrow> ring_ok k (link_block k r) hist"
  "ring_ok k r hist \<Longrightarrow> p_off r < k \<Longrightarrow> ring_ok k (fill_slot v r) (hist @ [v])"
  "ring_ok k r hist \<Longrightarrow> ring_ok k (spsc_publish r) hist"
  unfolding ring_ok_def
  by (blast intro: ring_inv_load_pop ring_inv_link ring_inv_fill ring_inv_publish
      dest: ring_inv_enter)+

lemma ring_ok_consumer [ring_ok_intros]:
  "ring_ok k r hist \<Longrightarrow> ring_ok k (release_lent r) hist"
  "ring_ok k r hist \<Longrightarrow> ring_ok k (load_push_pub r) hist"
  "ring_ok k r hist \<Longrightarrow> ring_ok k (slip_give_up r) hist"
  "ring_ok k r hist \<Longrightarrow> c_off r = k \<Longrightarrow> c_count r < c_cached_push r \<Longrightarrow> c_lent r = None \<Longrightarrow>
     ring_ok k (follow_next r) hist"
  "ring_ok k r hist \<Longrightarrow> c_off r = 0 \<Longrightarrow> ring_ok k (announce r) hist"
  "ring_ok k r hist \<Longrightarrow> c_off r < k \<Longrightarrow> c_count r < c_cached_push r \<Longrightarrow> c_lent r = None \<Longrightarrow>
     ring_ok k (take_slot borrow r) hist"
  unfolding ring_ok_def
  by (blast intro: ring_inv_release ring_inv_load_push ring_inv_give_up ring_inv_follow
      ring_inv_announce ring_inv_take)+

lemma ring_ok_slip:
  "ring_ok k r hist \<Longrightarrow> slip_enter smax tpm now r = (loops, r') \<Longrightarrow> ring_ok k r' hist"
  "ring_ok k r hist \<Longrightarrow> slip_poll wtd delta r = (filled, wtd', delta', r') \<Longrightarrow> ring_ok k r' hist"
  unfolding ring_ok_def by (blast intro: ring_inv_slip_enter ring_inv_slip_poll)+

text \<open>The slot the next pop takes holds the next element; the slot the next push fills is raw.\<close>

lemma ring_ok_take_slot:
  "ring_ok k r hist \<Longrightarrow> c_off r < k \<Longrightarrow> c_count r < c_cached_push r \<Longrightarrow> c_lent r = None \<Longrightarrow>
   slot_at r (c_blk r) (c_off r) = Some (hist ! c_count r)"
  unfolding ring_ok_def by (blast dest: ring_inv_take(2))

lemma ring_ok_fill_slot:
  "ring_ok k r hist \<Longrightarrow> p_off r < k \<Longrightarrow> slot_at r (p_blk r) (p_off r) = None"
  unfolding ring_ok_def by (blast dest: ring_inv_fill(2))

text \<open>What each side's steps leave of the fields the other side's program counter speaks of.\<close>

lemma producer_frames [simp]:
  "p_off (load_pop_pub r) = p_off r" "p_off (fill_slot v r) = Suc (p_off r)"
  "p_off (spsc_publish r) = p_off r"
  "c_lent (load_pop_pub r) = c_lent r" "c_lent (fill_slot v r) = c_lent r" "c_lent (spsc_publish r) = c_lent r"
  "c_count (load_pop_pub r) = c_count r" "c_count (fill_slot v r) = c_count r"
  "c_count (spsc_publish r) = c_count r"
  "c_cached_push (load_pop_pub r) = c_cached_push r" "c_cached_push (fill_slot v r) = c_cached_push r"
  "c_cached_push (spsc_publish r) = c_cached_push r"
  "c_off (load_pop_pub r) = c_off r" "c_off (fill_slot v r) = c_off r" "c_off (spsc_publish r) = c_off r"
  "push_pub (load_pop_pub r) = push_pub r" "push_pub (fill_slot v r) = push_pub r"
  "push_pub (spsc_publish r) = p_count r"
  by (simp_all add: load_pop_pub_def fill_slot_def spsc_publish_def)

lemma release_simps [simp]:
  "c_lent (release_lent r) = None" "p_off (release_lent r) = p_off r"
  "c_count (release_lent r) = c_count r" "c_cached_push (release_lent r) = c_cached_push r"
  "c_off (release_lent r) = c_off r" "push_pub (release_lent r) = push_pub r"
  by (simp_all add: release_lent_def split: option.splits)

lemma consumer_frames [simp]:
  "p_off (load_push_pub r) = p_off r" "p_off (slip_give_up r) = p_off r" "p_off (follow_next r) = p_off r"
  "p_off (announce r) = p_off r" "p_off (take_slot borrow r) = p_off r"
  "push_pub (load_push_pub r) = push_pub r" "push_pub (slip_give_up r) = push_pub r"
  "push_pub (follow_next r) = push_pub r" "push_pub (announce r) = push_pub r"
  "push_pub (take_slot borrow r) = push_pub r"
  "c_count (load_push_pub r) = c_count r" "c_count (slip_give_up r) = c_count r"
  "c_count (follow_next r) = c_count r" "c_count (announce r) = c_count r"
  "c_count (take_slot borrow r) = Suc (c_count r)"
  "c_cached_push (load_push_pub r) = push_pub r" "c_cached_push (slip_give_up r) = c_cached_push r"
  "c_cached_push (follow_next r) = c_cached_push r" "c_cached_push (announce r) = c_cached_push r"
  "c_lent (load_push_pub r) = c_lent r" "c_lent (slip_give_up r) = c_lent r"
  "c_lent (follow_next r) = c_lent r" "c_lent (announce r) = c_lent r"
  "c_off (load_push_pub r) = c_off r" "c_off (slip_give_up r) = c_off r"
  "c_off (follow_next r) = 0" "c_off (announce r) = c_off r"
  by (simp_all add: load_push_pub_def slip_give_up_def follow_next_def announce_def take_slot_def
      step_past_def)

lemma slip_frames:
  assumes "slip_enter smax tpm now r = (loops, r')"
  shows "p_off r' = p_off r" "push_pub r' = push_pub r" "c_count r' = c_count r"
    "c_cached_push r' = c_cached_push r" "c_lent r' = c_lent r"
  by (rule slip_enter_frame [OF assms], simp)+

lemma poll_frames:
  assumes "slip_poll wtd delta r = (filled, wtd', delta', r')"
  shows "p_off r' = p_off r" "push_pub r' = push_pub r" "c_count r' = c_count r"
    "c_cached_push r' = push_pub r" "c_lent r' = c_lent r"
  by (rule slip_poll_frame [OF assms], simp)+

lemma cpc_ok_cong:
  "c_lent r' = c_lent r \<Longrightarrow> c_count r' = c_count r \<Longrightarrow> c_cached_push r' = c_cached_push r \<Longrightarrow>
   c_off r' = c_off r \<Longrightarrow> cpc_ok k r pc \<Longrightarrow> cpc_ok k r' pc"
  by (cases pc) (auto simp: cpc_ok_def)

lemma ppc_ok_cong: "p_off r' = p_off r \<Longrightarrow> ppc_ok k r pc \<Longrightarrow> ppc_ok k r' pc"
  by (cases pc) (auto simp: ppc_ok_def)

lemma producer_step_inv:
  assumes "ring_ok k r hist" "ppc_ok k r pc"
  shows "push_begin k v pub r = (pc', r') \<Longrightarrow> ring_ok k r' hist \<and> ppc_ok k r' pc'"
    and "pc = PLoadPop v pub \<Longrightarrow> push_loaded k v pub r = (pc', r') \<Longrightarrow> ring_ok k r' hist \<and> ppc_ok k r' pc'"
  using assms ring_okD [OF assms(1)]
  by (auto simp: push_begin_def push_loaded_def ppc_ok_def Let_def split: if_splits intro!: ring_ok_intros)

lemma producer_step_frame:
  "push_begin k v pub r = (pc', r') \<Longrightarrow> c_lent r' = c_lent r \<and> c_count r' = c_count r \<and>
     c_cached_push r' = c_cached_push r \<and> c_off r' = c_off r \<and> push_pub r' = push_pub r"
  "push_loaded k v pub r = (pc', r') \<Longrightarrow> c_lent r' = c_lent r \<and> c_count r' = c_count r \<and>
     c_cached_push r' = c_cached_push r \<and> c_off r' = c_off r \<and> push_pub r' = push_pub r"
  by (auto simp: push_begin_def push_loaded_def Let_def split: if_splits)

lemma consumer_step_inv:
  assumes "ring_ok k r hist" "cpc_ok k r pc"
  shows "pop_begin borrow r = (pc', r') \<Longrightarrow> ring_ok k r' hist \<and> cpc_ok k r' pc'"
    and "pc = CLoad borrow \<Longrightarrow> pop_loaded smax tpm now borrow r = (pc', r') \<Longrightarrow>
      ring_ok k r' hist \<and> cpc_ok k r' pc'"
    and "pc = CSlip borrow wtd delta \<Longrightarrow> pop_slip borrow wtd delta r = (pc', r') \<Longrightarrow>
      ring_ok k r' hist \<and> cpc_ok k r' pc'"
    and "pc = CNext borrow \<Longrightarrow> pop_next k borrow r = (pc', r') \<Longrightarrow> ring_ok k r' hist \<and> cpc_ok k r' pc'"
proof -
  note ok = assms(1) and D = ring_okD [OF assms(1)]
  show "ring_ok k r' hist \<and> cpc_ok k r' pc'" if "pop_begin borrow r = (pc', r')"
    using that D by (auto simp: pop_begin_def cpc_ok_def Let_def intro!: ring_ok_intros ok)
  show "ring_ok k r' hist \<and> cpc_ok k r' pc'"
    if "pc = CLoad borrow" "pop_loaded smax tpm now borrow r = (pc', r')"
  proof -
    have l: "ring_ok k (load_push_pub r) hist" by (rule ring_ok_consumer(2) [OF ok])
    show ?thesis
    proof (cases "slip_enter smax tpm now (load_push_pub r)")
      case (Pair loops r1)
      then show ?thesis
        using that assms(2) D l ring_ok_slip(1) [OF l Pair] slip_frames [OF Pair]
        by (auto simp: pop_loaded_def cpc_ok_def Let_def split: if_splits)
    qed
  qed
  show "ring_ok k r' hist \<and> cpc_ok k r' pc'"
    if "pc = CSlip borrow wtd delta" "pop_slip borrow wtd delta r = (pc', r')"
  proof (cases "slip_poll wtd delta r")
    case (fields filled wtd' delta' r1)
    then show ?thesis
      using that assms D ring_ok_slip(2) [OF ok fields] ring_ok_consumer(3) [OF ok] poll_frames [OF fields]
      by (auto simp: pop_slip_def cpc_ok_def split: if_splits)
  qed
  show "ring_ok k r' hist \<and> cpc_ok k r' pc'"
    if "pc = CNext borrow" "pop_next k borrow r = (pc', r')"
    using that assms D by (auto simp: pop_next_def cpc_ok_def intro: ring_ok_intros split: if_splits)
qed

lemma consumer_step_frame:
  "pop_begin borrow r = (pc', r') \<Longrightarrow> p_off r' = p_off r \<and> push_pub r' = push_pub r \<and> c_count r' = c_count r"
  "pop_loaded smax tpm now borrow r = (pc', r') \<Longrightarrow>
     p_off r' = p_off r \<and> push_pub r' = push_pub r \<and> c_count r' = c_count r"
  "pop_slip borrow wtd delta r = (pc', r') \<Longrightarrow>
     p_off r' = p_off r \<and> push_pub r' = push_pub r \<and> c_count r' = c_count r"
  "pop_next k borrow r = (pc', r') \<Longrightarrow>
     p_off r' = p_off r \<and> push_pub r' = push_pub r \<and> c_count r' = c_count r"
  by (auto simp: pop_begin_def pop_loaded_def pop_slip_def pop_next_def Let_def slip_frames poll_frames
      split: if_splits prod.splits)

lemma spsc_step_inv:
  assumes inv: "spsc_inv k s" and step: "spsc_step k smax tpm s es t"
  shows "spsc_inv k t"
proof -
  have ok: "ring_ok k (ring s) (pushed s)" and p: "ppc_ok k (ring s) (ppc s)"
    and c: "cpc_ok k (ring s) (cpc s)"
    using inv by (auto simp: spsc_inv_def)
  note D = ring_okD [OF ok]
  from step show ?thesis
  proof (cases rule: spsc_step.cases)
    case (push_call v pub pc r)
    then show ?thesis
      using producer_step_inv(1) [OF ok p] producer_step_frame(1) [OF push_call(4)] cpc_ok_cong [OF _ _ _ _ c, of r]
      by (simp add: spsc_inv_def)
  next
    case (push_load v pub pc r)
    then show ?thesis
      using producer_step_inv(2) [OF ok p] producer_step_frame(2) [OF push_load(4)] cpc_ok_cong [OF _ _ _ _ c, of r]
      by (simp add: spsc_inv_def)
  next
    case (push_link v pub)
    then show ?thesis
      using ring_ok_producer(3) [OF ok] p D cpc_ok_cong [OF _ _ _ _ c, of "link_block k (ring s)"]
      by (simp add: spsc_inv_def ppc_ok_def)
  next
    case (push_fill v pub)
    then show ?thesis
      using ring_ok_producer(4) [OF ok] p cpc_ok_cong [OF _ _ _ _ c, of "fill_slot v (ring s)"]
      by (simp add: spsc_inv_def ppc_ok_def)
  next
    case push_publish
    then show ?thesis
      using ring_ok_producer(5) [OF ok] cpc_ok_cong [OF _ _ _ _ c, of "spsc_publish (ring s)"]
      by (simp add: spsc_inv_def ppc_ok_def)
  next
    case (pop_call borrow pc r)
    then show ?thesis
      using consumer_step_inv(1) [OF ok c] consumer_step_frame(1) [OF pop_call(4)] ppc_ok_cong [OF _ p, of r]
      by (simp add: spsc_inv_def)
  next
    case (pop_load borrow now pc r)
    then show ?thesis
      using consumer_step_inv(2) [OF ok c] consumer_step_frame(2) [OF pop_load(4)] ppc_ok_cong [OF _ p, of r]
      by (simp add: spsc_inv_def)
  next
    case (pop_poll borrow wtd delta pc r)
    then show ?thesis
      using consumer_step_inv(3) [OF ok c] consumer_step_frame(3) [OF pop_poll(4)] ppc_ok_cong [OF _ p, of r]
      by (simp add: spsc_inv_def)
  next
    case (pop_turn borrow pc r)
    then show ?thesis
      using consumer_step_inv(4) [OF ok c] consumer_step_frame(4) [OF pop_turn(4)] ppc_ok_cong [OF _ p, of r]
      by (simp add: spsc_inv_def)
  next
    case (pop_announce borrow)
    then show ?thesis
      using ring_ok_consumer(5) [OF ok] c D ppc_ok_cong [OF _ p, of "announce (ring s)"]
      by (simp add: spsc_inv_def cpc_ok_def)
  next
    case (pop_take borrow)
    then show ?thesis
      using ring_ok_consumer(6) [OF ok] c ppc_ok_cong [OF _ p, of "take_slot borrow (ring s)"]
      by (simp add: spsc_inv_def cpc_ok_def)
  qed
qed

section \<open>The ring is the sequential queue\<close>

lemma spsc_step_fifo:
  assumes inv: "spsc_inv k s" and step: "spsc_step k smax tpm s es t"
  shows "fifo_run (spsc_content s) es = Some (spsc_content t)"
proof -
  have ok: "ring_ok k (ring s) (pushed s)" and p: "ppc_ok k (ring s) (ppc s)"
    and c: "cpc_ok k (ring s) (cpc s)"
    using inv by (auto simp: spsc_inv_def)
  note D = ring_okD [OF ok]
  from step show ?thesis
  proof (cases rule: spsc_step.cases)
    case (push_call v pub pc r)
    then show ?thesis using producer_step_frame(1) [OF push_call(4)] by (simp add: spsc_content_def)
  next
    case (push_load v pub pc r)
    then show ?thesis using producer_step_frame(2) [OF push_load(4)] by (simp add: spsc_content_def)
  next
    case (push_link v pub)
    then show ?thesis by (simp add: spsc_content_def)
  next
    case (push_fill v pub)
    then show ?thesis using D by (simp add: spsc_content_def)
  next
    case push_publish
    have "take (push_pub (ring s)) (pushed s) @ drop (push_pub (ring s)) (pushed s) = pushed s"
      by simp
    then have "drop (c_count (ring s)) (take (push_pub (ring s)) (pushed s)) @
        drop (push_pub (ring s)) (pushed s) = drop (c_count (ring s)) (pushed s)"
      using D drop_append [of "c_count (ring s)" "take (push_pub (ring s)) (pushed s)"
          "drop (push_pub (ring s)) (pushed s)"] by (simp add: min_def)
    then show ?thesis using push_publish D by (simp add: spsc_content_def)
  next
    case (pop_call borrow pc r)
    then show ?thesis using consumer_step_frame(1) [OF pop_call(4)] by (simp add: spsc_content_def)
  next
    case (pop_load borrow now pc r)
    then have frame: "push_pub r = push_pub (ring s)" "c_count r = c_count (ring s)"
      using consumer_step_frame(2) [OF pop_load(4)] by simp_all
    have "push_pub (ring s) = c_count (ring s)" if "pc = CIdle"
      using pop_load(4) that by (auto simp: pop_loaded_def Let_def split: if_splits prod.splits)
    then show ?thesis using pop_load frame by (auto simp: spsc_content_def)
  next
    case (pop_poll borrow wtd delta pc r)
    then show ?thesis using consumer_step_frame(3) [OF pop_poll(4)] by (simp add: spsc_content_def)
  next
    case (pop_turn borrow pc r)
    then show ?thesis using consumer_step_frame(4) [OF pop_turn(4)] by (simp add: spsc_content_def)
  next
    case (pop_announce borrow)
    then show ?thesis by (simp add: spsc_content_def)
  next
    case (pop_take borrow)
    then have "c_off (ring s) < k" "c_count (ring s) < c_cached_push (ring s)" "c_lent (ring s) = None"
      using c by (auto simp: cpc_ok_def)
    note slot = ring_ok_take_slot [OF ok this]
    have lt: "c_count (ring s) < length (take (push_pub (ring s)) (pushed s))"
      and "c_count (ring s) < push_pub (ring s)"
      using D \<open>c_count (ring s) < c_cached_push (ring s)\<close> by simp_all
    then show ?thesis
      using pop_take slot Cons_nth_drop_Suc [OF lt, symmetric] by (simp add: spsc_content_def)
  qed
qed

text \<open>
  The ring implements the queue interface: its laws are the two lemmas above, for every block
  size, batch bound and counter rate.
\<close>

definition spsc_starts :: "nat \<Rightarrow> 'a spsc_sys \<Rightarrow> bool" where
  "spsc_starts k s \<longleftrightarrow> 0 < k \<and> s = spsc_start k"

interpretation spsc: fifo_machine "spsc_starts k" "spsc_step k smax tpm" "spsc_inv k" spsc_content
  for k smax :: nat and tpm :: u64
proof
  show "spsc_inv k s" if "spsc_starts k s" for s :: "'a spsc_sys"
    using that ring_ok_start [of k]
    by (simp add: spsc_starts_def spsc_start_def spsc_inv_def ppc_ok_def cpc_ok_def)
  show "spsc_content s = []" if "spsc_starts k s" for s :: "'a spsc_sys"
    using that by (simp add: spsc_starts_def spsc_start_def spsc_content_def)
qed (rule spsc_step_inv spsc_step_fifo; assumption)+

lemma spsc_reachable:
  "0 < k \<Longrightarrow> run (spsc_step k smax tpm) (spsc_start k) es s \<Longrightarrow> spsc_inv k s"
  using spsc.run_inv [of k "spsc_start k" smax tpm es s] by (simp add: spsc_starts_def)

end
