(* ===== verification/Spsc_Correct.thy ===== *)
theory Spsc_Correct
  imports Spsc_Concurrent
begin

text \<open>
  What the single-producer single-consumer ring promises, in every state the two threads can
  reach: it is a linearisable FIFO queue, the two threads never touch the same slot or the
  same next pointer, a borrowed element stays in place, a pop ends within a bounded number of
  the consumer's own steps, the destructor destroys each remaining element and frees each
  block once, and the operations as the code composes them are runs of the steps.
\<close>

section \<open>Operations run alone\<close>

text \<open>Each operation of the code, run with the other thread at rest, is a run of its steps.\<close>

lemma push_deferred_runs:
  assumes "ppc s = PIdle"
  shows "run (spsc_step k smax tpm) s []
    (s\<lparr>ring := spsc_push_deferred k v (ring s), ppc := if pub then PPublish else PIdle,
       pushed := pushed s @ [v]\<rparr>)"
proof -
  let ?step = "spsc_step k smax tpm"
  let ?full = "\<lambda>r. s\<lparr>ring := r, ppc := PFill v pub\<rparr>"
  have to_fill: "run ?step s [] (?full (if p_off (ring s) = k then turn_over k (ring s) else ring s))"
  proof (cases "p_off (ring s) = k \<and> \<not> drained (ring s)")
    case False
    then have "?step s [] (?full (if p_off (ring s) = k then turn_over k (ring s) else ring s))"
      using spsc_step.push_call [OF assms, of k v pub] by (auto simp: push_begin_def turn_over_def)
    then show ?thesis by (rule run_single)
  next
    case True
    define s1 where "s1 = s\<lparr>ppc := PLoadPop v pub\<rparr>"
    have 1: "?step s [] s1"
      using True spsc_step.push_call [OF assms, of k v pub "PLoadPop v pub" "ring s"]
      by (simp add: push_begin_def s1_def)
    show ?thesis
    proof (cases "drained (load_pop_pub (ring s))")
      case drained: True
      have "?step s1 [] (?full (enter_candidate k (load_pop_pub (ring s))))"
        using drained spsc_step.push_load [of s1 v pub k "PFill v pub"]
        by (simp add: push_loaded_def s1_def Let_def)
      then show ?thesis
        using run_snoc [OF run_single [of ?step, OF 1]] True drained by (fastforce simp: turn_over_def)
    next
      case full: False
      define s2 where "s2 = s\<lparr>ring := load_pop_pub (ring s), ppc := PLink v pub\<rparr>"
      have 2: "?step s1 [] s2"
        using full spsc_step.push_load [of s1 v pub k "PLink v pub"]
        by (simp add: push_loaded_def s1_def s2_def Let_def)
      have "?step s2 [] (?full (link_block k (load_pop_pub (ring s))))"
        using spsc_step.push_link [of s2 v pub k] by (simp add: s2_def)
      then show ?thesis
        using run_snoc [OF run_snoc [OF run_single [of ?step, OF 1] 2]] True full
        by (fastforce simp: turn_over_def)
    qed
  qed
  then show ?thesis
    using run_snoc [OF to_fill spsc_step.push_fill [of _ v pub]] by (simp add: spsc_push_deferred_def)
qed

lemma publish_runs:
  assumes "ppc s = PIdle \<or> ppc s = PPublish"
  shows "run (spsc_step k smax tpm) s (map Enq (drop (push_pub (ring s)) (pushed s)))
    (s\<lparr>ring := spsc_publish (ring s), ppc := PIdle\<rparr>)"
  using assms by (intro run_single spsc_step.push_publish) auto

lemma push_pub_push_deferred [simp]: "push_pub (spsc_push_deferred k v r) = push_pub r"
  by (simp add: spsc_push_deferred_def turn_over_def Let_def)

lemma push_runs:
  assumes "ppc s = PIdle"
  shows "run (spsc_step k smax tpm) s (map Enq (drop (push_pub (ring s)) (pushed s @ [v])))
    (s\<lparr>ring := spsc_push k v (ring s), pushed := pushed s @ [v]\<rparr>)"
  using run_trans [OF publish_runs push_deferred_runs [OF assms, of k smax tpm v True]] assms
  by (cases s) (simp add: spsc_push_def)

text \<open>A slip with the producer at rest.\<close>

lemma slip_loop_runs_from:
  "cpc s = CSlip borrow wtd delta \<Longrightarrow> ring s = r \<Longrightarrow>
   run (spsc_step k smax tpm) s [] (s\<lparr>ring := slip_loop wtd delta r, cpc := CNext borrow\<rparr>)"
proof (induction wtd delta r arbitrary: s rule: slip_loop.induct)
  case (1 wtd delta r)
  obtain filled wtd' delta' r' where poll: "slip_poll wtd delta r = (filled, wtd', delta', r')"
    by (cases "slip_poll wtd delta r") auto
  show ?case
  proof (cases "wtd < kSlipPauses \<and> \<not> filled")
    case True
    then have one: "spsc_step k smax tpm s [] (s\<lparr>ring := r', cpc := CSlip borrow wtd' delta'\<rparr>)"
      using spsc_step.pop_poll [OF "1.prems"(1)] "1.prems"(2) poll by (simp add: pop_slip_def)
    have "run (spsc_step k smax tpm) (s\<lparr>ring := r', cpc := CSlip borrow wtd' delta'\<rparr>) []
        (s\<lparr>ring := slip_loop wtd' delta' r', cpc := CNext borrow\<rparr>)"
      using "1.IH" [OF _ poll [symmetric] refl refl,
          of "s\<lparr>ring := r', cpc := CSlip borrow wtd' delta'\<rparr>"] True by simp
    then show ?thesis
      using run_trans [OF _ run_single [of "spsc_step k smax tpm", OF one]] True poll
      by (fastforce simp: slip_loop.simps [of wtd delta r])
  next
    case False
    then have "spsc_step k smax tpm s [] (s\<lparr>ring := slip_loop wtd delta r, cpc := CNext borrow\<rparr>)"
      using spsc_step.pop_poll [OF "1.prems"(1)] "1.prems"(2) poll
      by (auto simp: pop_slip_def slip_loop.simps [of wtd delta r])
    then show ?thesis by (rule run_single)
  qed
qed

lemmas slip_loop_runs = slip_loop_runs_from [OF _ refl]

lemma take_runs:
  assumes "cpc s = CNext borrow"
  shows "run (spsc_step k smax tpm) s
    [Deq (the (slot_at (turn_page k (ring s)) (c_blk (turn_page k (ring s))) (c_off (turn_page k (ring s)))))]
    (s\<lparr>ring := take_slot borrow (turn_page k (ring s)), cpc := CIdle\<rparr>)"
proof -
  let ?step = "spsc_step k smax tpm" and ?r = "turn_page k (ring s)"
  have "run ?step s [] (s\<lparr>ring := ?r, cpc := CTake borrow\<rparr>)"
  proof (cases "c_off (ring s) = k")
    case False
    then show ?thesis
      using spsc_step.pop_turn [OF assms, of k]
      by (intro run_single) (simp add: pop_next_def turn_page_def)
  next
    case True
    then have "?step s [] (s\<lparr>ring := follow_next (ring s), cpc := CAnnounce borrow\<rparr>)"
      using spsc_step.pop_turn [OF assms, of k] by (simp add: pop_next_def)
    then have "run ?step s [] (s\<lparr>ring := follow_next (ring s), cpc := CAnnounce borrow\<rparr>)"
      by (rule run_single)
    from run_snoc [OF this spsc_step.pop_announce [of _ borrow]] True show ?thesis
      by (simp add: turn_page_def)
  qed
  from run_snoc [OF this spsc_step.pop_take [of _ borrow]] show ?thesis by simp
qed

text \<open>The slot a pop comes to once it knows of an element.\<close>

lemma turn_page_slot:
  assumes "spsc_inv k s" "cpc s = CNext borrow"
  shows "slot_at (turn_page k (ring s)) (c_blk (turn_page k (ring s))) (c_off (turn_page k (ring s))) =
    Some (pushed s ! c_count (ring s))"
proof -
  have ok: "ring_ok k (ring s) (pushed s)" and c: "c_count (ring s) < c_cached_push (ring s)"
    "c_lent (ring s) = None"
    using assms by (auto simp: spsc_inv_def cpc_ok_def)
  note D = ring_okD [OF ok]
  have "ring_ok k (turn_page k (ring s)) (pushed s)"
    using ok c by (auto simp: turn_page_def intro!: ring_ok_intros)
  from ring_ok_take_slot [OF this] show ?thesis
    using c D by (auto simp: turn_page_def split: if_splits)
qed

definition pop_result :: "'a option \<Rightarrow> 'a qevent list" where
  "pop_result x = (case x of None \<Rightarrow> [DeqEmpty] | Some v \<Rightarrow> [Deq v])"

text \<open>\<open>advance\<close> as a run, up to the element taken.\<close>

lemma advance_runs:
  assumes "cpc s = CIdle"
  shows "case advance k smax tpm now (release_lent (ring s)) of
      (None, r') \<Rightarrow> run (spsc_step k smax tpm) s [DeqEmpty] (s\<lparr>ring := r'\<rparr>)
    | (Some (b, i), r') \<Rightarrow> \<exists>r1. r' = step_past (turn_page k r1) \<and> b = c_blk (turn_page k r1) \<and>
        i = c_off (turn_page k r1) \<and> run (spsc_step k smax tpm) s [] (s\<lparr>ring := r1, cpc := CNext borrow\<rparr>)"
proof -
  let ?step = "spsc_step k smax tpm" and ?r = "release_lent (ring s)"
  show ?thesis
  proof (cases "c_count ?r = c_cached_push ?r")
    case False
    then have "?step s [] (s\<lparr>ring := ?r, cpc := CNext borrow\<rparr>)"
      using spsc_step.pop_call [OF assms, of borrow] by (simp add: pop_begin_def Let_def)
    then show ?thesis using False by (auto simp: advance_def Let_def intro: run_single)
  next
    case True
    let ?s1 = "s\<lparr>ring := ?r, cpc := CLoad borrow\<rparr>" and ?l = "load_push_pub ?r"
    have 1: "run ?step s [] ?s1"
      using True spsc_step.pop_call [OF assms, of borrow]
      by (intro run_single) (simp add: pop_begin_def Let_def)
    show ?thesis
    proof (cases "c_count ?l = c_cached_push ?l")
      case empty: True
      have "?step ?s1 [DeqEmpty] (s\<lparr>ring := ?l, cpc := CIdle\<rparr>)"
        using empty spsc_step.pop_load [of ?s1 borrow smax tpm now] by (simp add: pop_loaded_def Let_def)
      from run_snoc [OF 1 this] show ?thesis
        using True empty assms by (cases s) (simp add: advance_def Let_def)
    next
      case some: False
      obtain loops r1 where enter: "slip_enter smax tpm now ?l = (loops, r1)"
        by (cases "slip_enter smax tpm now ?l") auto
      let ?pc = "if loops then CSlip borrow 0 (c_cached_push r1 - c_count r1) else CNext borrow"
      have "?step ?s1 [] (s\<lparr>ring := r1, cpc := ?pc\<rparr>)"
        using some enter spsc_step.pop_load [of ?s1 borrow smax tpm now ?pc r1 k]
        by (simp add: pop_loaded_def Let_def split: if_splits)
      from run_snoc [OF 1 this] have "run ?step s [] (s\<lparr>ring := r1, cpc := ?pc\<rparr>)" by simp
      moreover have "run ?step (s\<lparr>ring := r1, cpc := ?pc\<rparr>) []
          (s\<lparr>ring := slip smax tpm now ?l, cpc := CNext borrow\<rparr>)"
        using slip_loop_runs [of "s\<lparr>ring := r1, cpc := ?pc\<rparr>" borrow 0] enter
        by (auto simp: slip_def run_start)
      ultimately have "run ?step s [] (s\<lparr>ring := slip smax tpm now ?l, cpc := CNext borrow\<rparr>)"
        using run_trans by fastforce
      then show ?thesis using True some by (auto simp: advance_def Let_def)
    qed
  qed
qed

lemma pop_runs:
  assumes idle: "cpc s = CIdle" and inv: "spsc_inv k s"
  shows "case advance k smax tpm now (release_lent (ring s)) of
      (None, r') \<Rightarrow> run (spsc_step k smax tpm) s [DeqEmpty] (s\<lparr>ring := r'\<rparr>)
    | (Some (b, i), r') \<Rightarrow> \<exists>r1 v. r' = step_past r1 \<and> b = c_blk r1 \<and> i = c_off r1 \<and>
        slot_at r1 b i = Some v \<and> run (spsc_step k smax tpm) s [Deq v] (s\<lparr>ring := take_slot borrow r1\<rparr>)"
proof (cases "advance k smax tpm now (release_lent (ring s))")
  case (Pair e r2)
  note adv = advance_runs [OF idle, where k = k and smax = smax and tpm = tpm and now = now and borrow = borrow]
  show ?thesis
  proof (cases e)
    case None
    then show ?thesis using adv Pair by simp
  next
    case (Some bi)
    then obtain b i where e: "e = Some (b, i)" by (cases bi) auto
    obtain r1 where r2: "r2 = step_past (turn_page k r1)"
      and b: "b = c_blk (turn_page k r1)" and i: "i = c_off (turn_page k r1)"
      and 1: "run (spsc_step k smax tpm) s [] (s\<lparr>ring := r1, cpc := CNext borrow\<rparr>)"
      using adv Pair e by auto
    let ?t = "s\<lparr>ring := r1, cpc := CNext borrow\<rparr>"
    have slot: "slot_at (turn_page k r1) b i = Some (pushed s ! c_count r1)"
      using turn_page_slot [OF spsc.run_inv_from [OF 1 inv], of borrow] by (simp add: b i)
    from take_runs [of ?t borrow k smax tpm] have "run (spsc_step k smax tpm) ?t
        [Deq (pushed s ! c_count r1)] (s\<lparr>ring := take_slot borrow (turn_page k r1), cpc := CIdle\<rparr>)"
      using slot by (simp add: b i)
    from run_trans [OF this 1] have "run (spsc_step k smax tpm) s [Deq (pushed s ! c_count r1)]
        (s\<lparr>ring := take_slot borrow (turn_page k r1)\<rparr>)"
      using idle by (cases s) simp
    then show ?thesis using Pair e r2 b i slot by auto
  qed
qed

lemma consume_runs:
  assumes "cpc s = CIdle" "spsc_inv k s" "spsc_consume k smax tpm now (ring s) = (x, r')"
  shows "run (spsc_step k smax tpm) s (pop_result x) (s\<lparr>ring := r'\<rparr>)"
  using pop_runs [OF assms(1,2), where borrow = False and smax = smax and tpm = tpm and now = now] assms(3)
  by (auto simp: spsc_consume_def pop_result_def take_slot_def step_past_def
      split: prod.splits option.splits)

lemma advance_none:
  "advance k smax tpm now (release_lent r) = (None, r') \<Longrightarrow> r'\<lparr>c_lent := None\<rparr> = r'"
  by (cases "c_lent r") (auto simp: advance_def Let_def load_push_pub_def release_lent_def split: if_splits)

lemma borrow_runs:
  assumes "cpc s = CIdle" "spsc_inv k s" "try_pop_borrow k smax tpm now (ring s) = (e, r')"
  shows "run (spsc_step k smax tpm) s
    (pop_result (case e of None \<Rightarrow> None | Some (b, i) \<Rightarrow> slot_at r' b i)) (s\<lparr>ring := r'\<rparr>)"
  using pop_runs [OF assms(1,2), where borrow = True and smax = smax and tpm = tpm and now = now] assms(3)
  by (auto simp: try_pop_borrow_def pop_result_def advance_none take_slot_def step_past_def
      split: prod.splits option.splits)

section \<open>The destructor\<close>

lemma destroy_from_elements:
  assumes inv: "ring_inv k r path rest base hist" and lent: "c_lent r = None"
  shows "j < length path \<Longrightarrow> off \<le> k \<Longrightarrow> c_count r \<le> base + j * k + off \<Longrightarrow>
    base + j * k + off + n = p_count r \<Longrightarrow>
    destroy_from k r (path ! j) off n = map Some (drop (base + j * k + off) hist)"
proof (induction n arbitrary: j off)
  case 0
  then show ?case using inv by (simp add: ring_inv_def)
next
  case (Suc n)
  have len: "length hist = p_count r" using inv by (simp add: ring_inv_def)
  have slot: "slot_at r (path ! j') i = Some (hist ! (base + j' * k + i))"
    if "j' < length path" "i < k" "c_count r \<le> base + j' * k + i" "base + j' * k + i < p_count r" for j' i
    using inv lent that by (simp add: ring_inv_def ring_slots_def live_def)
  show ?case
  proof (cases "off = k")
    case False
    then show ?thesis
      using Suc.IH [of j "Suc off"] Suc.prems slot [of j off] len
        Cons_nth_drop_Suc [of "base + j * k + off" hist, symmetric] by simp
  next
    case True
    have "base + j * k + k < p_count r" "p_count r + k \<le> base + length path * k + k"
      using Suc.prems inv True by (auto simp: ring_inv_def ring_counts_def)
    then have "Suc j * k < length path * k" by simp
    then have next_j: "Suc j < length path" by (metis mult_less_cancel2)
    have lk: "linked (nxt r) (path @ rest) (hd path)" and k: "0 < k"
      using inv by (auto simp: ring_inv_def ring_shape_def)
    have nxt_j: "nxt r (path ! j) = path ! Suc j"
      using linked_nth [OF lk, of j] next_j by (simp add: nth_append)
    show ?thesis
      using Suc.IH [of "Suc j" 1] Suc.prems True slot [of "Suc j" 0] len next_j nxt_j k
        Cons_nth_drop_Suc [of "base + j * k + off" hist, symmetric] by (simp add: algebra_simps)
  qed
qed

lemma free_from_linked:
  "linked (nxt r) (b # xs) start \<Longrightarrow> start \<notin> set xs \<Longrightarrow> length xs < fuel \<Longrightarrow>
   free_from fuel r start b = Some (b # xs)"
proof (induction xs arbitrary: b fuel)
  case Nil
  then show ?case by (cases fuel) auto
next
  case (Cons x xs)
  then show ?case by (cases fuel) auto
qed

lemma lent_slot:
  assumes "ring_ok k r hist" "c_lent r = Some (b, i)"
  shows "slot_at r b i = Some (hist ! (c_count r - 1))" "0 < c_count r"
proof -
  obtain path rest base where inv: "ring_inv k r path rest base hist"
    using assms(1) by (auto simp: ring_ok_def)
  have "b = c_blk r" "0 < c_off r" "i = c_off r - 1" "c_count r = base + c_off r" "c_off r \<le> k"
    using inv assms(2) by (auto simp: ring_inv_def ring_counts_def)
  moreover from this inv path_head [OF inv] have
    "slot_at r (path ! 0) i = (if live r (base + 0 * k + i) then Some (hist ! (base + 0 * k + i)) else None)"
    unfolding ring_inv_def ring_slots_def by auto
  ultimately show "slot_at r b i = Some (hist ! (c_count r - 1))" "0 < c_count r"
    using path_head(2) [OF inv] assms(2) by (auto simp: live_def)
qed

lemma destroy_all:
  assumes ok: "ring_ok k r hist"
  defines "lent \<equiv> (case c_lent r of None \<Rightarrow> [] | Some _ \<Rightarrow> [Some (hist ! (c_count r - 1))])"
  shows "\<exists>bs. spsc_destroy k r = (lent @ map Some (drop (c_count r) hist), Some bs) \<and>
    distinct bs \<and> set bs = {..<nblocks r}"
proof -
  let ?r = "release_lent r"
  obtain path rest base where inv: "ring_inv k ?r path rest base hist"
    using ring_ok_consumer(1) [OF ok] by (auto simp: ring_ok_def)
  note p = path_head [OF inv]
  have c: "c_count r = base + c_off r" "c_off r \<le> k" "c_count r \<le> p_count ?r"
    using inv by (auto simp: ring_inv_def ring_counts_def)
  have same: "p_count ?r = p_count r" "c_blk ?r = c_blk r" "nblocks ?r = nblocks r"
    by (auto simp: release_lent_def split: option.splits)
  have "destroy_from k ?r (path ! 0) (c_off r) (p_count r - c_count r) = map Some (drop (c_count r) hist)"
    using destroy_from_elements [OF inv, of 0 "c_off r" "p_count r - c_count r"] p c same by simp
  moreover obtain xs where xs: "path @ rest = c_blk r # xs"
    using p same by (cases path) auto
  have lk: "linked (nxt ?r) (c_blk r # xs) (c_blk r)" and d: "distinct (c_blk r # xs)"
    and all: "set (c_blk r # xs) = {..<nblocks r}"
    using inv xs same unfolding xs [symmetric] by (auto simp: ring_inv_def ring_shape_def)
  have "length (c_blk r # xs) = nblocks r"
    using distinct_card [OF d] all by simp
  then have "free_from (nblocks r) ?r (c_blk r) (c_blk r) = Some (c_blk r # xs)"
    using free_from_linked [OF lk, of "nblocks r"] d by simp
  moreover have "(case c_lent r of None \<Rightarrow> [] | Some (b, i) \<Rightarrow> [slot_at r b i]) = lent"
    using lent_slot [OF ok] by (auto simp: lent_def split: option.splits)
  ultimately show ?thesis
    using p same d all by (auto simp: spsc_destroy_def Let_def)
qed

section \<open>Wait-freedom\<close>

text \<open>How many steps of its own each thread has left of the call it is in, at most.\<close>

fun pop_work :: "cpc \<Rightarrow> nat" where
  "pop_work CIdle = 0"
| "pop_work (CTake _) = 1"
| "pop_work (CAnnounce _) = 2"
| "pop_work (CNext _) = 3"
| "pop_work (CSlip _ wtd _) = 4 + (64 - unat wtd)"
| "pop_work (CLoad _) = 69"

fun push_work :: "'a ppc \<Rightarrow> nat" where
  "push_work PIdle = 0"
| "push_work PPublish = 1"
| "push_work (PFill _ _) = 2"
| "push_work (PLink _ _) = 3"
| "push_work (PLoadPop _ _) = 4"

lemma pop_work_bound: "pop_work pc \<le> 69"
  by (cases pc) auto

lemma push_work_bound: "push_work pc \<le> 4"
  by (cases pc) auto

text \<open>A thread's own state, which only its own steps write.\<close>

definition consumer_side :: "'a spsc_sys \<Rightarrow> cpc \<times> nat \<times> nat \<times> nat \<times> nat \<times> (nat \<times> nat) option" where
  "consumer_side s = (let r = ring s in
     (cpc s, c_blk r, c_count r, c_off r, c_cached_push r, c_lent r))"

definition producer_side :: "'a spsc_sys \<Rightarrow> 'a ppc \<times> nat \<times> nat \<times> nat \<times> nat" where
  "producer_side s = (let r = ring s in (ppc s, p_blk r, p_count r, p_off r, p_cached_pop r))"

lemma slip_work:
  assumes "pop_slip borrow wtd delta r = (pc, r')"
  shows "pop_work pc < pop_work (CSlip borrow wtd delta)"
proof (cases "slip_poll wtd delta r")
  case (fields filled wtd' delta' r1)
  then show ?thesis
    using assms slip_poll_wtd(1) [OF _ fields]
    by (auto simp: pop_slip_def word_less_nat_alt kSlipPauses_def split: if_splits)
qed

lemma pop_loaded_work:
  "pop_loaded smax tpm now borrow r = (pc, r') \<Longrightarrow> pop_work pc < 69"
  by (auto simp: pop_loaded_def Let_def split: if_splits prod.splits)

lemma pop_next_work:
  "pop_next k borrow r = (pc, r') \<Longrightarrow> pop_work pc < 3"
  by (auto simp: pop_next_def split: if_splits)

lemma push_loaded_work:
  "push_loaded k v pub r = (pc, r') \<Longrightarrow> push_work pc < 4"
  by (auto simp: push_loaded_def Let_def split: if_splits)

lemma release_producer [simp]:
  "p_blk (release_lent r) = p_blk r" "p_count (release_lent r) = p_count r"
  "p_cached_pop (release_lent r) = p_cached_pop r"
  by (auto simp: release_lent_def split: option.splits)

text \<open>A step is the producer's, and leaves the consumer's side alone, or the other way round.\<close>

lemma step_sides:
  assumes "spsc_step k smax tpm s es t"
  shows "consumer_side t = consumer_side s \<and> (ppc s = PIdle \<or> push_work (ppc t) < push_work (ppc s))
    \<or> producer_side t = producer_side s \<and> (cpc s = CIdle \<or> pop_work (cpc t) < pop_work (cpc s))"
  using assms
proof (cases rule: spsc_step.cases)
  case (push_call v pub pc r)
  then show ?thesis
    by (auto simp: consumer_side_def push_begin_def Let_def split: if_splits)
next
  case (push_load v pub pc r)
  then show ?thesis
    using push_loaded_work [OF push_load(4)]
    by (auto simp: consumer_side_def push_loaded_def load_pop_pub_def Let_def split: if_splits)
next
  case (pop_call borrow pc r)
  then show ?thesis by (auto simp: producer_side_def pop_begin_def Let_def)
next
  case (pop_load borrow now pc r)
  then show ?thesis
    using pop_loaded_work [OF pop_load(4)]
    by (auto simp: producer_side_def pop_loaded_def Let_def load_push_pub_def
        split: if_splits prod.splits elim!: slip_enter_frame)
next
  case (pop_poll borrow wtd delta pc r)
  then show ?thesis
    using slip_work [OF pop_poll(4)]
    by (auto simp: producer_side_def pop_slip_def slip_give_up_def Let_def
        split: if_splits prod.splits elim!: slip_poll_frame)
next
  case (pop_turn borrow pc r)
  then show ?thesis
    using pop_next_work [OF pop_turn(4)]
    by (auto simp: producer_side_def pop_next_def follow_next_def Let_def split: if_splits)
qed (auto simp: consumer_side_def producer_side_def Let_def fill_slot_def spsc_publish_def announce_def
    take_slot_def step_past_def)

text \<open>A thread inside a call can always take its next step.\<close>

lemma pop_can_step:
  assumes "cpc s \<noteq> CIdle"
  shows "\<exists>es t. spsc_step k smax tpm s es t \<and> pop_work (cpc t) < pop_work (cpc s)"
proof (cases "cpc s")
  case CIdle
  then show ?thesis using assms by simp
next
  case (CLoad borrow)
  obtain pc r where l: "pop_loaded smax tpm 0 borrow (ring s) = (pc, r)" by (metis surj_pair)
  show ?thesis
    using spsc_step.pop_load [OF CLoad l] pop_loaded_work [OF l] CLoad by force
next
  case (CSlip borrow wtd delta)
  obtain pc r where l: "pop_slip borrow wtd delta (ring s) = (pc, r)" by (metis surj_pair)
  show ?thesis
    using spsc_step.pop_poll [OF CSlip l] slip_work [OF l] CSlip by force
next
  case (CNext borrow)
  obtain pc r where l: "pop_next k borrow (ring s) = (pc, r)" by (metis surj_pair)
  show ?thesis
    using spsc_step.pop_turn [OF CNext l] pop_next_work [OF l] CNext by force
next
  case (CAnnounce borrow)
  show ?thesis using spsc_step.pop_announce [OF CAnnounce] CAnnounce by force
next
  case (CTake borrow)
  show ?thesis using spsc_step.pop_take [OF CTake] CTake by force
qed

lemma push_can_step:
  assumes "ppc s \<noteq> PIdle"
  shows "\<exists>es t. spsc_step k smax tpm s es t \<and> push_work (ppc t) < push_work (ppc s)"
proof (cases "ppc s")
  case PIdle
  then show ?thesis using assms by simp
next
  case (PLoadPop v pub)
  obtain pc r where l: "push_loaded k v pub (ring s) = (pc, r)" by (metis surj_pair)
  show ?thesis
    using spsc_step.push_load [OF PLoadPop l] push_loaded_work [OF l] PLoadPop by force
next
  case (PLink v pub)
  show ?thesis using spsc_step.push_link [OF PLink] PLink by force
next
  case (PFill v pub)
  show ?thesis
    using spsc_step.push_fill [OF PFill]
    by (intro exI conjI) (assumption, simp add: PFill)
next
  case PPublish
  show ?thesis using spsc_step.push_publish [OF disjI1 [OF PPublish]] PPublish by force
qed

section \<open>Schedules\<close>

text \<open>
  The choices of a schedule: a call by either thread, or one step of the call it is in. The
  consumer's step carries what the tick counter reads.
\<close>

datatype 'a spsc_choice = Push 'a bool | Publish | Producer | Pop bool | Consumer u64

fun producer_act :: "nat \<Rightarrow> 'a spsc_sys \<Rightarrow> ('a qevent list \<times> 'a spsc_sys) option" where
  "producer_act k s = (case ppc s of
     PIdle \<Rightarrow> None
   | PLoadPop v pub \<Rightarrow> (case push_loaded k v pub (ring s) of (pc, r) \<Rightarrow> Some ([], s\<lparr>ring := r, ppc := pc\<rparr>))
   | PLink v pub \<Rightarrow> Some ([], s\<lparr>ring := link_block k (ring s), ppc := PFill v pub\<rparr>)
   | PFill v pub \<Rightarrow> Some ([], s\<lparr>ring := fill_slot v (ring s), ppc := (if pub then PPublish else PIdle),
       pushed := pushed s @ [v]\<rparr>)
   | PPublish \<Rightarrow> Some (map Enq (drop (push_pub (ring s)) (pushed s)),
       s\<lparr>ring := spsc_publish (ring s), ppc := PIdle\<rparr>))"

fun consumer_act ::
    "nat \<Rightarrow> nat \<Rightarrow> u64 \<Rightarrow> u64 \<Rightarrow> 'a spsc_sys \<Rightarrow> ('a qevent list \<times> 'a spsc_sys) option" where
  "consumer_act k smax tpm now s = (case cpc s of
     CIdle \<Rightarrow> None
   | CLoad borrow \<Rightarrow> (case pop_loaded smax tpm now borrow (ring s) of (pc, r) \<Rightarrow>
       Some (if pc = CIdle then [DeqEmpty] else [], s\<lparr>ring := r, cpc := pc\<rparr>))
   | CSlip borrow wtd delta \<Rightarrow> (case pop_slip borrow wtd delta (ring s) of (pc, r) \<Rightarrow>
       Some ([], s\<lparr>ring := r, cpc := pc\<rparr>))
   | CNext borrow \<Rightarrow> (case pop_next k borrow (ring s) of (pc, r) \<Rightarrow> Some ([], s\<lparr>ring := r, cpc := pc\<rparr>))
   | CAnnounce borrow \<Rightarrow> Some ([], s\<lparr>ring := announce (ring s), cpc := CTake borrow\<rparr>)
   | CTake borrow \<Rightarrow> Some ([Deq (the (slot_at (ring s) (c_blk (ring s)) (c_off (ring s))))],
       s\<lparr>ring := take_slot borrow (ring s), cpc := CIdle\<rparr>))"

fun spsc_act ::
    "nat \<Rightarrow> nat \<Rightarrow> u64 \<Rightarrow> 'a spsc_choice \<Rightarrow> 'a spsc_sys \<Rightarrow> ('a qevent list \<times> 'a spsc_sys) option" where
  "spsc_act k smax tpm (Push v pub) s =
     (if ppc s = PIdle then case push_begin k v pub (ring s) of (pc, r) \<Rightarrow>
        Some ([], s\<lparr>ring := r, ppc := pc\<rparr>) else None)"
| "spsc_act k smax tpm Publish s =
     (if ppc s = PIdle then Some (map Enq (drop (push_pub (ring s)) (pushed s)),
        s\<lparr>ring := spsc_publish (ring s), ppc := PIdle\<rparr>) else None)"
| "spsc_act k smax tpm Producer s = producer_act k s"
| "spsc_act k smax tpm (Pop borrow) s =
     (if cpc s = CIdle then case pop_begin borrow (ring s) of (pc, r) \<Rightarrow>
        Some ([], s\<lparr>ring := r, cpc := pc\<rparr>) else None)"
| "spsc_act k smax tpm (Consumer now) s = consumer_act k smax tpm now s"

lemma producer_act_step:
  assumes "producer_act k s = Some (es, t)"
  shows "spsc_step k smax tpm s es t"
proof (cases "ppc s")
  case (PFill v pub)
  then show ?thesis using assms spsc_step.push_fill [OF PFill] by simp
qed (use assms in \<open>auto split: prod.splits intro: spsc_step.intros\<close>)

lemma consumer_act_step:
  assumes "consumer_act k smax tpm now s = Some (es, t)"
  shows "spsc_step k smax tpm s es t"
proof (cases "cpc s")
  case (CLoad borrow)
  obtain pc r where l: "pop_loaded smax tpm now borrow (ring s) = (pc, r)" by (metis surj_pair)
  show ?thesis using assms spsc_step.pop_load [OF CLoad l] CLoad l by simp
qed (use assms in \<open>auto split: prod.splits intro: spsc_step.intros\<close>)

interpretation spsc_sched: scheduled "spsc_act k smax tpm" "spsc_step k smax tpm"
  for k smax :: nat and tpm :: u64
proof
  show "spsc_step k smax tpm s es t" if "spsc_act k smax tpm c s = Some (es, t)" for c s es t
    using that
    by (cases c) (auto simp del: producer_act.simps consumer_act.simps split: if_splits prod.splits
        intro: spsc_step.intros producer_act_step consumer_act_step)
  show "\<exists>c. spsc_act k smax tpm c s = Some (es, t)" if "spsc_step k smax tpm s es t" for s es t
    using that
  proof (cases rule: spsc_step.cases)
    case (push_call v pub pc r)
    then show ?thesis by (intro exI [of _ "Push v pub"]) simp
  next
    case push_publish
    then show ?thesis
      by (intro exI [of _ "if ppc s = PIdle then Publish else Producer"]) auto
  next
    case (pop_call borrow pc r)
    then show ?thesis by (intro exI [of _ "Pop borrow"]) simp
  next
    case (pop_load borrow now pc r)
    then show ?thesis by (intro exI [of _ "Consumer now"]) simp
  qed ((rule exI [of _ Producer], simp; fail) | (rule exI [of _ "Consumer 0"], simp; fail))+
qed

section \<open>Helpers of the promises\<close>

text \<open>What the history variable of the steps is: the elements published, then those not yet.\<close>

lemma enqs_map [simp]: "enqs (map Enq vs) = vs"
  by (induction vs) auto

lemma enqs_append [simp]: "enqs (es @ fs) = enqs es @ enqs fs"
  by (induction es rule: enqs.induct) auto

lemma step_pushed:
  assumes "spsc_inv k s" "spsc_step k smax tpm s es t"
  shows "take (push_pub (ring s)) (pushed s) @ enqs es = take (push_pub (ring t)) (pushed t)"
proof -
  have ok: "ring_ok k (ring s) (pushed s)" using assms(1) by (simp add: spsc_inv_def)
  note D = ring_okD [OF ok]
  from assms(2) show ?thesis
  proof (cases rule: spsc_step.cases)
    case (push_call v pub pc r)
    then show ?thesis using producer_step_frame(1) [OF push_call(4)] by simp
  next
    case (push_load v pub pc r)
    then show ?thesis using producer_step_frame(2) [OF push_load(4)] by simp
  next
    case (pop_call borrow pc r)
    then show ?thesis using consumer_step_frame(1) [OF pop_call(4)] by simp
  next
    case (pop_load borrow now pc r)
    then show ?thesis using consumer_step_frame(2) [OF pop_load(4)] by simp
  next
    case (pop_poll borrow wtd delta pc r)
    then show ?thesis using consumer_step_frame(3) [OF pop_poll(4)] by simp
  next
    case (pop_turn borrow pc r)
    then show ?thesis using consumer_step_frame(4) [OF pop_turn(4)] by simp
  qed (use D in simp_all)
qed

lemma run_pushed:
  assumes "run (spsc_step k smax tpm) s0 es s" and "s0 = spsc_start k" and "0 < k"
  shows "enqs es = take (push_pub (ring s)) (pushed s)"
  using assms
proof (induction rule: run.induct)
  case (run_start s)
  then show ?case by (simp add: spsc_start_def)
next
  case (run_snoc s0 es t fs u)
  then show ?case using step_pushed [OF spsc_reachable [of k smax tpm es t] run_snoc.hyps(2)] by simp
qed

lemma run_popped:
  assumes "run (spsc_step k smax tpm) (spsc_start k) es s" and "0 < k"
  shows "deqs es = take (c_count (ring s)) (pushed s)"
proof -
  have ok: "ring_ok k (ring s) (pushed s)" using spsc_reachable [OF assms(2,1)] by (simp add: spsc_inv_def)
  have "deqs es @ spsc_content s = take (push_pub (ring s)) (pushed s)"
    using run_pushed [OF assms(1) refl assms(2)] spsc.run_order [of k "spsc_start k" smax tpm es s] assms
    by (simp add: spsc_starts_def)
  also have "\<dots> = take (c_count (ring s)) (take (push_pub (ring s)) (pushed s)) @ spsc_content s"
    unfolding spsc_content_def by (rule append_take_drop_id [symmetric])
  finally show ?thesis using ring_okD [OF ok] by (simp add: min_def)
qed

text \<open>A consumer about to follow a next pointer is behind the producer's block.\<close>

lemma ring_ok_turn_apart:
  assumes "ring_ok k r hist" "c_off r = k" "c_count r < c_cached_push r"
  shows "c_blk r \<noteq> p_blk r"
proof -
  obtain path rest base where inv: "ring_inv k r path rest base hist"
    using assms(1) by (auto simp: ring_ok_def)
  obtain x xs where path: "path = x # xs" "x = c_blk r" using inv by (cases path) (auto simp: ring_inv_defs)
  have "xs \<noteq> []" using inv assms(2,3) path by (auto simp: ring_inv_def ring_counts_def)
  then have "p_blk r \<in> set xs" using inv path last_in_set [of xs] by (auto simp: ring_inv_def ring_shape_def)
  then show ?thesis using inv path by (auto simp: ring_inv_def ring_shape_def)
qed

section \<open>The ring's promises\<close>

text \<open>
  Schedules of a ring with two-slot blocks on which the promises are shown to be about
  something: an element pushed; the consumer about to take it while the producer fills the next
  slot; an element lent; the consumer about to leave its first block.
\<close>

definition demo :: "nat spsc_choice list \<Rightarrow> nat qevent list \<times> nat spsc_sys" where
  "demo cs = the (exec (spsc_act 2 2 1000) cs (spsc_start 2))"

abbreviation push_choices :: "nat \<Rightarrow> nat spsc_choice list" where
  "push_choices v \<equiv> [Push v True, Producer, Producer]"

definition both_busy :: "nat spsc_choice list" where
  "both_busy = push_choices 7 @ [Pop False, Consumer 0, Consumer 0, Push 8 True]"

definition lends :: "nat spsc_choice list" where
  "lends = push_choices 7 @ [Pop True, Consumer 0, Consumer 0, Consumer 0] @ push_choices 8"

definition leaves_block :: "nat spsc_choice list" where
  "leaves_block = concat (map push_choices [7, 8, 9]) @
     [Pop False, Consumer 0, Consumer 0, Consumer 0] @ [Pop False, Consumer 0, Consumer 0] @
     [Pop False]"

lemma demo_run:
  assumes "exec (spsc_act 2 2 1000) cs (spsc_start 2) \<noteq> None"
  shows "run (spsc_step 2 2 1000) (spsc_start 2) (fst (demo cs)) (snd (demo cs))"
  using assms spsc_sched.exec_run by (auto simp: demo_def)

lemma demo_defined:
  "exec (spsc_act 2 2 1000) both_busy (spsc_start 2) \<noteq> None"
  "exec (spsc_act 2 2 1000) lends (spsc_start 2) \<noteq> None"
  "exec (spsc_act 2 2 1000) leaves_block (spsc_start 2) \<noteq> None"
  unfolding is_some_iff [symmetric] by code_simp+

text \<open>
  C1. The ring is a linearisable FIFO queue: in every interleaving of the producer's and the
  consumer's steps, the pushes, pops and empty answers, in the order in which they take effect,
  are those of a sequential queue that holds exactly what is published and not yet popped; so
  the elements popped are the elements published, in the order they were pushed, each once, and
  a pop answers empty only when nothing published is left. Block size, batch bound and the tick
  counter are arbitrary.
\<close>

theorem spsc_linearisable_fifo:
  assumes "0 < k" and "run (spsc_step k smax tpm) (spsc_start k) es s"
  shows "fifo_run [] es = Some (spsc_content s) \<and> enqs es = deqs es @ spsc_content s"
  using spsc.run_fifo [of k "spsc_start k" smax tpm es s]
    spsc.run_order [of k "spsc_start k" smax tpm es s] assms by (simp add: spsc_starts_def)

theorem spsc_linearisable_fifo_witness:
  "fst (demo lends) = [Enq 7, Deq 7, Enq 8] \<and> fifo_run [] (fst (demo lends)) = Some [8] \<and>
   enqs (fst (demo lends)) = deqs (fst (demo lends)) @ [8]"
proof -
  have "fst (demo lends) = [Enq 7, Deq 7, Enq 8] \<and> spsc_content (snd (demo lends)) = [8]"
    by code_simp
  with spsc_linearisable_fifo [OF _ demo_run [OF demo_defined(2)]] show ?thesis by simp
qed

text \<open>
  C2. The two threads never race on memory: where the consumer takes an element, its slot holds
  the element of that number, fully built and published; where the producer builds one, its slot
  is raw (so it is neither an unread element nor the lent one); and where the consumer follows a
  next pointer, it is not that of the block the producer is in, the only one the producer writes.
\<close>

theorem spsc_slots_safe:
  assumes "0 < k" and "run (spsc_step k smax tpm) (spsc_start k) es s"
  shows "(cpc s = CTake borrow \<longrightarrow>
      slot_at (ring s) (c_blk (ring s)) (c_off (ring s)) = Some (pushed s ! c_count (ring s)) \<and>
      c_count (ring s) < push_pub (ring s)) \<and>
    (ppc s = PFill v pub \<longrightarrow> slot_at (ring s) (p_blk (ring s)) (p_off (ring s)) = None) \<and>
    (cpc s = CNext borrow \<and> c_off (ring s) = k \<longrightarrow> c_blk (ring s) \<noteq> p_blk (ring s))"
proof -
  have inv: "spsc_inv k s" using spsc_reachable assms by blast
  then have ok: "ring_ok k (ring s) (pushed s)" by (simp add: spsc_inv_def)
  show ?thesis
    using inv ok ring_okD [OF ok] ring_ok_take_slot [OF ok] ring_ok_fill_slot [OF ok]
      ring_ok_turn_apart [OF ok]
    by (auto simp: spsc_inv_def cpc_ok_def ppc_ok_def)
qed

theorem spsc_slots_safe_witness:
  "(let s = snd (demo both_busy) in slot_at (ring s) (c_blk (ring s)) (c_off (ring s)) = Some 7 \<and>
     slot_at (ring s) (p_blk (ring s)) (p_off (ring s)) = None) \<and>
   (let s = snd (demo leaves_block) in c_blk (ring s) \<noteq> p_blk (ring s))"
proof -
  let ?s = "snd (demo both_busy)" and ?t = "snd (demo leaves_block)"
  have "cpc ?s = CTake False \<and> ppc ?s = PFill 8 True \<and> c_count (ring ?s) = 0 \<and> pushed ?s = [7]"
    by code_simp
  moreover have "cpc ?t = CNext False \<and> c_off (ring ?t) = 2" by code_simp
  ultimately show ?thesis
    using spsc_slots_safe [OF _ demo_run [OF demo_defined(1)], of False 8 True]
      spsc_slots_safe [OF _ demo_run [OF demo_defined(3)], of False] by (simp add: Let_def)
qed

text \<open>
  C17. A borrowed element stays put: in every state in which an element is lent, its slot still
  holds the element the last pop returned, whatever the producer has pushed, reused or linked
  since; it is released by the consumer's next pop only.
\<close>

theorem spsc_lent_intact:
  assumes "0 < k" and "run (spsc_step k smax tpm) (spsc_start k) es s"
    and "c_lent (ring s) = Some (b, i)"
  shows "slot_at (ring s) b i = Some (last (deqs es)) \<and> deqs es \<noteq> []"
proof -
  have ok: "ring_ok k (ring s) (pushed s)" using spsc_reachable [OF assms(1,2)] by (simp add: spsc_inv_def)
  have d: "deqs es = take (c_count (ring s)) (pushed s)" by (rule run_popped [OF assms(2,1)])
  have "0 < c_count (ring s)" "c_count (ring s) \<le> length (pushed s)"
    using lent_slot(2) [OF ok assms(3)] ring_okD [OF ok] by auto
  then have "last (deqs es) = pushed s ! (c_count (ring s) - 1)" "deqs es \<noteq> []"
    using last_conv_nth [of "take (c_count (ring s)) (pushed s)"]
    by (cases "pushed s = []"; simp add: d min_def split: if_splits)+
  then show ?thesis using lent_slot(1) [OF ok assms(3)] by simp
qed

theorem spsc_lent_intact_witness:
  "slot_at (ring (snd (demo lends))) 0 0 = Some 7 \<and> deqs (fst (demo lends)) \<noteq> []"
proof -
  have "c_lent (ring (snd (demo lends))) = Some (0, 0) \<and> deqs (fst (demo lends)) = [7]"
    by code_simp
  with spsc_lent_intact [OF _ demo_run [OF demo_defined(2)]] show ?thesis by simp
qed

text \<open>
  C19. Push and pop are wait-free: a thread inside a call can always take its next step, each of
  its own steps brings its call closer to the end, no step of the other thread touches its state,
  and a call has at most 4 such steps (push) or 69 (pop, the slip's polls included).
\<close>

theorem spsc_wait_free:
  fixes s :: "'a spsc_sys"
  shows "push_work (ppc s) \<le> 4 \<and> pop_work (cpc s) \<le> 69 \<and>
    (ppc s \<noteq> PIdle \<longrightarrow> (\<exists>es t. spsc_step k smax tpm s es t \<and> push_work (ppc t) < push_work (ppc s))) \<and>
    (cpc s \<noteq> CIdle \<longrightarrow> (\<exists>es t. spsc_step k smax tpm s es t \<and> pop_work (cpc t) < pop_work (cpc s))) \<and>
    (\<forall>es t. spsc_step k smax tpm s es t \<longrightarrow>
      consumer_side t = consumer_side s \<and> (ppc s = PIdle \<or> push_work (ppc t) < push_work (ppc s)) \<or>
      producer_side t = producer_side s \<and> (cpc s = CIdle \<or> pop_work (cpc t) < pop_work (cpc s)))"
  using push_work_bound pop_work_bound push_can_step pop_can_step step_sides by blast

theorem spsc_wait_free_witness:
  "\<exists>es t. spsc_step 2 2 1000 (snd (demo both_busy)) es t \<and>
     pop_work (cpc t) < pop_work (cpc (snd (demo both_busy)))"
proof -
  have "cpc (snd (demo both_busy)) = CTake False" by code_simp
  then show ?thesis using spsc_wait_free [of "snd (demo both_busy)"] by auto
qed

text \<open>
  C20. The destructor leaves nothing behind: run when both threads are done, it destroys the lent
  element if there is one and then every element pushed and not popped, published or not, in
  order and each once, and its walk around the ring ends and frees every block ever allocated
  exactly once.
\<close>

theorem spsc_destroy_complete:
  assumes "0 < k" and "run (spsc_step k smax tpm) (spsc_start k) es s"
  shows "\<exists>bs. spsc_destroy k (ring s) =
      ((case c_lent (ring s) of None \<Rightarrow> [] | Some _ \<Rightarrow> [Some (pushed s ! (c_count (ring s) - 1))]) @
        map Some (drop (c_count (ring s)) (pushed s)), Some bs) \<and>
    distinct bs \<and> set bs = {..<nblocks (ring s)}"
  using destroy_all spsc_reachable [OF assms] by (auto simp: spsc_inv_def)

theorem spsc_destroy_complete_witness:
  "\<exists>bs. spsc_destroy 2 (ring (snd (demo lends))) = ([Some 7, Some 8], Some bs) \<and>
    distinct bs \<and> set bs = {..<2}"
proof -
  let ?s = "snd (demo lends)"
  have "c_lent (ring ?s) = Some (0, 0) \<and> pushed ?s = [7, 8] \<and> c_count (ring ?s) = 1 \<and> nblocks (ring ?s) = 2"
    by code_simp
  with spsc_destroy_complete [OF _ demo_run [OF demo_defined(2)]] show ?thesis by simp
qed

text \<open>
  C21. The operations as the code composes them (\<open>push\<close>, \<open>push_deferred\<close> and \<open>publish\<close>,
  \<open>consume\<close>, \<open>try_pop_borrow\<close>) are runs of the steps above, with the events their results
  stand for: a pop of the code returns an element exactly where the run dequeues it.
\<close>

theorem spsc_operations_are_runs:
  assumes "spsc_inv k s" and "ppc s = PIdle" and "cpc s = CIdle"
  shows "run (spsc_step k smax tpm) s (map Enq (drop (push_pub (ring s)) (pushed s @ [v])))
      (s\<lparr>ring := spsc_push k v (ring s), pushed := pushed s @ [v]\<rparr>) \<and>
    run (spsc_step k smax tpm) s []
      (s\<lparr>ring := spsc_push_deferred k v (ring s), ppc := PIdle, pushed := pushed s @ [v]\<rparr>) \<and>
    (case spsc_consume k smax tpm now (ring s) of (x, r') \<Rightarrow>
      run (spsc_step k smax tpm) s (pop_result x) (s\<lparr>ring := r'\<rparr>)) \<and>
    (case try_pop_borrow k smax tpm now (ring s) of (e, r') \<Rightarrow>
      run (spsc_step k smax tpm) s
        (pop_result (case e of None \<Rightarrow> None | Some (b, i) \<Rightarrow> slot_at r' b i)) (s\<lparr>ring := r'\<rparr>))"
  using push_runs [OF assms(2)] push_deferred_runs [OF assms(2), where pub = False]
    consume_runs [OF assms(3,1)] borrow_runs [OF assms(3,1)]
  by (auto split: prod.splits)

theorem spsc_operations_are_runs_witness:
  "run (spsc_step 2 2 1000) (spsc_start 2) [Enq (5::nat)]
     (spsc_start 2\<lparr>ring := spsc_push 2 5 (new_ring 2), pushed := [5]\<rparr>)"
proof -
  have "spsc_inv 2 (spsc_start 2 :: nat spsc_sys)" by (rule spsc_reachable [OF _ run_start]) simp
  from spsc_operations_are_runs [OF this, of 2 1000 5] show ?thesis
    by (simp add: spsc_start_def new_ring_def)
qed

end
