(* ===== verification/Hazard.thy ===== *)
theory Hazard
  imports Prelude
begin

text \<open>
  The hazard-pointer domain (runtime/hazard.hpp): the records with their slots and retired
  nodes, acquiring a record, protecting a node, retiring one, the scan, and a thread's exit.
  First the operations as the code writes them, then the domain with any number of threads
  taking its steps one access at a time. A node is an address; an address that was freed may
  be handed out again.
\<close>

section \<open>The domain\<close>

definition kSlots :: nat where "kSlots = 2"
definition kPushSlot :: nat where "kPushSlot = 0"
definition kPopSlot :: nat where "kPopSlot = 1"
definition kScanAt :: nat where "kScanAt = 8"

record 'n hrecord =
  slot :: "nat \<Rightarrow> 'n option"
  active :: bool
  retired_list :: "'n list"

text \<open>
  The list of records grows at its head and never shrinks: record \<open>i\<close> is the \<open>i\<close>-th ever
  made, and a walk of the list visits the records from the youngest to the oldest.
\<close>

record 'n domain =
  recs :: "nat \<Rightarrow> 'n hrecord"
  nrecs :: nat

definition new_record :: "'n hrecord" where
  "new_record = \<lparr>slot = (\<lambda>_. None), active = True, retired_list = []\<rparr>"

definition upd_rec :: "nat \<Rightarrow> ('n hrecord \<Rightarrow> 'n hrecord) \<Rightarrow> 'n domain \<Rightarrow> 'n domain" where
  "upd_rec i f D = D\<lparr>recs := (recs D)(i := f (recs D i))\<rparr>"

definition set_active :: "nat \<Rightarrow> bool \<Rightarrow> 'n domain \<Rightarrow> 'n domain" where
  "set_active i b = upd_rec i (\<lambda>r. r\<lparr>active := b\<rparr>)"

definition store_slot :: "nat \<Rightarrow> nat \<Rightarrow> 'n option \<Rightarrow> 'n domain \<Rightarrow> 'n domain" where
  "store_slot i j v = upd_rec i (\<lambda>r. r\<lparr>slot := (slot r)(j := v)\<rparr>)"

definition set_retired :: "nat \<Rightarrow> 'n list \<Rightarrow> 'n domain \<Rightarrow> 'n domain" where
  "set_retired i ps = upd_rec i (\<lambda>r. r\<lparr>retired_list := ps\<rparr>)"

abbreviation slot_of :: "'n domain \<Rightarrow> nat \<Rightarrow> nat \<Rightarrow> 'n option" where
  "slot_of D i j \<equiv> slot (recs D i) j"

abbreviation retired_of :: "'n domain \<Rightarrow> nat \<Rightarrow> 'n list" where
  "retired_of D i \<equiv> retired_list (recs D i)"

section \<open>The operations\<close>

text \<open>\<open>acquire\<close>: the first idle record on the way down the list, else a new one at its head.\<close>

fun first_idle :: "'n domain \<Rightarrow> nat \<Rightarrow> nat option" where
  "first_idle D 0 = None"
| "first_idle D (Suc i) = (if \<not> active (recs D i) then Some i else first_idle D i)"

definition push_record :: "'n domain \<Rightarrow> 'n domain" where
  "push_record D = D\<lparr>recs := (recs D)(nrecs D := new_record), nrecs := Suc (nrecs D)\<rparr>"

definition acquire :: "'n domain \<Rightarrow> nat \<times> 'n domain" where
  "acquire D =
     (case first_idle D (nrecs D) of Some i \<Rightarrow> (i, set_active i True D)
      | None \<Rightarrow> (nrecs D, push_record D))"

text \<open>The slots in the order a scan reads them.\<close>

definition slots_from :: "nat \<Rightarrow> (nat \<times> nat) list" where
  "slots_from n = concat (map (\<lambda>i. map (Pair i) [0..<kSlots]) (rev [0..<n]))"

definition read_slot :: "'n domain \<Rightarrow> nat \<times> nat \<Rightarrow> 'n list \<Rightarrow> 'n list" where
  "read_slot D ij held = (case slot_of D (fst ij) (snd ij) of None \<Rightarrow> held | Some p \<Rightarrow> held @ [p])"

definition kept :: "'n list \<Rightarrow> 'n list \<Rightarrow> 'n list" where
  "kept held ps = filter (\<lambda>p. p \<in> set held) ps"

definition unheld :: "'n list \<Rightarrow> 'n list \<Rightarrow> 'n list" where
  "unheld held ps = filter (\<lambda>p. p \<notin> set held) ps"

text \<open>\<open>scan\<close>: the nodes it frees, in the order of the retired list, and the domain after it.\<close>

definition scan :: "nat \<Rightarrow> 'n domain \<Rightarrow> 'n list \<times> 'n domain" where
  "scan i D =
     (let held = fold (read_slot D) (slots_from (nrecs D)) []
      in (unheld held (retired_of D i), set_retired i (kept held (retired_of D i)) D))"

text \<open>\<open>retire\<close>, with the scan it runs at the eighth node.\<close>

definition retire :: "nat \<Rightarrow> 'n \<Rightarrow> 'n domain \<Rightarrow> 'n list \<times> 'n domain" where
  "retire i p D =
     (let D = set_retired i (retired_of D i @ [p]) D
      in if length (retired_of D i) \<ge> kScanAt then scan i D else ([], D))"

definition clear :: "nat \<Rightarrow> nat \<Rightarrow> 'n domain \<Rightarrow> 'n domain" where
  "clear i j = store_slot i j None"

text \<open>\<open>protect\<close> with nobody changing the source meanwhile: the first reload agrees.\<close>

definition protect :: "nat \<Rightarrow> nat \<Rightarrow> 'n \<Rightarrow> 'n domain \<Rightarrow> 'n \<times> 'n domain" where
  "protect i j src D = (src, store_slot i j (Some src) D)"

text \<open>The end of a thread: its slots cleared, a last scan, its record given up.\<close>

definition owner_exit :: "nat \<Rightarrow> 'n domain \<Rightarrow> 'n list \<times> 'n domain" where
  "owner_exit i D =
     (case scan i (fold (clear i) [0..<kSlots] D) of (freed, D') \<Rightarrow> (freed, set_active i False D'))"

section \<open>The domain under its threads\<close>

text \<open>
  What the threads do between two accesses is kept beside the domain: for a thread in a scan
  the slots it still has to read and the addresses it has found. Three sets say what the nodes
  are: \<open>live\<close> are allocated, \<open>shared\<close> are reachable from the pointers that readers protect
  nodes through, \<open>valid\<close> are the slots whose content its owner has found reachable after storing
  it there (\<open>protect\<close> has returned).
\<close>

record 'n hz_sys =
  hdom :: "'n domain"
  scanning :: "nat \<Rightarrow> ((nat \<times> nat) list \<times> 'n list) option"
  valid :: "(nat \<times> nat) set"
  shared :: "'n set"
  live :: "'n set"

definition hz_start :: "'n hz_sys" where
  "hz_start = \<lparr>hdom = \<lparr>recs = (\<lambda>_. new_record), nrecs = 0\<rparr>, scanning = (\<lambda>_. None), valid = {},
     shared = {}, live = {}\<rparr>"

definition hz_publish :: "'n \<Rightarrow> 'n hz_sys \<Rightarrow> 'n hz_sys" where
  "hz_publish p h = h\<lparr>shared := insert p (shared h), live := insert p (live h)\<rparr>"

definition hz_new :: "'n hz_sys \<Rightarrow> 'n hz_sys" where
  "hz_new h = h\<lparr>hdom := push_record (hdom h)\<rparr>"

definition hz_reuse :: "nat \<Rightarrow> 'n hz_sys \<Rightarrow> 'n hz_sys" where
  "hz_reuse i h = h\<lparr>hdom := set_active i True (hdom h)\<rparr>"

definition hz_store :: "nat \<Rightarrow> nat \<Rightarrow> 'n option \<Rightarrow> 'n hz_sys \<Rightarrow> 'n hz_sys" where
  "hz_store i j v h = h\<lparr>hdom := store_slot i j v (hdom h), valid := valid h - {(i, j)}\<rparr>"

definition hz_validate :: "nat \<Rightarrow> nat \<Rightarrow> 'n hz_sys \<Rightarrow> 'n hz_sys" where
  "hz_validate i j h = h\<lparr>valid := insert (i, j) (valid h)\<rparr>"

definition hz_retire :: "nat \<Rightarrow> 'n \<Rightarrow> 'n hz_sys \<Rightarrow> 'n hz_sys" where
  "hz_retire i p h = h\<lparr>hdom := set_retired i (retired_of (hdom h) i @ [p]) (hdom h), shared := shared h - {p}\<rparr>"

definition hz_scan_start :: "nat \<Rightarrow> 'n hz_sys \<Rightarrow> 'n hz_sys" where
  "hz_scan_start i h = h\<lparr>scanning := (scanning h)(i \<mapsto> (slots_from (nrecs (hdom h)), []))\<rparr>"

definition hz_scan_read :: "nat \<Rightarrow> 'n hz_sys \<Rightarrow> 'n hz_sys" where
  "hz_scan_read i h =
     (case scanning h i of Some (ij # todo, held) \<Rightarrow>
        h\<lparr>scanning := (scanning h)(i \<mapsto> (todo, read_slot (hdom h) ij held))\<rparr> | _ \<Rightarrow> h)"

definition hz_frees :: "nat \<Rightarrow> 'n hz_sys \<Rightarrow> 'n list" where
  "hz_frees i h =
     (case scanning h i of Some (_, held) \<Rightarrow> unheld held (retired_of (hdom h) i) | None \<Rightarrow> [])"

definition hz_scan_end :: "nat \<Rightarrow> 'n hz_sys \<Rightarrow> 'n hz_sys" where
  "hz_scan_end i h =
     (case scanning h i of Some (_, held) \<Rightarrow>
        h\<lparr>hdom := set_retired i (kept held (retired_of (hdom h) i)) (hdom h),
          scanning := (scanning h)(i := None), live := live h - set (hz_frees i h)\<rparr>
      | None \<Rightarrow> h)"

definition hz_release :: "nat \<Rightarrow> 'n hz_sys \<Rightarrow> 'n hz_sys" where
  "hz_release i h = h\<lparr>hdom := set_active i False (hdom h)\<rparr>"

datatype 'n hz_event = Retired 'n | Freed 'n

text \<open>
  A client allocates a node at an address that is not in use and makes it reachable; protects
  only what it reloads from a shared pointer; retires a node as it makes it unreachable.
\<close>

inductive hz_step :: "'n hz_sys \<Rightarrow> 'n hz_event list \<Rightarrow> 'n hz_sys \<Rightarrow> bool" where
  publish: "p \<notin> live h \<Longrightarrow> hz_step h [] (hz_publish p h)"
| new_rec: "hz_step h [] (hz_new h)"
| reuse: "i < nrecs (hdom h) \<Longrightarrow> \<not> active (recs (hdom h) i) \<Longrightarrow> hz_step h [] (hz_reuse i h)"
| store: "i < nrecs (hdom h) \<Longrightarrow> hz_step h [] (hz_store i j v h)"
| validate: "i < nrecs (hdom h) \<Longrightarrow> j < kSlots \<Longrightarrow> slot_of (hdom h) i j = Some p \<Longrightarrow> p \<in> shared h \<Longrightarrow>
    hz_step h [] (hz_validate i j h)"
| retire: "i < nrecs (hdom h) \<Longrightarrow> scanning h i = None \<Longrightarrow> p \<in> shared h \<Longrightarrow>
    hz_step h [Retired p] (hz_retire i p h)"
| scan_start: "i < nrecs (hdom h) \<Longrightarrow> scanning h i = None \<Longrightarrow> hz_step h [] (hz_scan_start i h)"
| scan_read: "scanning h i = Some (ij # todo, held) \<Longrightarrow> hz_step h [] (hz_scan_read i h)"
| scan_end: "scanning h i = Some ([], held) \<Longrightarrow> hz_step h (map Freed (hz_frees i h)) (hz_scan_end i h)"
| release: "i < nrecs (hdom h) \<Longrightarrow> scanning h i = None \<Longrightarrow> hz_step h [] (hz_release i h)"

section \<open>The invariant\<close>

text \<open>
  Every retired node is live, unreachable, and in one list once. Every valid slot holds a live
  node. A thread in a scan has, for every valid slot that holds one of its retired nodes,
  either still to read the slot or already found the node.
\<close>

definition hz_retired_ok :: "'n hz_sys \<Rightarrow> bool" where
  "hz_retired_ok h \<longleftrightarrow>
     (\<forall>i < nrecs (hdom h). distinct (retired_of (hdom h) i) \<and>
        set (retired_of (hdom h) i) \<subseteq> live h - shared h) \<and>
     (\<forall>i < nrecs (hdom h). \<forall>j < nrecs (hdom h). i \<noteq> j \<longrightarrow>
        set (retired_of (hdom h) i) \<inter> set (retired_of (hdom h) j) = {}) \<and>
     shared h \<subseteq> live h"

definition hz_valid_ok :: "'n hz_sys \<Rightarrow> bool" where
  "hz_valid_ok h \<longleftrightarrow>
     (\<forall>(i, j) \<in> valid h. i < nrecs (hdom h) \<and> j < kSlots \<and>
        (\<exists>p \<in> live h. slot_of (hdom h) i j = Some p))"

definition hz_scan_ok :: "'n hz_sys \<Rightarrow> bool" where
  "hz_scan_ok h \<longleftrightarrow>
     (\<forall>i todo held. scanning h i = Some (todo, held) \<longrightarrow> i < nrecs (hdom h) \<and>
        (\<forall>a j p. (a, j) \<in> valid h \<longrightarrow> slot_of (hdom h) a j = Some p \<longrightarrow> p \<in> set (retired_of (hdom h) i) \<longrightarrow>
           (a, j) \<in> set todo \<or> p \<in> set held))"

definition hz_inv :: "'n hz_sys \<Rightarrow> bool" where
  "hz_inv h \<longleftrightarrow> hz_retired_ok h \<and> hz_valid_ok h \<and> hz_scan_ok h"

lemmas hz_inv_defs = hz_inv_def hz_retired_ok_def hz_valid_ok_def hz_scan_ok_def

lemma rec_simps [simp]:
  "nrecs (upd_rec i f D) = nrecs D" "recs (upd_rec i f D) = (recs D)(i := f (recs D i))"
  by (simp_all add: upd_rec_def)

lemma domain_simps [simp]:
  "nrecs (store_slot i j v D) = nrecs D" "nrecs (set_active i b' D) = nrecs D"
  "nrecs (set_retired i ps D) = nrecs D" "nrecs (push_record D) = Suc (nrecs D)"
  "slot_of (store_slot i j v D) a b = (if a = i \<and> b = j then v else slot_of D a b)"
  "slot_of (set_active i b' D) a b = slot_of D a b" "slot_of (set_retired i ps D) a b = slot_of D a b"
  "slot_of (push_record D) a b = (if a = nrecs D then None else slot_of D a b)"
  "retired_of (store_slot i j v D) a = retired_of D a" "retired_of (set_active i b' D) a = retired_of D a"
  "retired_of (set_retired i ps D) a = (if a = i then ps else retired_of D a)"
  "retired_of (push_record D) a = (if a = nrecs D then [] else retired_of D a)"
  by (simp_all add: store_slot_def set_active_def set_retired_def push_record_def new_record_def)

lemma active_simps [simp]:
  "active (recs (store_slot i j v D) a) = active (recs D a)"
  "active (recs (set_active i b D) a) = (if a = i then b else active (recs D a))"
  "active (recs (set_retired i ps D) a) = active (recs D a)"
  "active (recs (push_record D) a) = (if a = nrecs D then True else active (recs D a))"
  by (simp_all add: store_slot_def set_active_def set_retired_def push_record_def new_record_def)

lemma slots_from_set: "set (slots_from n) = {..<n} \<times> {..<kSlots}"
  by (auto simp: slots_from_def)

lemma hz_inv_start: "hz_inv hz_start"
  by (simp add: hz_inv_defs hz_start_def)

lemma hz_inv_publish: "hz_inv h \<Longrightarrow> p \<notin> live h \<Longrightarrow> hz_inv (hz_publish p h)"
  by (fastforce simp: hz_inv_defs hz_publish_def)

lemma hz_inv_new: "hz_inv h \<Longrightarrow> hz_inv (hz_new h)"
  by (fastforce simp: hz_inv_defs hz_new_def less_Suc_eq)

lemma hz_inv_active: "hz_inv h \<Longrightarrow> hz_inv (hz_reuse i h)" "hz_inv h \<Longrightarrow> hz_inv (hz_release i h)"
  by (simp_all add: hz_inv_defs hz_reuse_def hz_release_def)

lemma hz_inv_store: "hz_inv h \<Longrightarrow> hz_inv (hz_store i j v h)"
  by (fastforce simp: hz_inv_defs hz_store_def)

lemma hz_inv_validate:
  assumes inv: "hz_inv h" and ij: "i < nrecs (hdom h)" "j < kSlots"
    and p: "slot_of (hdom h) i j = Some p" "p \<in> shared h"
  shows "hz_inv (hz_validate i j h)"
proof -
  have "p \<notin> set (retired_of (hdom h) a)" if "a < nrecs (hdom h)" for a
    using inv p(2) that by (auto simp: hz_inv_defs)
  then have "hz_scan_ok (hz_validate i j h)"
    using inv p(1) by (auto simp: hz_inv_def hz_scan_ok_def hz_validate_def)
  moreover have "hz_valid_ok (hz_validate i j h)"
    using inv ij p by (auto simp: hz_inv_def hz_valid_ok_def hz_validate_def hz_retired_ok_def)
  ultimately show ?thesis
    using inv by (simp add: hz_inv_def hz_retired_ok_def hz_validate_def)
qed

lemma hz_inv_retire:
  assumes inv: "hz_inv h" and i: "i < nrecs (hdom h)" "scanning h i = None" and p: "p \<in> shared h"
  shows "hz_inv (hz_retire i p h)"
proof -
  have fresh: "p \<notin> set (retired_of (hdom h) a)" if "a < nrecs (hdom h)" for a
    using inv p that by (auto simp: hz_inv_defs)
  have R: "hz_retired_ok h" and "p \<in> live h" using inv p by (auto simp: hz_inv_defs)
  have "hz_retired_ok (hz_retire i p h)"
    unfolding hz_retired_ok_def
  proof (intro conjI allI impI)
    fix a assume "a < nrecs (hdom (hz_retire i p h))"
    then show "distinct (retired_of (hdom (hz_retire i p h)) a)"
      and "set (retired_of (hdom (hz_retire i p h)) a) \<subseteq> live (hz_retire i p h) - shared (hz_retire i p h)"
      using R fresh \<open>p \<in> live h\<close> by (auto simp: hz_retired_ok_def hz_retire_def)
  next
    fix a b assume "a < nrecs (hdom (hz_retire i p h))" "b < nrecs (hdom (hz_retire i p h))" "a \<noteq> b"
    then have "set (retired_of (hdom h) a) \<inter> set (retired_of (hdom h) b) = {}"
      "p \<notin> set (retired_of (hdom h) a)" "p \<notin> set (retired_of (hdom h) b)"
      using R fresh by (auto simp: hz_retired_ok_def hz_retire_def)
    then show "set (retired_of (hdom (hz_retire i p h)) a) \<inter> set (retired_of (hdom (hz_retire i p h)) b) = {}"
      using \<open>a \<noteq> b\<close> by (auto simp: hz_retire_def)
  qed (use R in \<open>auto simp: hz_retired_ok_def hz_retire_def\<close>)
  moreover have "hz_valid_ok (hz_retire i p h)"
    using inv by (simp add: hz_inv_def hz_valid_ok_def hz_retire_def)
  moreover have "hz_scan_ok (hz_retire i p h)"
    using inv i by (auto simp: hz_inv_def hz_scan_ok_def hz_retire_def)
  ultimately show ?thesis by (simp add: hz_inv_def)
qed

lemma hz_inv_scan_start:
  assumes "hz_inv h" "i < nrecs (hdom h)"
  shows "hz_inv (hz_scan_start i h)"
  using assms by (fastforce simp: hz_inv_defs hz_scan_start_def slots_from_set)

lemma hz_scan_okD:
  assumes "hz_inv h" "scanning h i = Some (todo, held)"
  shows "i < nrecs (hdom h)"
    and "(a, j) \<in> valid h \<Longrightarrow> slot_of (hdom h) a j = Some p \<Longrightarrow> p \<in> set (retired_of (hdom h) i) \<Longrightarrow>
      (a, j) \<in> set todo \<or> p \<in> set held"
  using assms unfolding hz_inv_def hz_scan_ok_def by blast+

lemma hz_inv_scan_read:
  assumes inv: "hz_inv h" and sc: "scanning h i = Some (ij # todo, held)"
  shows "hz_inv (hz_scan_read i h)"
proof -
  have eq: "hz_scan_read i h = h\<lparr>scanning := (scanning h)(i \<mapsto> (todo, read_slot (hdom h) ij held))\<rparr>"
    using sc by (simp add: hz_scan_read_def)
  have read: "set held \<subseteq> set (read_slot (hdom h) ij held)"
    "slot_of (hdom h) (fst ij) (snd ij) = Some p \<Longrightarrow> p \<in> set (read_slot (hdom h) ij held)" for p
    by (auto simp: read_slot_def split: option.splits)
  have "(a, j) \<in> set todo \<or> p \<in> set (read_slot (hdom h) ij held)"
    if "(a, j) \<in> valid h" "slot_of (hdom h) a j = Some p" "p \<in> set (retired_of (hdom h) i)" for a j p
    using hz_scan_okD(2) [OF inv sc that] read that(2) by auto
  then have "hz_scan_ok (hz_scan_read i h)"
    using hz_scan_okD [OF inv] sc by (auto simp: hz_scan_ok_def eq)
  then show ?thesis
    using inv by (simp add: hz_inv_def eq hz_retired_ok_def hz_valid_ok_def)
qed

lemma hz_scan_done:
  assumes "hz_inv h" "scanning h i = Some ([], held)" "(a, j) \<in> valid h" "slot_of (hdom h) a j = Some p"
  shows "p \<notin> set (hz_frees i h)"
  using hz_scan_okD(2) [OF assms] assms(2) by (auto simp: hz_frees_def unheld_def)

lemma hz_inv_scan_end:
  assumes inv: "hz_inv h" and sc: "scanning h i = Some ([], held)"
  shows "hz_inv (hz_scan_end i h)"
proof -
  have i: "i < nrecs (hdom h)" using hz_scan_okD(1) [OF inv sc] .
  have R: "hz_retired_ok h" and V: "hz_valid_ok h" using inv by (auto simp: hz_inv_def)
  have disj: "set (retired_of (hdom h) a) \<inter> set (retired_of (hdom h) i) = {}"
    if "a < nrecs (hdom h)" "a \<noteq> i" for a
    using R i that by (simp add: hz_retired_ok_def)
  have ret: "set (retired_of (hdom (hz_scan_end i h)) a) \<subseteq> set (retired_of (hdom h) a) - set (hz_frees i h)"
    "distinct (retired_of (hdom (hz_scan_end i h)) a)" if "a < nrecs (hdom h)" for a
  proof -
    have "distinct (retired_of (hdom h) a)" using R that by (simp add: hz_retired_ok_def)
    then show "distinct (retired_of (hdom (hz_scan_end i h)) a)"
      using sc by (auto simp: hz_scan_end_def kept_def)
    show "set (retired_of (hdom (hz_scan_end i h)) a) \<subseteq> set (retired_of (hdom h) a) - set (hz_frees i h)"
      using disj [OF that] sc by (cases "a = i") (auto simp: hz_scan_end_def kept_def hz_frees_def unheld_def)
  qed
  have other: "nrecs (hdom (hz_scan_end i h)) = nrecs (hdom h)" "shared (hz_scan_end i h) = shared h"
    "live (hz_scan_end i h) = live h - set (hz_frees i h)" "valid (hz_scan_end i h) = valid h"
    "scanning (hz_scan_end i h) = (scanning h)(i := None)"
    "slot_of (hdom (hz_scan_end i h)) a j = slot_of (hdom h) a j" for a j
    using sc by (simp_all add: hz_scan_end_def)
  have frees: "set (hz_frees i h) \<inter> shared h = {}"
    using R i sc by (auto simp: hz_frees_def unheld_def hz_retired_ok_def)
  have "hz_retired_ok (hz_scan_end i h)"
    unfolding hz_retired_ok_def other
  proof (intro conjI allI impI)
    fix a assume a: "a < nrecs (hdom h)"
    then have "set (retired_of (hdom h) a) \<subseteq> live h - shared h" using R by (simp add: hz_retired_ok_def)
    then show "distinct (retired_of (hdom (hz_scan_end i h)) a)"
      and "set (retired_of (hdom (hz_scan_end i h)) a) \<subseteq> live h - set (hz_frees i h) - shared h"
      using ret [OF a] by auto
  next
    fix a b assume ab: "a < nrecs (hdom h)" "b < nrecs (hdom h)" "a \<noteq> b"
    then have "set (retired_of (hdom h) a) \<inter> set (retired_of (hdom h) b) = {}"
      using R by (simp add: hz_retired_ok_def)
    then show "set (retired_of (hdom (hz_scan_end i h)) a) \<inter> set (retired_of (hdom (hz_scan_end i h)) b) = {}"
      using ret(1) [OF ab(1)] ret(1) [OF ab(2)] by auto
  next
    show "shared h \<subseteq> live h - set (hz_frees i h)" using R frees by (auto simp: hz_retired_ok_def)
  qed
  moreover have "hz_valid_ok (hz_scan_end i h)"
    using V hz_scan_done [OF inv sc] unfolding hz_valid_ok_def other by fastforce
  moreover have "hz_scan_ok (hz_scan_end i h)"
    unfolding hz_scan_ok_def other
  proof (intro allI impI conjI)
    fix b todo held'
    assume b: "((scanning h)(i := None)) b = Some (todo, held')"
    then have b': "scanning h b = Some (todo, held')" by (auto split: if_splits)
    show bn: "b < nrecs (hdom h)" using hz_scan_okD(1) [OF inv b'] .
    fix a j p assume "(a, j) \<in> valid h" "slot_of (hdom h) a j = Some p"
      "p \<in> set (retired_of (hdom (hz_scan_end i h)) b)"
    then show "(a, j) \<in> set todo \<or> p \<in> set held'"
      using hz_scan_okD(2) [OF inv b', of a j p] ret(1) [OF bn] by auto
  qed
  ultimately show ?thesis by (simp add: hz_inv_def)
qed

lemma hz_step_inv: "hz_inv h \<Longrightarrow> hz_step h es h' \<Longrightarrow> hz_inv h'"
  by (erule hz_step.cases)
    (auto intro: hz_inv_publish hz_inv_new hz_inv_active hz_inv_store hz_inv_validate hz_inv_retire
      hz_inv_scan_start hz_inv_scan_read hz_inv_scan_end)

interpretation hazard: machine "\<lambda>h. h = hz_start" hz_step hz_inv
  by unfold_locales (auto intro: hz_inv_start hz_step_inv)

section \<open>Operations run alone\<close>

lemma hz_scan_reads_run:
  "scanning h i = Some (todo, held) \<Longrightarrow>
   run hz_step h [] (h\<lparr>scanning := (scanning h)(i \<mapsto> ([], fold (read_slot (hdom h)) todo held))\<rparr>)"
proof (induction todo arbitrary: h held)
  case Nil
  then have same: "h\<lparr>scanning := (scanning h)(i \<mapsto> ([], held))\<rparr> = h" by (cases h) (simp add: fun_upd_idem)
  show ?case unfolding fold_simps(1) same by (rule run_start)
next
  case (Cons ij todo)
  let ?h = "h\<lparr>scanning := (scanning h)(i \<mapsto> (todo, read_slot (hdom h) ij held))\<rparr>"
  have "hz_step h [] ?h"
    using hz_step.scan_read [OF Cons.prems] Cons.prems by (simp add: hz_scan_read_def)
  then show ?case
    using run_trans [OF Cons.IH [of ?h "read_slot (hdom h) ij held"] run_single [of hz_step h "[]"]]
    by (simp del: fun_upd_apply) (simp add: fun_upd_def)
qed

lemma hz_scan_run:
  assumes "i < nrecs (hdom h)" "scanning h i = None"
  shows "run hz_step h (map Freed (fst (scan i (hdom h))))
    (h\<lparr>hdom := snd (scan i (hdom h)), live := live h - set (fst (scan i (hdom h)))\<rparr>)"
proof -
  let ?h1 = "hz_scan_start i h"
  let ?held = "fold (read_slot (hdom h)) (slots_from (nrecs (hdom h))) []"
  let ?h2 = "?h1\<lparr>scanning := (scanning ?h1)(i \<mapsto> ([], ?held))\<rparr>"
  have "run hz_step h [] ?h1" using hz_step.scan_start [OF assms] by (rule run_single)
  moreover have "run hz_step ?h1 [] ?h2"
    using hz_scan_reads_run [of ?h1 i "slots_from (nrecs (hdom h))" "[]"] by (simp add: hz_scan_start_def)
  moreover have "run hz_step ?h2 (map Freed (hz_frees i ?h2)) (hz_scan_end i ?h2)"
    using hz_step.scan_end [of ?h2 i] by (intro run_single) simp
  ultimately have "run hz_step h (map Freed (hz_frees i ?h2)) (hz_scan_end i ?h2)"
    using run_trans [of hz_step ?h1 "[]" ?h2 h "[]"] run_trans [of hz_step ?h2 _ "hz_scan_end i ?h2" h "[]"]
    unfolding append_Nil by blast
  moreover have "hz_frees i ?h2 = fst (scan i (hdom h))"
    by (simp add: hz_frees_def scan_def Let_def hz_scan_start_def)
  moreover have "hz_scan_end i ?h2 =
      h\<lparr>hdom := snd (scan i (hdom h)), live := live h - set (fst (scan i (hdom h)))\<rparr>"
    using assms(2) by (cases h) (simp add: hz_scan_end_def hz_frees_def scan_def Let_def
        hz_scan_start_def fun_upd_idem)
  ultimately show ?thesis by simp
qed

section \<open>Schedules\<close>

datatype 'n hz_choice = Alloc 'n | NewRec | Reuse nat | Store nat nat "'n option" | Validate nat nat
  | Retire nat 'n | ScanStart nat | ScanRead nat | ScanEnd nat | Release nat

definition guarded :: "bool \<Rightarrow> 'e list \<Rightarrow> 's \<Rightarrow> ('e list \<times> 's) option" where
  "guarded b es t = (if b then Some (es, t) else None)"

fun hz_act :: "'n hz_choice \<Rightarrow> 'n hz_sys \<Rightarrow> ('n hz_event list \<times> 'n hz_sys) option" where
  "hz_act (Alloc p) h = guarded (p \<notin> live h) [] (hz_publish p h)"
| "hz_act NewRec h = guarded True [] (hz_new h)"
| "hz_act (Reuse i) h = guarded (i < nrecs (hdom h) \<and> \<not> active (recs (hdom h) i)) [] (hz_reuse i h)"
| "hz_act (Store i j v) h = guarded (i < nrecs (hdom h)) [] (hz_store i j v h)"
| "hz_act (Validate i j) h = guarded (i < nrecs (hdom h) \<and> j < kSlots \<and>
     (case slot_of (hdom h) i j of None \<Rightarrow> False | Some p \<Rightarrow> p \<in> shared h)) [] (hz_validate i j h)"
| "hz_act (Retire i p) h = guarded (i < nrecs (hdom h) \<and> scanning h i = None \<and> p \<in> shared h)
     [Retired p] (hz_retire i p h)"
| "hz_act (ScanStart i) h = guarded (i < nrecs (hdom h) \<and> scanning h i = None) [] (hz_scan_start i h)"
| "hz_act (ScanRead i) h = guarded (case scanning h i of Some (_ # _, _) \<Rightarrow> True | _ \<Rightarrow> False) []
     (hz_scan_read i h)"
| "hz_act (ScanEnd i) h = guarded (case scanning h i of Some ([], _) \<Rightarrow> True | _ \<Rightarrow> False)
     (map Freed (hz_frees i h)) (hz_scan_end i h)"
| "hz_act (Release i) h = guarded (i < nrecs (hdom h) \<and> scanning h i = None) [] (hz_release i h)"

interpretation hz_sched: scheduled hz_act hz_step
proof
  show "hz_step h es h'" if "hz_act c h = Some (es, h')" for c es and h h' :: "'n hz_sys"
    using that
    by (cases c) (auto simp: guarded_def split: if_splits option.splits list.splits prod.splits
        intro: hz_step.intros)
  show "\<exists>c. hz_act c h = Some (es, h')" if "hz_step h es h'" for es and h h' :: "'n hz_sys"
    using that
  proof (cases rule: hz_step.cases)
    case (publish p)
    then show ?thesis by (intro exI [of _ "Alloc p"]) (simp add: guarded_def)
  next
    case new_rec
    then show ?thesis by (intro exI [of _ NewRec]) (simp add: guarded_def)
  next
    case (reuse i)
    then show ?thesis by (intro exI [of _ "Reuse i"]) (simp add: guarded_def)
  next
    case (store i j v)
    then show ?thesis by (intro exI [of _ "Store i j v"]) (simp add: guarded_def)
  next
    case (validate i j p)
    then show ?thesis by (intro exI [of _ "Validate i j"]) (simp add: guarded_def)
  next
    case (retire i p)
    then show ?thesis by (intro exI [of _ "Retire i p"]) (simp add: guarded_def)
  next
    case (scan_start i)
    then show ?thesis by (intro exI [of _ "ScanStart i"]) (simp add: guarded_def)
  next
    case (scan_read i)
    then show ?thesis by (intro exI [of _ "ScanRead i"]) (simp add: guarded_def)
  next
    case (scan_end i)
    then show ?thesis by (intro exI [of _ "ScanEnd i"]) (simp add: guarded_def)
  next
    case (release i)
    then show ?thesis by (intro exI [of _ "Release i"]) (simp add: guarded_def)
  qed
qed

text \<open>
  A schedule on which the promises are shown to be about something: two threads, one of which
  protects node 8; the other retires node 7 and then 8, and scans.
\<close>

definition hz_demo :: "nat hz_choice list \<Rightarrow> nat hz_event list \<times> nat hz_sys" where
  "hz_demo cs = the (exec hz_act cs hz_start)"

definition hz_scanned :: "nat hz_choice list" where
  "hz_scanned = [NewRec, NewRec, Alloc 7, Alloc 8, Store 1 1 (Some 8), Validate 1 1, Retire 0 7,
     Retire 0 8, ScanStart 0, ScanRead 0, ScanRead 0, ScanRead 0, ScanRead 0]"

lemma hz_demo_run:
  "exec hz_act cs hz_start \<noteq> None \<Longrightarrow> run hz_step hz_start (fst (hz_demo cs)) (snd (hz_demo cs))"
  using hz_sched.exec_run by (auto simp: hz_demo_def)

lemma hz_demo_defined: "exec hz_act hz_scanned hz_start \<noteq> None"
  unfolding is_some_iff [symmetric] by code_simp

section \<open>The domain's promises\<close>

lemma read_slots_held:
  "set (fold (read_slot D) ps held) = set held \<union> {p. \<exists>(i, j) \<in> set ps. slot_of D i j = Some p}"
  by (induction ps arbitrary: held) (auto simp: read_slot_def split: option.splits)

lemma read_slots_length: "length (fold (read_slot D) ps held) \<le> length held + length ps"
proof (induction ps arbitrary: held)
  case (Cons ij ps)
  have "length (read_slot D ij held) \<le> Suc (length held)" by (simp add: read_slot_def split: option.splits)
  then show ?case using Cons [of "read_slot D ij held"] by simp
qed simp

lemma slots_from_length: "length (slots_from n) = kSlots * n"
  by (induction n) (auto simp: slots_from_def)

lemma kept_length:
  assumes "distinct ps"
  shows "length (kept held ps) \<le> length held"
proof -
  have "length (kept held ps) = card (set (kept held ps))"
    using distinct_card [of "kept held ps"] assms by (simp add: kept_def)
  also have "\<dots> \<le> card (set held)" by (intro card_mono) (auto simp: kept_def)
  finally show ?thesis using card_length [of held] by linarith
qed

lemma scan_frees:
  "set (fst (scan i D)) =
     {q \<in> set (retired_of D i). \<forall>a < nrecs D. \<forall>j < kSlots. slot_of D a j \<noteq> Some q}"
  "set (retired_of (snd (scan i D)) i) = set (retired_of D i) - set (fst (scan i D))"
  by (auto simp: scan_def Let_def unheld_def kept_def read_slots_held slots_from_set)

lemma scan_keeps:
  "distinct (retired_of D i) \<Longrightarrow> length (retired_of (snd (scan i D)) i) \<le> kSlots * nrecs D"
  using kept_length [of "retired_of D i" "fold (read_slot D) (slots_from (nrecs D)) []"]
    read_slots_length [of D "slots_from (nrecs D)" "[]"]
  by (simp add: scan_def Let_def slots_from_length)

text \<open>
  The books of the domain: the retirements of an address are its frees and the entries of the
  retired lists that hold it.
\<close>

definition to_free :: "'n hz_sys \<Rightarrow> 'n \<Rightarrow> nat" where
  "to_free h p = (\<Sum>i<nrecs (hdom h). count_list (retired_of (hdom h) i) p)"

lemma to_free_upd:
  assumes "i < nrecs (hdom h)" "nrecs (hdom h') = nrecs (hdom h)"
    "\<And>a. a \<noteq> i \<Longrightarrow> retired_of (hdom h') a = retired_of (hdom h) a"
  shows "to_free h' p + count_list (retired_of (hdom h) i) p = to_free h p + count_list (retired_of (hdom h') i) p"
proof -
  have "(\<Sum>a\<in>{..<nrecs (hdom h)} - {i}. count_list (retired_of (hdom h') a) p)
      = (\<Sum>a\<in>{..<nrecs (hdom h)} - {i}. count_list (retired_of (hdom h) a) p)"
    by (intro sum.cong) (auto simp: assms(3))
  then show ?thesis
    using assms(1,2) by (simp add: to_free_def sum.remove [of "{..<nrecs (hdom h)}" i])
qed

lemma count_kept_unheld: "count_list (unheld held ps) p + count_list (kept held ps) p = count_list ps p"
  by (induction ps) (auto simp: unheld_def kept_def)

lemma count_freed [simp]:
  "count_list (map Freed ps) (Freed p) = count_list ps p" "count_list (map Freed ps) (Retired p) = 0"
  by (induction ps) auto

lemma hz_step_books:
  assumes "hz_step h es h'" "hz_inv h"
  shows "count_list es (Retired p) + to_free h p = count_list es (Freed p) + to_free h' p"
  using assms(1)
proof (cases rule: hz_step.cases)
  case (retire i q)
  then have "to_free h' p + count_list (retired_of (hdom h) i) p = to_free h p + count_list (retired_of (hdom h) i @ [q]) p"
    using to_free_upd [of i h h' p] by (simp add: hz_retire_def)
  then show ?thesis using retire by simp
next
  case (scan_end i held)
  have "i < nrecs (hdom h)" using hz_scan_okD(1) [OF assms(2) scan_end(3)] .
  then have "to_free h' p + count_list (retired_of (hdom h) i) p
      = to_free h p + count_list (kept held (retired_of (hdom h) i)) p"
    using to_free_upd [of i h h' p] scan_end by (simp add: hz_scan_end_def)
  then show ?thesis
    using scan_end count_kept_unheld [of held "retired_of (hdom h) i" p] by (simp add: hz_frees_def)
qed (auto simp: to_free_def hz_publish_def hz_new_def hz_reuse_def hz_store_def hz_validate_def
    hz_scan_start_def hz_scan_read_def hz_release_def split: option.splits list.splits)

lemma hz_run_books_from:
  "run hz_step g es h \<Longrightarrow> hz_inv g \<Longrightarrow> count_list es (Retired p) + to_free g p = count_list es (Freed p) + to_free h p"
proof (induction rule: run.induct)
  case (run_snoc g es h fs h')
  then show ?case using hz_step_books [of h fs h' p] hazard.run_inv_from [of g es h] by simp
qed simp

lemma hz_run_books: "run hz_step hz_start es h \<Longrightarrow> count_list es (Retired p) = count_list es (Freed p) + to_free h p"
  using hz_run_books_from [of hz_start es h p] hz_inv_start by (simp add: to_free_def hz_start_def)

lemma none_to_free:
  assumes "hz_inv h" "p \<notin> live h"
  shows "to_free h p = 0"
  using assms by (auto simp: to_free_def hz_inv_def hz_retired_ok_def count_list_0_iff)

text \<open>
  C3. No node is freed under a reader, and none twice: in every interleaving of any number of
  threads that protect, retire and scan, when a scan frees a node, no slot that a \<open>protect\<close> has
  returned on holds it, and the node is one that was retired, is still allocated and is not
  reachable. One scan frees no node twice, and once it has freed a node, the address has been
  freed exactly as often as it has been retired: every retirement is freed once. Addresses may be
  reused after they are freed.
\<close>

theorem hz_never_frees_protected:
  assumes "run hz_step hz_start es h" and "hz_step h fs h'" and "Freed p \<in> set fs"
  shows "(\<forall>(i, j) \<in> valid h. slot_of (hdom h) i j \<noteq> Some p) \<and>
    p \<in> live h - shared h \<and> p \<notin> live h' \<and> distinct fs \<and>
    count_list (es @ fs) (Freed p) = count_list (es @ fs) (Retired p)"
proof -
  have inv: "hz_inv h" using hazard.run_inv assms(1) by blast
  from assms(2,3) obtain i held where sc: "scanning h i = Some ([], held)"
    and p: "p \<in> set (hz_frees i h)" and h': "h' = hz_scan_end i h" and fs: "fs = map Freed (hz_frees i h)"
    by (cases rule: hz_step.cases) auto
  have i: "i < nrecs (hdom h)" using hz_scan_okD(1) [OF inv sc] .
  have "p \<in> set (retired_of (hdom h) i)" using p sc by (auto simp: hz_frees_def unheld_def)
  then have "p \<in> live h - shared h" using inv i by (auto simp: hz_inv_def hz_retired_ok_def)
  moreover have dead: "p \<notin> live h'" using p sc by (simp add: h' hz_scan_end_def)
  moreover have "distinct fs"
  proof -
    have "distinct (retired_of (hdom h) i)" using inv i by (auto simp: hz_inv_def hz_retired_ok_def)
    then have "distinct (hz_frees i h)" using sc by (simp add: hz_frees_def unheld_def)
    then show ?thesis by (simp add: fs distinct_map inj_on_def)
  qed
  moreover have "count_list (es @ fs) (Freed p) = count_list (es @ fs) (Retired p)"
  proof -
    have "to_free h' p = 0" using none_to_free [OF hz_step_inv [OF inv assms(2)] dead] .
    then show ?thesis using hz_run_books [OF run_snoc [OF assms(1,2)], of p] by simp
  qed
  ultimately show ?thesis using hz_scan_done [OF inv sc] p by auto
qed

theorem hz_never_frees_protected_witness:
  "(let h = snd (hz_demo hz_scanned); h' = hz_scan_end 0 h; es = fst (hz_demo hz_scanned) @ [Freed 7] in
    hz_frees 0 h = [7] \<and> valid h = {(1, 1)} \<and> (\<forall>(i, j) \<in> valid h. slot_of (hdom h) i j \<noteq> Some 7) \<and> 7 \<notin> live h' \<and>
    count_list es (Freed 7) = count_list es (Retired 7) \<and> count_list es (Retired 7) = 1)"
proof -
  let ?h = "snd (hz_demo hz_scanned)" and ?es = "fst (hz_demo hz_scanned)"
  have sc: "scanning ?h 0 = Some ([], [8]) \<and> hz_frees 0 ?h = [7]" by code_simp
  have v: "valid ?h = {(1, 1)}" by code_simp
  have one: "count_list (?es @ [Freed 7]) (Retired 7) = 1" by code_simp
  have "hz_step ?h [Freed 7] (hz_scan_end 0 ?h)" using hz_step.scan_end [of ?h 0] sc by simp
  from hz_never_frees_protected [OF hz_demo_run [OF hz_demo_defined] this, of 7] sc v one show ?thesis
    by (simp add: Let_def)
qed

text \<open>
  C22. Reclamation is complete up to what is held: a scan frees exactly the record's retired
  nodes that no slot of any record holds and keeps the others, of which there are at most as
  many as there are slots; so a record never keeps more than the scan threshold or that many.
\<close>

theorem hz_scan_bounded:
  assumes "distinct (retired_of D i)" and "p \<notin> set (retired_of D i)"
  shows "set (fst (scan i D)) =
      {q \<in> set (retired_of D i). \<forall>a < nrecs D. \<forall>j < kSlots. slot_of D a j \<noteq> Some q} \<and>
    set (retired_of (snd (scan i D)) i) = set (retired_of D i) - set (fst (scan i D)) \<and>
    length (retired_of (snd (scan i D)) i) \<le> kSlots * nrecs D \<and>
    length (retired_of (snd (retire i p D)) i) \<le> max (kScanAt - 1) (kSlots * nrecs D)"
  using scan_frees [of i D] scan_keeps [OF assms(1)]
    scan_keeps [of "set_retired i (retired_of D i @ [p]) D" i] assms
  by (auto simp: retire_def Let_def kScanAt_def not_le)

theorem hz_scan_bounded_witness:
  "(let D = hdom (snd (hz_demo hz_scanned)) in
    retired_of D 0 = [7, 8] \<and> fst (scan 0 D) = [7] \<and> set (retired_of (snd (scan 0 D)) 0) = {8} \<and>
    length (retired_of (snd (scan 0 D)) 0) \<le> 4 \<and> length (retired_of (snd (retire 0 9 D)) 0) \<le> 7)"
proof -
  let ?D = "hdom (snd (hz_demo hz_scanned))"
  have "retired_of ?D 0 = [7, 8] \<and> fst (scan 0 ?D) = [7] \<and> nrecs ?D = 2" by code_simp
  with hz_scan_bounded [of ?D 0 9] show ?thesis by (auto simp: Let_def kSlots_def kScanAt_def)
qed

end
