(* ===== verification/Spmc_Queue.thy ===== *)
theory Spmc_Queue
  imports Hazard
begin

text \<open>
  The queue for one producer and any number of consumers (runtime/spmc_queue.hpp): a list of
  segments whose cells the consumers claim with a compare-and-swap, reclaimed through the
  hazard-pointer domain of theory Hazard. First the data and the accesses, then the threads:
  every step is one access to shared memory, in any interleaving. A segment is an address;
  freed addresses are handed out again by the allocator.
\<close>

section \<open>Segments\<close>

record 'a segment =
  deq :: nat
  seen :: nat
  enq :: nat
  seg_next :: "nat option"
  cells :: "nat \<Rightarrow> 'a option"

record 'a spmc_queue =
  segs :: "nat \<Rightarrow> 'a segment"
  q_head :: nat
  q_tail :: nat
  q_filled :: nat

definition new_segment :: "'a segment" where
  "new_segment = \<lparr>deq = 0, seen = 0, enq = 0, seg_next = None, cells = (\<lambda>_. None)\<rparr>"

definition upd_seg :: "nat \<Rightarrow> ('a segment \<Rightarrow> 'a segment) \<Rightarrow> 'a spmc_queue \<Rightarrow> 'a spmc_queue" where
  "upd_seg a f q = q\<lparr>segs := (segs q)(a := f (segs q a))\<rparr>"

definition new_spmc :: "'a spmc_queue" where
  "new_spmc = \<lparr>segs = (\<lambda>_. new_segment), q_head = 0, q_tail = 0, q_filled = 0\<rparr>"

section \<open>The producer's accesses\<close>

text \<open>A full segment is published whole, then the fresh one at address \<open>a\<close> is linked after it.\<close>

definition publish_full :: "nat \<Rightarrow> 'a spmc_queue \<Rightarrow> 'a spmc_queue" where
  "publish_full k q = upd_seg (q_tail q) (\<lambda>s. s\<lparr>enq := k\<rparr>) q"

definition link_segment :: "nat \<Rightarrow> 'a spmc_queue \<Rightarrow> 'a spmc_queue" where
  "link_segment a q =
     (upd_seg (q_tail q) (\<lambda>s. s\<lparr>seg_next := Some a\<rparr>) (upd_seg a (\<lambda>_. new_segment) q))\<lparr>q_tail := a, q_filled := 0\<rparr>"

definition fill_cell :: "'a \<Rightarrow> 'a spmc_queue \<Rightarrow> 'a spmc_queue" where
  "fill_cell v q =
     (upd_seg (q_tail q) (\<lambda>s. s\<lparr>cells := (cells s)(q_filled q \<mapsto> v)\<rparr>) q)\<lparr>q_filled := Suc (q_filled q)\<rparr>"

definition spmc_publish :: "'a spmc_queue \<Rightarrow> 'a spmc_queue" where
  "spmc_publish q = upd_seg (q_tail q) (\<lambda>s. s\<lparr>enq := q_filled q\<rparr>) q"

text \<open>The operations as the code composes them, with the address the allocator returns.\<close>

definition spmc_push_deferred :: "nat \<Rightarrow> nat \<Rightarrow> 'a \<Rightarrow> 'a spmc_queue \<Rightarrow> 'a spmc_queue" where
  "spmc_push_deferred k a v q =
     fill_cell v (if q_filled q = k then link_segment a (publish_full k q) else q)"

definition spmc_push :: "nat \<Rightarrow> nat \<Rightarrow> 'a \<Rightarrow> 'a spmc_queue \<Rightarrow> 'a spmc_queue" where
  "spmc_push k a v q = spmc_publish (spmc_push_deferred k a v q)"

section \<open>The destructor\<close>

text \<open>
  The elements destroyed and the segments freed, from the head on; the fuel is the number of
  segments there can be.
\<close>

fun spmc_destroy_from ::
    "nat \<Rightarrow> 'a spmc_queue \<Rightarrow> nat \<Rightarrow> nat \<Rightarrow> ('a option list \<times> nat list) option" where
  "spmc_destroy_from 0 q a from = None"
| "spmc_destroy_from (Suc fuel) q a from =
     (let to = (if a = q_tail q then q_filled q else enq (segs q a));
          es = map (cells (segs q a)) [from..<to]
      in case seg_next (segs q a) of None \<Rightarrow> Some (es, [a])
         | Some n \<Rightarrow> map_option (\<lambda>(fs, as). (es @ fs, a # as)) (spmc_destroy_from fuel q n 0))"

definition spmc_destroy :: "nat \<Rightarrow> 'a spmc_queue \<Rightarrow> ('a option list \<times> nat list) option" where
  "spmc_destroy fuel q = spmc_destroy_from fuel q (q_head q) (deq (segs q (q_head q)))"

section \<open>Threads\<close>

text \<open>
  The producer: about to publish the full segment, to link the next one, to fill its cell, to
  publish. The flag says whether the call publishes (\<open>push\<close>) or not (\<open>push_deferred\<close>).
\<close>

datatype 'a push_pc = PIdle | PFull 'a bool | PLink 'a bool | PFill 'a bool | PPublish

text \<open>
  A consumer, named by its hazard record: the access it makes next, with the segment it works
  on (\<open>h\<close>), the claim index and the published count it has read (\<open>d\<close>, \<open>e\<close>). \<open>QGone\<close> is a
  record without a thread; the last three are the end of a thread.
\<close>

datatype pop_pc =
    QGone | QIdle
  | QHead | QProtect | QStore nat | QAgain nat
  | QDeq nat | QSeen nat nat | QEnq nat nat | QTell nat nat nat | QCas nat nat nat | QTake nat nat
  | QNext nat | QSwing nat nat
  | QScan bool | QScanning bool | QClear nat | QRelease

text \<open>
  The threads, and what they have done: the elements pushed in order, how many were claimed,
  the segments from the head to the tail, and the number of each segment's first element.
\<close>

record 'a spmc_sys =
  queue :: "'a spmc_queue"
  hz :: "nat hz_sys"
  pushing :: "'a push_pc"
  popping :: "nat \<Rightarrow> pop_pc"
  pushed :: "'a list"
  popped :: nat
  path :: "nat list"
  base :: "nat \<Rightarrow> nat"

definition spmc_start :: "'a spmc_sys" where
  "spmc_start = \<lparr>queue = new_spmc, hz = hz_publish 0 hz_start, pushing = PIdle, popping = (\<lambda>_. QGone),
     pushed = [], popped = 0, path = [0], base = (\<lambda>_. 0)\<rparr>"

abbreviation seg_at :: "'a spmc_sys \<Rightarrow> nat \<Rightarrow> 'a segment" where
  "seg_at s a \<equiv> segs (queue s) a"

abbreviation tail_seg :: "'a spmc_sys \<Rightarrow> 'a segment" where
  "tail_seg s \<equiv> seg_at s (q_tail (queue s))"

definition published :: "'a spmc_sys \<Rightarrow> nat" where
  "published s = base s (q_tail (queue s)) + enq (tail_seg s)"

definition goto :: "nat \<Rightarrow> pop_pc \<Rightarrow> 'a spmc_sys \<Rightarrow> 'a spmc_sys" where
  "goto r pc s = s\<lparr>popping := (popping s)(r := pc)\<rparr>"

subsection \<open>The producer's steps\<close>

definition push_call :: "nat \<Rightarrow> 'a \<Rightarrow> bool \<Rightarrow> 'a spmc_sys \<Rightarrow> 'a spmc_sys" where
  "push_call k v pub s = s\<lparr>pushing := if q_filled (queue s) = k then PFull v pub else PFill v pub\<rparr>"

definition do_full :: "nat \<Rightarrow> 'a \<Rightarrow> bool \<Rightarrow> 'a spmc_sys \<Rightarrow> 'a spmc_sys" where
  "do_full k v pub s = s\<lparr>queue := publish_full k (queue s), pushing := PLink v pub\<rparr>"

definition do_link :: "nat \<Rightarrow> 'a \<Rightarrow> bool \<Rightarrow> 'a spmc_sys \<Rightarrow> 'a spmc_sys" where
  "do_link a v pub s =
     s\<lparr>queue := link_segment a (queue s), hz := hz_publish a (hz s), pushing := PFill v pub,
       path := path s @ [a], base := (base s)(a := length (pushed s))\<rparr>"

definition do_fill :: "'a \<Rightarrow> bool \<Rightarrow> 'a spmc_sys \<Rightarrow> 'a spmc_sys" where
  "do_fill v pub s =
     s\<lparr>queue := fill_cell v (queue s), pushing := if pub then PPublish else PIdle, pushed := pushed s @ [v]\<rparr>"

definition do_publish :: "'a spmc_sys \<Rightarrow> 'a spmc_sys" where
  "do_publish s = s\<lparr>queue := spmc_publish (queue s), pushing := PIdle\<rparr>"

definition unpublished :: "'a spmc_sys \<Rightarrow> 'a qevent list" where
  "unpublished s = map Enq (drop (published s) (pushed s))"

subsection \<open>A consumer's steps\<close>

abbreviation hz_slot :: "'a spmc_sys \<Rightarrow> nat \<Rightarrow> nat option" where
  "hz_slot s r \<equiv> slot_of (hdom (hz s)) r kPopSlot"

text \<open>\<open>held_head\<close>: the head if the slot already holds it, else \<open>hazard::protect\<close>.\<close>

definition load_head :: "nat \<Rightarrow> 'a spmc_sys \<Rightarrow> 'a spmc_sys" where
  "load_head r s =
     goto r (if hz_slot s r = Some (q_head (queue s)) then QDeq (q_head (queue s)) else QProtect) s"

definition store_hazard :: "nat \<Rightarrow> nat \<Rightarrow> 'a spmc_sys \<Rightarrow> 'a spmc_sys" where
  "store_hazard r p s = goto r (QAgain p) (s\<lparr>hz := hz_store r kPopSlot (Some p) (hz s)\<rparr>)"

definition load_again :: "nat \<Rightarrow> nat \<Rightarrow> 'a spmc_sys \<Rightarrow> 'a spmc_sys" where
  "load_again r p s =
     (if q_head (queue s) = p then goto r (QDeq p) (s\<lparr>hz := hz_validate r kPopSlot (hz s)\<rparr>)
      else goto r (QStore (q_head (queue s))) s)"

text \<open>The inner loop's choice: claim while the count known is ahead, else read the producer's.\<close>

definition claim_pc :: "nat \<Rightarrow> nat \<Rightarrow> nat \<Rightarrow> pop_pc" where
  "claim_pc h d e = (if d \<ge> e then QEnq h d else QCas h d e)"

definition load_enq :: "nat \<Rightarrow> nat \<Rightarrow> nat \<Rightarrow> nat \<Rightarrow> 'a spmc_sys \<Rightarrow> 'a qevent list \<times> 'a spmc_sys" where
  "load_enq k r h d s =
     (let e = enq (seg_at s h) in
      if d \<ge> e then if e < k then ([DeqEmpty], goto r QIdle s) else ([], goto r (QNext h) s)
      else ([], goto r (QTell h d e) s))"

definition store_seen :: "nat \<Rightarrow> nat \<Rightarrow> nat \<Rightarrow> nat \<Rightarrow> 'a spmc_sys \<Rightarrow> 'a spmc_sys" where
  "store_seen r h d e s = goto r (QCas h d e) (s\<lparr>queue := upd_seg h (\<lambda>x. x\<lparr>seen := e\<rparr>) (queue s)\<rparr>)"

text \<open>The weak compare-and-swap of the claim index, which may also fail for no reason.\<close>

definition cas_deq ::
    "bool \<Rightarrow> nat \<Rightarrow> nat \<Rightarrow> nat \<Rightarrow> nat \<Rightarrow> 'a spmc_sys \<Rightarrow> 'a qevent list \<times> 'a spmc_sys" where
  "cas_deq spurious r h d e s =
     (if deq (seg_at s h) = d \<and> \<not> spurious then
        ([Deq (the (cells (seg_at s h) d))],
         goto r (QTake h d) (s\<lparr>queue := upd_seg h (\<lambda>x. x\<lparr>deq := Suc d\<rparr>) (queue s), popped := Suc (popped s)\<rparr>))
      else ([], goto r (claim_pc h (deq (seg_at s h)) e) s))"

definition take_cell :: "nat \<Rightarrow> nat \<Rightarrow> nat \<Rightarrow> 'a spmc_sys \<Rightarrow> 'a spmc_sys" where
  "take_cell r h d s =
     goto r QIdle (s\<lparr>queue := upd_seg h (\<lambda>x. x\<lparr>cells := (cells x)(d := None)\<rparr>) (queue s)\<rparr>)"

definition load_next :: "nat \<Rightarrow> nat \<Rightarrow> 'a spmc_sys \<Rightarrow> 'a qevent list \<times> 'a spmc_sys" where
  "load_next r h s =
     (case seg_next (seg_at s h) of None \<Rightarrow> ([DeqEmpty], goto r QIdle s)
      | Some n \<Rightarrow> ([], goto r (QSwing h n) s))"

text \<open>The compare-and-swap of the head; the winner retires the segment it left, and scans when
  that makes eight.\<close>

definition cas_head :: "nat \<Rightarrow> nat \<Rightarrow> nat \<Rightarrow> 'a spmc_sys \<Rightarrow> 'a spmc_sys" where
  "cas_head r h n s =
     (if q_head (queue s) = h then
        let g = hz_retire r h (hz s)
        in goto r (if length (retired_of (hdom g) r) \<ge> kScanAt then QScan False else QHead)
             (s\<lparr>queue := (queue s)\<lparr>q_head := n\<rparr>, hz := g, path := tl (path s)\<rparr>)
      else goto r QHead s)"

definition scan_next :: "nat \<Rightarrow> bool \<Rightarrow> 'a spmc_sys \<Rightarrow> 'a spmc_sys" where
  "scan_next r leaving s =
     (case scanning (hz s) r of Some ([], _) \<Rightarrow>
        goto r (if leaving then QRelease else QHead) (s\<lparr>hz := hz_scan_end r (hz s)\<rparr>)
      | _ \<Rightarrow> s\<lparr>hz := hz_scan_read r (hz s)\<rparr>)"

text \<open>The owner's destructor clears the slots one after the other, scans, and gives up the record.\<close>

definition clear_slot :: "nat \<Rightarrow> nat \<Rightarrow> 'a spmc_sys \<Rightarrow> 'a spmc_sys" where
  "clear_slot r j s =
     goto r (if Suc j < kSlots then QClear (Suc j) else QScan True) (s\<lparr>hz := hz_store r j None (hz s)\<rparr>)"

fun consumer_step :: "nat \<Rightarrow> bool \<Rightarrow> nat \<Rightarrow> 'a spmc_sys \<Rightarrow> ('a qevent list \<times> 'a spmc_sys) option" where
  "consumer_step k spurious r s = (case popping s r of
     QGone \<Rightarrow> None
   | QIdle \<Rightarrow> Some ([], goto r QHead s)
   | QHead \<Rightarrow> Some ([], load_head r s)
   | QProtect \<Rightarrow> Some ([], goto r (QStore (q_head (queue s))) s)
   | QStore p \<Rightarrow> Some ([], store_hazard r p s)
   | QAgain p \<Rightarrow> Some ([], load_again r p s)
   | QDeq h \<Rightarrow> Some ([], goto r (QSeen h (deq (seg_at s h))) s)
   | QSeen h d \<Rightarrow> Some ([], goto r (claim_pc h d (seen (seg_at s h))) s)
   | QEnq h d \<Rightarrow> Some (load_enq k r h d s)
   | QTell h d e \<Rightarrow> Some ([], store_seen r h d e s)
   | QCas h d e \<Rightarrow> Some (cas_deq spurious r h d e s)
   | QTake h d \<Rightarrow> Some ([], take_cell r h d s)
   | QNext h \<Rightarrow> Some (load_next r h s)
   | QSwing h n \<Rightarrow> Some ([], cas_head r h n s)
   | QScan leaving \<Rightarrow> Some ([], goto r (QScanning leaving) (s\<lparr>hz := hz_scan_start r (hz s)\<rparr>))
   | QScanning leaving \<Rightarrow> Some ([], scan_next r leaving s)
   | QClear j \<Rightarrow> Some ([], clear_slot r j s)
   | QRelease \<Rightarrow> Some ([], goto r QGone (s\<lparr>hz := hz_release r (hz s)\<rparr>)))"

subsection \<open>All steps\<close>

text \<open>
  The choices of a schedule: a push (\<open>Push\<close>), a publish (\<open>Publish\<close>), a step of the push in
  progress with the address the allocator would return (\<open>Producer\<close>), a step of a consumer
  (\<open>Consumer\<close>; idle ones begin a pop), a thread that comes with a new record or a reused one, one
  that ends, and a store to the push slot of a record by an operation on another queue.
\<close>

datatype 'a spmc_choice = Push 'a bool | Publish | Producer nat | Consumer nat bool
  | NewThread | ReuseRecord nat | EndThread nat | OtherQueue nat "nat option"

fun producer_step :: "nat \<Rightarrow> nat \<Rightarrow> 'a spmc_sys \<Rightarrow> ('a qevent list \<times> 'a spmc_sys) option" where
  "producer_step k a s = (case pushing s of
     PIdle \<Rightarrow> None
   | PFull v pub \<Rightarrow> Some (unpublished s, do_full k v pub s)
   | PLink v pub \<Rightarrow> (if a \<in> live (hz s) then None else Some ([], do_link a v pub s))
   | PFill v pub \<Rightarrow> Some ([], do_fill v pub s)
   | PPublish \<Rightarrow> Some (unpublished s, do_publish s))"

fun spmc_act :: "nat \<Rightarrow> 'a spmc_choice \<Rightarrow> 'a spmc_sys \<Rightarrow> ('a qevent list \<times> 'a spmc_sys) option" where
  "spmc_act k (Push v pub) s = (if pushing s = PIdle then Some ([], push_call k v pub s) else None)"
| "spmc_act k Publish s = (if pushing s = PIdle then Some (unpublished s, do_publish s) else None)"
| "spmc_act k (Producer a) s = producer_step k a s"
| "spmc_act k (Consumer r spurious) s =
     (if r < nrecs (hdom (hz s)) then consumer_step k spurious r s else None)"
| "spmc_act k NewThread s = Some ([], goto (nrecs (hdom (hz s))) QIdle (s\<lparr>hz := hz_new (hz s)\<rparr>))"
| "spmc_act k (ReuseRecord r) s =
     (if r < nrecs (hdom (hz s)) \<and> popping s r = QGone
      then Some ([], goto r QIdle (s\<lparr>hz := hz_reuse r (hz s)\<rparr>)) else None)"
| "spmc_act k (EndThread r) s =
     (if r < nrecs (hdom (hz s)) \<and> popping s r = QIdle then Some ([], goto r (QClear 0) s) else None)"
| "spmc_act k (OtherQueue r v) s =
     (if r < nrecs (hdom (hz s)) then Some ([], s\<lparr>hz := hz_store r kPushSlot v (hz s)\<rparr>) else None)"

inductive spmc_step :: "nat \<Rightarrow> 'a spmc_sys \<Rightarrow> 'a qevent list \<Rightarrow> 'a spmc_sys \<Rightarrow> bool" for k where
  choose: "spmc_act k c s = Some (es, t) \<Longrightarrow> spmc_step k s es t"

definition spmc_content :: "'a spmc_sys \<Rightarrow> 'a list" where
  "spmc_content s = drop (popped s) (take (published s) (pushed s))"

end
