(* ===== verification/Spmc_Correct.thy ===== *)
theory Spmc_Correct
  imports Spmc_Queue
begin

text \<open>
  The multi-consumer queue in every interleaving: its invariant, that it implements the queue
  interface, and that no thread ever touches a freed segment.
\<close>

section \<open>The invariant\<close>

text \<open>
  A consumer that has protected a segment holds it: its slot is valid, and the segment is the
  head or one the head has left, never one still ahead of it.
\<close>

definition holds :: "'a spmc_sys \<Rightarrow> nat \<Rightarrow> nat \<Rightarrow> bool" where
  "holds s r h \<longleftrightarrow>
     (r, kPopSlot) \<in> valid (hz s) \<and> hz_slot s r = Some h \<and> h \<notin> set (tl (path s))"

definition settled :: "'a spmc_sys \<Rightarrow> nat \<Rightarrow> bool" where
  "settled s r \<longleftrightarrow> (\<forall>h. hz_slot s r = Some h \<longrightarrow> holds s r h)"

definition pc_ok :: "nat \<Rightarrow> 'a spmc_sys \<Rightarrow> nat \<Rightarrow> pop_pc \<Rightarrow> bool" where
  "pc_ok k s r pc = (case pc of
     QGone \<Rightarrow> hz_slot s r = None
   | QIdle \<Rightarrow> settled s r
   | QHead \<Rightarrow> settled s r
   | QProtect \<Rightarrow> True
   | QStore p \<Rightarrow> True
   | QAgain p \<Rightarrow> hz_slot s r = Some p
   | QDeq h \<Rightarrow> holds s r h
   | QSeen h d \<Rightarrow> holds s r h \<and> d \<le> deq (seg_at s h)
   | QEnq h d \<Rightarrow> holds s r h \<and> d \<le> deq (seg_at s h)
   | QTell h d e \<Rightarrow> holds s r h \<and> d \<le> deq (seg_at s h) \<and> d < e \<and> e \<le> enq (seg_at s h)
   | QCas h d e \<Rightarrow> holds s r h \<and> d \<le> deq (seg_at s h) \<and> d < e \<and> e \<le> enq (seg_at s h)
   | QTake h d \<Rightarrow> holds s r h \<and> d < deq (seg_at s h)
   | QNext h \<Rightarrow> holds s r h \<and> k \<le> deq (seg_at s h) \<and> k \<le> enq (seg_at s h)
   | QSwing h n \<Rightarrow> holds s r h \<and> k \<le> deq (seg_at s h) \<and> k \<le> enq (seg_at s h) \<and>
       seg_next (seg_at s h) = Some n
   | QScan leaving \<Rightarrow> (if leaving then hz_slot s r = None else settled s r)
   | QScanning leaving \<Rightarrow> (if leaving then hz_slot s r = None else settled s r)
   | QClear j \<Rightarrow> settled s r \<and> j < kSlots
   | QRelease \<Rightarrow> hz_slot s r = None)"

text \<open>Which cells claimed are not yet taken.\<close>

definition takers :: "'a spmc_sys \<Rightarrow> nat \<Rightarrow> nat \<Rightarrow> bool" where
  "takers s a i \<longleftrightarrow> (\<exists>r. popping s r = QTake a i)"

definition hz_part :: "'a spmc_sys \<Rightarrow> bool" where
  "hz_part s \<longleftrightarrow>
     hz_inv (hz s) \<and> shared (hz s) = set (path s) \<and>
     live (hz s) = set (path s) \<union> (\<Union>r < nrecs (hdom (hz s)). set (retired_of (hdom (hz s)) r))"

text \<open>
  The segments from the head to the tail: linked in order, numbered in blocks of \<open>k\<close>, all full
  and published but the tail, all unclaimed but the head.
\<close>

definition chain :: "nat \<Rightarrow> 'a spmc_sys \<Rightarrow> bool" where
  "chain k s \<longleftrightarrow>
     path s \<noteq> [] \<and> distinct (path s) \<and> hd (path s) = q_head (queue s) \<and> last (path s) = q_tail (queue s) \<and>
     (\<forall>j. Suc j < length (path s) \<longrightarrow> seg_next (seg_at s (path s ! j)) = Some (path s ! Suc j)) \<and>
     seg_next (tail_seg s) = None \<and>
     (\<forall>j < length (path s). base s (path s ! j) = base s (hd (path s)) + j * k)"

definition counts :: "nat \<Rightarrow> 'a spmc_sys \<Rightarrow> bool" where
  "counts k s \<longleftrightarrow>
     (\<forall>a \<in> set (butlast (path s)). enq (seg_at s a) = k) \<and>
     enq (tail_seg s) \<le> q_filled (queue s) \<and> q_filled (queue s) \<le> k \<and>
     base s (q_tail (queue s)) + q_filled (queue s) = length (pushed s) \<and>
     (\<forall>a \<in> set (tl (path s)). deq (seg_at s a) = 0) \<and>
     deq (seg_at s (q_head (queue s))) \<le> enq (seg_at s (q_head (queue s))) \<and>
     popped s = base s (q_head (queue s)) + deq (seg_at s (q_head (queue s))) \<and>
     (\<forall>a \<in> live (hz s). seen (seg_at s a) \<le> enq (seg_at s a))"

definition left_behind :: "nat \<Rightarrow> 'a spmc_sys \<Rightarrow> bool" where
  "left_behind k s \<longleftrightarrow>
     (\<forall>a \<in> live (hz s) - set (path s). enq (seg_at s a) = k \<and> deq (seg_at s a) = k \<and>
        seg_next (seg_at s a) \<noteq> None \<and> base s a + k \<le> base s (q_head (queue s)))"

definition cell_ok :: "nat \<Rightarrow> 'a spmc_sys \<Rightarrow> bool" where
  "cell_ok k s \<longleftrightarrow>
     (\<forall>a \<in> live (hz s). \<forall>i < k. cells (seg_at s a) i =
        (if deq (seg_at s a) \<le> i \<and> base s a + i < length (pushed s) \<or> takers s a i
         then Some (pushed s ! (base s a + i)) else None))"

definition threads_ok :: "nat \<Rightarrow> 'a spmc_sys \<Rightarrow> bool" where
  "threads_ok k s \<longleftrightarrow>
     (\<forall>r < nrecs (hdom (hz s)). pc_ok k s r (popping s r)) \<and>
     (\<forall>r \<ge> nrecs (hdom (hz s)). popping s r = QGone) \<and>
     (\<forall>r. scanning (hz s) r \<noteq> None \<longleftrightarrow> (\<exists>l. popping s r = QScanning l)) \<and>
     (\<forall>r r' a i. popping s r = QTake a i \<longrightarrow> popping s r' = QTake a i \<longrightarrow> r = r')"

definition push_ok :: "nat \<Rightarrow> 'a spmc_sys \<Rightarrow> bool" where
  "push_ok k s = (case pushing s of
     PFull _ _ \<Rightarrow> q_filled (queue s) = k
   | PLink _ _ \<Rightarrow> q_filled (queue s) = k \<and> enq (tail_seg s) = k
   | PFill _ _ \<Rightarrow> q_filled (queue s) < k | _ \<Rightarrow> True)"

definition spmc_inv :: "nat \<Rightarrow> 'a spmc_sys \<Rightarrow> bool" where
  "spmc_inv k s \<longleftrightarrow>
     0 < k \<and> hz_part s \<and> chain k s \<and> counts k s \<and> left_behind k s \<and> cell_ok k s \<and> threads_ok k s \<and> push_ok k s"

subsection \<open>What follows from it\<close>

lemma spmc_invD:
  assumes "spmc_inv k s"
  shows "0 < k" "hz_part s" "chain k s" "counts k s" "left_behind k s" "cell_ok k s" "threads_ok k s"
    "push_ok k s" "hz_inv (hz s)"
  using assms by (auto simp: spmc_inv_def hz_part_def)

lemma holds_live:
  assumes "hz_inv (hz s)" "holds s r h"
  shows "h \<in> live (hz s)"
  using assms by (auto simp: holds_def hz_inv_def hz_valid_ok_def)

lemma chain_ends:
  assumes "chain k s"
  shows "q_head (queue s) \<in> set (path s)" "q_tail (queue s) \<in> set (path s)"
    "q_head (queue s) \<notin> set (tl (path s))"
    "a \<in> set (path s) \<Longrightarrow> a \<notin> set (tl (path s)) \<Longrightarrow> a = q_head (queue s)"
    "a \<in> set (path s) \<Longrightarrow> a \<notin> set (butlast (path s)) \<Longrightarrow> a = q_tail (queue s)"
proof -
  obtain x xs where p: "path s = x # xs" "x = q_head (queue s)"
    using assms by (cases "path s") (auto simp: chain_def)
  show "q_head (queue s) \<in> set (path s)" "q_head (queue s) \<notin> set (tl (path s))"
    "a \<in> set (path s) \<Longrightarrow> a \<notin> set (tl (path s)) \<Longrightarrow> a = q_head (queue s)"
    using assms p by (auto simp: chain_def)
  show "q_tail (queue s) \<in> set (path s)"
    using assms last_in_set [of "path s"] by (auto simp: chain_def)
  show "a = q_tail (queue s)" if "a \<in> set (path s)" "a \<notin> set (butlast (path s))"
    using assms that append_butlast_last_id [of "path s"]
    by (metis chain_def Un_iff empty_iff empty_set list.set(2) insertE set_append)
qed

lemma chainD:
  assumes "chain k s"
  shows "j < length (path s) \<Longrightarrow> base s (path s ! j) = base s (q_head (queue s)) + j * k"
    "Suc j < length (path s) \<Longrightarrow> seg_next (seg_at s (path s ! j)) = Some (path s ! Suc j)"
    "seg_next (tail_seg s) = None" "distinct (path s)" "path s \<noteq> []"
    "hd (path s) = q_head (queue s)" "last (path s) = q_tail (queue s)"
  using assms unfolding chain_def by auto

lemma held_cases:
  assumes inv: "spmc_inv k s" and h: "holds s r h"
  obtains "h = q_head (queue s)"
  | "h \<in> live (hz s) - set (path s)" "enq (seg_at s h) = k" "deq (seg_at s h) = k" "seg_next (seg_at s h) \<noteq> None"
proof -
  have "h \<in> live (hz s)" using holds_live spmc_invD(9) [OF inv] h by blast
  then show ?thesis
    using that chain_ends(4) [OF spmc_invD(3) [OF inv], of h] h spmc_invD(5) [OF inv]
    by (auto simp: holds_def left_behind_def)
qed

lemma published_bounds:
  assumes "spmc_inv k s"
  shows "popped s \<le> published s" "published s \<le> length (pushed s)"
    "q_head (queue s) = q_tail (queue s) \<Longrightarrow>
       published s = base s (q_head (queue s)) + enq (seg_at s (q_head (queue s)))"
    "q_head (queue s) \<noteq> q_tail (queue s) \<Longrightarrow> enq (seg_at s (q_head (queue s))) = k"
    "base s (q_head (queue s)) + enq (seg_at s (q_head (queue s))) \<le> published s"
proof -
  note C = spmc_invD(3) [OF assms] and N = spmc_invD(4) [OF assms]
  show "published s \<le> length (pushed s)" using N by (simp add: published_def counts_def)
  show one: "q_head (queue s) = q_tail (queue s) \<Longrightarrow>
      published s = base s (q_head (queue s)) + enq (seg_at s (q_head (queue s)))"
    by (simp add: published_def)
  show full: "q_head (queue s) \<noteq> q_tail (queue s) \<Longrightarrow> enq (seg_at s (q_head (queue s))) = k"
    using chain_ends(5) [OF C chain_ends(1) [OF C]] N by (auto simp: counts_def)
  have len: "0 < length (path s)" and last: "path s ! (length (path s) - 1) = q_tail (queue s)"
    and hd: "path s ! 0 = q_head (queue s)"
    using C by (auto simp: chain_def last_conv_nth hd_conv_nth)
  have tail: "base s (q_tail (queue s)) = base s (q_head (queue s)) + (length (path s) - 1) * k"
    using C len last by (metis chain_def diff_less zero_less_one)
  show le: "base s (q_head (queue s)) + enq (seg_at s (q_head (queue s))) \<le> published s"
  proof (cases "q_head (queue s) = q_tail (queue s)")
    case False
    then have "1 \<le> length (path s) - 1" using last hd len by (cases "length (path s) - 1") auto
    then have "1 * k \<le> (length (path s) - 1) * k" by (rule mult_le_mono1)
    then show ?thesis using full [OF False] tail unfolding published_def by linarith
  qed (simp add: one)
  show "popped s \<le> published s" using N le by (auto simp: counts_def)
qed

subsection \<open>Frames\<close>

lemma goto_simps [simp]:
  "queue (goto r pc s) = queue s" "hz (goto r pc s) = hz s" "pushing (goto r pc s) = pushing s"
  "popping (goto r pc s) = (popping s)(r := pc)" "pushed (goto r pc s) = pushed s"
  "popped (goto r pc s) = popped s" "path (goto r pc s) = path s" "base (goto r pc s) = base s"
  by (simp_all add: goto_def)

lemma pc_ok_goto [simp]: "pc_ok k (goto r pc s) r' pc' = pc_ok k s r' pc'"
  by (simp add: pc_ok_def holds_def settled_def split: pop_pc.splits)

lemma parts_goto [simp]:
  "hz_part (goto r pc s) = hz_part s" "chain k (goto r pc s) = chain k s"
  "counts k (goto r pc s) = counts k s" "left_behind k (goto r pc s) = left_behind k s"
  "push_ok k (goto r pc s) = push_ok k s" "published (goto r pc s) = published s"
  by (simp_all add: hz_part_def chain_def counts_def left_behind_def push_ok_def published_def
      split: push_pc.splits)

text \<open>A program counter that is neither taking a cell nor scanning.\<close>

definition plain :: "pop_pc \<Rightarrow> bool" where
  "plain pc \<longleftrightarrow> (\<forall>a i. pc \<noteq> QTake a i) \<and> (\<forall>l. pc \<noteq> QScanning l)"

lemma plain_simps [simp]:
  "plain QGone" "plain QIdle" "plain QHead" "plain QProtect" "plain (QStore p)" "plain (QAgain p)"
  "plain (QDeq h)" "plain (QSeen h d)" "plain (QEnq h d)" "plain (QTell h d e)" "plain (QCas h d e)"
  "plain (QNext h)" "plain (QSwing h n)" "plain (QScan l)" "plain (QClear j)" "plain QRelease"
  "plain (claim_pc h d e)"
  by (simp_all add: plain_def claim_pc_def)

lemma takers_goto:
  "(\<And>a i. popping s r \<noteq> QTake a i) \<Longrightarrow> (\<And>a i. pc \<noteq> QTake a i) \<Longrightarrow> takers (goto r pc s) = takers s"
  unfolding takers_def by (auto intro!: ext) metis

text \<open>A step that only moves the program counter.\<close>

lemma inv_goto:
  assumes inv: "spmc_inv k s" and r: "r < nrecs (hdom (hz s))"
    and ok: "pc_ok k s r pc" and plain: "plain (popping s r)" "plain pc"
  shows "spmc_inv k (goto r pc s)"
proof -
  have "takers (goto r pc s) = takers s" using plain by (intro takers_goto) (auto simp: plain_def)
  then have "cell_ok k (goto r pc s)" using spmc_invD(6) [OF inv] by (simp add: cell_ok_def)
  moreover have "threads_ok k (goto r pc s)"
    using spmc_invD(7) [OF inv] r ok plain unfolding threads_ok_def by (auto simp: plain_def)
  ultimately show ?thesis using inv by (simp add: spmc_inv_def)
qed

text \<open>What a step of one thread leaves to another: its slot, and growing segments.\<close>

definition grows :: "'a spmc_sys \<Rightarrow> 'a spmc_sys \<Rightarrow> bool" where
  "grows s t \<longleftrightarrow>
     (\<forall>h \<in> live (hz s). deq (seg_at s h) \<le> deq (seg_at t h) \<and> enq (seg_at s h) \<le> enq (seg_at t h) \<and>
        (\<forall>n. seg_next (seg_at s h) = Some n \<longrightarrow> seg_next (seg_at t h) = Some n) \<and>
        (h \<in> set (tl (path t)) \<longrightarrow> h \<in> set (tl (path s))))"

lemma holds_frame:
  assumes "hz_inv (hz s)" "grows s t" "hz_slot t r = hz_slot s r"
    "(r, kPopSlot) \<in> valid (hz s) \<Longrightarrow> (r, kPopSlot) \<in> valid (hz t)" "holds s r h"
  shows "holds t r h"
  using holds_live [OF assms(1,5)] assms by (auto simp: holds_def grows_def)

lemma pc_ok_frame:
  assumes inv: "hz_inv (hz s)" and g: "grows s t" and slot: "hz_slot t r = hz_slot s r"
    and valid: "(r, kPopSlot) \<in> valid (hz s) \<Longrightarrow> (r, kPopSlot) \<in> valid (hz t)" and ok: "pc_ok k s r pc"
  shows "pc_ok k t r pc"
proof -
  have H: "holds t r h \<and> deq (seg_at s h) \<le> deq (seg_at t h) \<and> enq (seg_at s h) \<le> enq (seg_at t h) \<and>
      (\<forall>n. seg_next (seg_at s h) = Some n \<longrightarrow> seg_next (seg_at t h) = Some n)" if "holds s r h" for h
    using holds_frame [OF inv g slot valid that] holds_live [OF inv that] g by (auto simp: grows_def)
  have S: "settled t r" if "settled s r"
    using that H slot by (auto simp: settled_def)
  show ?thesis
    using ok slot S unfolding pc_ok_def
    by (cases pc) (auto dest!: H split: if_splits)
qed

lemma grows_same: "queue t = queue s \<Longrightarrow> path t = path s \<Longrightarrow> grows s t"
  by (simp add: grows_def)

subsection \<open>Steps on the hazard domain\<close>

text \<open>A step of thread \<open>r\<close> that changes only the domain, and its program counter.\<close>

lemma inv_hz:
  assumes inv: "spmc_inv k s" and r: "r < nrecs (hdom h)"
    and h: "hz_inv h" "shared h = shared (hz s)" "live h \<subseteq> live (hz s)"
      "live h = set (path s) \<union> (\<Union>r < nrecs (hdom h). set (retired_of (hdom h) r))"
    and nrecs: "nrecs (hdom (hz s)) \<le> nrecs (hdom h)"
      "\<And>r'. nrecs (hdom (hz s)) \<le> r' \<Longrightarrow> r' < nrecs (hdom h) \<Longrightarrow> r' = r"
    and other: "\<And>r'. r' \<noteq> r \<Longrightarrow> slot_of (hdom h) r' kPopSlot = hz_slot s r'"
      "\<And>r'. r' \<noteq> r \<Longrightarrow> (r', kPopSlot) \<in> valid (hz s) \<Longrightarrow> (r', kPopSlot) \<in> valid h"
      "\<And>r'. r' \<noteq> r \<Longrightarrow> scanning h r' = scanning (hz s) r'"
    and ok: "pc_ok k (s\<lparr>hz := h\<rparr>) r pc" "scanning h r \<noteq> None \<longleftrightarrow> (\<exists>l. pc = QScanning l)"
    and take: "pc = popping s r \<or> (\<forall>a i. popping s r \<noteq> QTake a i) \<and> (\<forall>a i. pc \<noteq> QTake a i)"
  shows "spmc_inv k (goto r pc (s\<lparr>hz := h\<rparr>))"
proof -
  let ?s = "s\<lparr>hz := h\<rparr>" and ?t = "goto r pc (s\<lparr>hz := h\<rparr>)"
  have t: "takers ?t = takers s"
    using take
  proof
    assume "pc = popping s r"
    then have "popping ?t = popping s" by (simp add: fun_upd_idem)
    then show ?thesis by (intro ext) (simp only: takers_def)
  next
    assume np: "(\<forall>a i. popping s r \<noteq> QTake a i) \<and> (\<forall>a i. pc \<noteq> QTake a i)"
    have "takers ?t = takers ?s" using np by (intro takers_goto) auto
    then show ?thesis by (simp add: takers_def fun_eq_iff)
  qed
  have "hz_part ?t" using h inv by (simp add: hz_part_def spmc_inv_def)
  moreover have "chain k ?t" using spmc_invD(3) [OF inv] by (simp add: chain_def)
  moreover have "counts k ?t" using spmc_invD(4) [OF inv] h(3) by (auto simp: counts_def)
  moreover have "left_behind k ?t" using spmc_invD(5) [OF inv] h(3) by (auto simp: left_behind_def)
  moreover have "cell_ok k ?t" using spmc_invD(6) [OF inv] h(3) t by (auto simp: cell_ok_def)
  moreover have "push_ok k ?t" using spmc_invD(8) [OF inv] by (simp add: push_ok_def split: push_pc.splits)
  moreover have "threads_ok k ?t"
    unfolding threads_ok_def
  proof (intro conjI allI impI)
    fix r' assume r': "r' < nrecs (hdom (hz ?t))"
    show "pc_ok k ?t r' (popping ?t r')"
    proof (cases "r' = r")
      case False
      then have "r' < nrecs (hdom (hz s))" using r' nrecs(2) [of r'] by (cases "r' < nrecs (hdom (hz s))") auto
      then have "pc_ok k s r' (popping s r')" using spmc_invD(7) [OF inv] by (simp add: threads_ok_def)
      then show ?thesis
        using pc_ok_frame [OF spmc_invD(9) [OF inv] grows_same [of ?s s], of r'] other [OF False] False by simp
    qed (simp add: ok)
  next
    fix r' assume "nrecs (hdom (hz ?t)) \<le> r'"
    then show "popping ?t r' = QGone"
      using r nrecs(1) spmc_invD(7) [OF inv] by (auto simp: threads_ok_def)
  next
    fix r' show "scanning (hz ?t) r' \<noteq> None \<longleftrightarrow> (\<exists>l. popping ?t r' = QScanning l)"
      using ok(2) other(3) [of r'] spmc_invD(7) [OF inv] by (cases "r' = r") (auto simp: threads_ok_def)
  next
    fix r1 r2 a i assume "popping ?t r1 = QTake a i" "popping ?t r2 = QTake a i"
    then have "popping s r1 = QTake a i" "popping s r2 = QTake a i"
      using take by (auto split: if_splits)
    then show "r1 = r2" using spmc_invD(7) [OF inv] unfolding threads_ok_def by blast
  qed
  ultimately show ?thesis using spmc_invD(1) [OF inv] by (simp add: spmc_inv_def)
qed

lemma hz_fields [simp]:
  "shared (hz_store r j v h) = shared h" "live (hz_store r j v h) = live h"
  "scanning (hz_store r j v h) = scanning h" "valid (hz_store r j v h) = valid h - {(r, j)}"
  "nrecs (hdom (hz_store r j v h)) = nrecs (hdom h)"
  "slot_of (hdom (hz_store r j v h)) a b = (if a = r \<and> b = j then v else slot_of (hdom h) a b)"
  "retired_of (hdom (hz_store r j v h)) a = retired_of (hdom h) a"
  "shared (hz_validate r j h) = shared h" "live (hz_validate r j h) = live h"
  "scanning (hz_validate r j h) = scanning h" "valid (hz_validate r j h) = insert (r, j) (valid h)"
  "hdom (hz_validate r j h) = hdom h"
  "shared (hz_scan_start r h) = shared h" "live (hz_scan_start r h) = live h"
  "valid (hz_scan_start r h) = valid h" "hdom (hz_scan_start r h) = hdom h"
  "scanning (hz_scan_start r h) r' = (if r' = r then Some (slots_from (nrecs (hdom h)), []) else scanning h r')"
  "shared (hz_release r h) = shared h" "live (hz_release r h) = live h"
  "valid (hz_release r h) = valid h" "scanning (hz_release r h) = scanning h"
  "nrecs (hdom (hz_release r h)) = nrecs (hdom h)" "slot_of (hdom (hz_release r h)) a b = slot_of (hdom h) a b"
  "retired_of (hdom (hz_release r h)) a = retired_of (hdom h) a"
  "shared (hz_reuse r h) = shared h" "live (hz_reuse r h) = live h"
  "valid (hz_reuse r h) = valid h" "scanning (hz_reuse r h) = scanning h"
  "nrecs (hdom (hz_reuse r h)) = nrecs (hdom h)" "slot_of (hdom (hz_reuse r h)) a b = slot_of (hdom h) a b"
  "retired_of (hdom (hz_reuse r h)) a = retired_of (hdom h) a"
  by (simp_all add: hz_store_def hz_validate_def hz_scan_start_def hz_release_def hz_reuse_def)

lemma hz_retire_fields [simp]:
  "hdom (hz_retire r p h) = set_retired r (retired_of (hdom h) r @ [p]) (hdom h)"
  "shared (hz_retire r p h) = shared h - {p}" "live (hz_retire r p h) = live h"
  "valid (hz_retire r p h) = valid h" "scanning (hz_retire r p h) = scanning h"
  by (simp_all add: hz_retire_def)

lemma hz_partD:
  assumes "spmc_inv k s"
  shows "hz_inv (hz s)" "shared (hz s) = set (path s)"
    "live (hz s) = set (path s) \<union> (\<Union>r < nrecs (hdom (hz s)). set (retired_of (hdom (hz s)) r))"
  using assms by (auto simp: spmc_inv_def hz_part_def)

lemma threads_okD:
  assumes "spmc_inv k s"
  shows "r < nrecs (hdom (hz s)) \<Longrightarrow> pc_ok k s r (popping s r)"
    "nrecs (hdom (hz s)) \<le> r \<Longrightarrow> popping s r = QGone"
    "scanning (hz s) r \<noteq> None \<longleftrightarrow> (\<exists>l. popping s r = QScanning l)"
    "popping s r = QTake a i \<Longrightarrow> popping s r' = QTake a i \<Longrightarrow> r = r'"
  using assms unfolding spmc_inv_def threads_ok_def by blast+

lemma not_scanning: "spmc_inv k s \<Longrightarrow> plain (popping s r) \<Longrightarrow> scanning (hz s) r = None"
  using threads_okD(3) [of k s r] unfolding plain_def by blast

lemma inv_store_hazard:
  assumes inv: "spmc_inv k s" and r: "r < nrecs (hdom (hz s))" and pc: "popping s r = QStore p"
  shows "spmc_inv k (store_hazard r p s)"
  unfolding store_hazard_def
  using hz_partD [OF inv] r pc not_scanning [OF inv, of r]
  by (intro inv_hz [OF inv]) (auto simp: hz_inv_store pc_ok_def)

lemma inv_load_again:
  assumes inv: "spmc_inv k s" and r: "r < nrecs (hdom (hz s))" and pc: "popping s r = QAgain p"
  shows "spmc_inv k (load_again r p s)"
proof (cases "q_head (queue s) = p")
  case True
  note C = spmc_invD(3) [OF inv]
  have slot: "hz_slot s r = Some p" using threads_okD(1) [OF inv r] pc by (simp add: pc_ok_def)
  have p: "p \<in> shared (hz s)" "p \<notin> set (tl (path s))"
    using chain_ends(1,3) [OF C] True hz_partD(2) [OF inv] by auto
  have "hz_inv (hz_validate r kPopSlot (hz s))"
    using hz_inv_validate [OF hz_partD(1) [OF inv] r _ slot p(1)] by (simp add: kPopSlot_def kSlots_def)
  then have "spmc_inv k (goto r (QDeq p) (s\<lparr>hz := hz_validate r kPopSlot (hz s)\<rparr>))"
    using r pc slot p(2) not_scanning [OF inv, of r]
    by (intro inv_hz [OF inv]) (simp_all add: pc_ok_def holds_def flip: hz_partD(3) [OF inv])
  then show ?thesis using True by (simp add: load_again_def)
next
  case False
  then show ?thesis
    using inv_goto [OF inv r, of "QStore (q_head (queue s))"] pc by (simp add: load_again_def pc_ok_def)
qed

lemma inv_scan_start:
  assumes inv: "spmc_inv k s" and r: "r < nrecs (hdom (hz s))" and pc: "popping s r = QScan l"
  shows "spmc_inv k (goto r (QScanning l) (s\<lparr>hz := hz_scan_start r (hz s)\<rparr>))"
  using hz_partD [OF inv] r pc threads_okD(1) [OF inv r]
  by (intro inv_hz [OF inv]) (auto simp: hz_inv_scan_start pc_ok_def holds_def settled_def split: if_splits)

lemma inv_clear_slot:
  assumes inv: "spmc_inv k s" and r: "r < nrecs (hdom (hz s))" and pc: "popping s r = QClear j"
  shows "spmc_inv k (clear_slot r j s)"
  unfolding clear_slot_def
  using hz_partD [OF inv] r pc not_scanning [OF inv, of r] threads_okD(1) [OF inv r]
  by (intro inv_hz [OF inv])
    (auto simp: hz_inv_store pc_ok_def holds_def settled_def kPopSlot_def kSlots_def less_2_cases_iff)

lemma inv_release:
  assumes inv: "spmc_inv k s" and r: "r < nrecs (hdom (hz s))" and pc: "popping s r = QRelease"
  shows "spmc_inv k (goto r QGone (s\<lparr>hz := hz_release r (hz s)\<rparr>))"
  using hz_partD [OF inv] r pc not_scanning [OF inv, of r] threads_okD(1) [OF inv r]
  by (intro inv_hz [OF inv]) (auto simp: hz_inv_active pc_ok_def)

lemma inv_reuse:
  assumes inv: "spmc_inv k s" and r: "r < nrecs (hdom (hz s))" and pc: "popping s r = QGone"
  shows "spmc_inv k (goto r QIdle (s\<lparr>hz := hz_reuse r (hz s)\<rparr>))"
  using hz_partD [OF inv] r pc not_scanning [OF inv, of r] threads_okD(1) [OF inv r]
  by (intro inv_hz [OF inv]) (auto simp: hz_inv_active pc_ok_def settled_def)

lemma scan_read_simps [simp]:
  "hdom (hz_scan_read r h) = hdom h" "shared (hz_scan_read r h) = shared h" "live (hz_scan_read r h) = live h"
  "valid (hz_scan_read r h) = valid h" "r' \<noteq> r \<Longrightarrow> scanning (hz_scan_read r h) r' = scanning h r'"
  "scanning (hz_scan_read r h) r \<noteq> None \<longleftrightarrow> scanning h r \<noteq> None"
  by (auto simp: hz_scan_read_def split: option.splits list.splits)

lemma scan_end_simps:
  assumes "scanning h r = Some ([], held)"
  shows "shared (hz_scan_end r h) = shared h" "live (hz_scan_end r h) = live h - set (hz_frees r h)"
    "valid (hz_scan_end r h) = valid h" "nrecs (hdom (hz_scan_end r h)) = nrecs (hdom h)"
    "slot_of (hdom (hz_scan_end r h)) a b = slot_of (hdom h) a b"
    "scanning (hz_scan_end r h) = (scanning h)(r := None)"
    "set (retired_of (hdom (hz_scan_end r h)) a) = set (retired_of (hdom h) a) - (if a = r then set (hz_frees r h) else {})"
  using assms by (auto simp: hz_scan_end_def hz_frees_def kept_def unheld_def)

lemma inv_scan_read:
  assumes inv: "spmc_inv k s" and r: "r < nrecs (hdom (hz s))" and pc: "popping s r = QScanning l"
    and sc: "scanning (hz s) r = Some (ij # todo, held)"
  shows "spmc_inv k (s\<lparr>hz := hz_scan_read r (hz s)\<rparr>)"
proof -
  have "hz_inv (hz_scan_read r (hz s))" using hz_inv_scan_read [OF hz_partD(1) [OF inv] sc] .
  then have "spmc_inv k (goto r (QScanning l) (s\<lparr>hz := hz_scan_read r (hz s)\<rparr>))"
    using hz_partD(2,3) [OF inv] r pc sc threads_okD(1) [OF inv r]
    by (intro inv_hz [OF inv]) (auto simp: pc_ok_def holds_def settled_def simp del: not_None_eq split: if_splits)
  moreover have "goto r (QScanning l) (s\<lparr>hz := hz_scan_read r (hz s)\<rparr>) = s\<lparr>hz := hz_scan_read r (hz s)\<rparr>"
    using pc by (cases s) (simp add: goto_def fun_upd_idem)
  ultimately show ?thesis by simp
qed

lemma inv_scan_end:
  assumes inv: "spmc_inv k s" and r: "r < nrecs (hdom (hz s))" and pc: "popping s r = QScanning l"
    and sc: "scanning (hz s) r = Some ([], held)"
  shows "spmc_inv k (goto r (if l then QRelease else QHead) (s\<lparr>hz := hz_scan_end r (hz s)\<rparr>))"
proof (rule inv_hz [OF inv])
  note E = scan_end_simps [OF sc]
  note P = hz_partD [OF inv]
  have R: "hz_retired_ok (hz s)" using P(1) by (simp add: hz_inv_def)
  have frees: "set (hz_frees r (hz s)) \<subseteq> set (retired_of (hdom (hz s)) r)"
    using sc by (auto simp: hz_frees_def unheld_def)
  show "hz_inv (hz_scan_end r (hz s))" using hz_inv_scan_end [OF P(1) sc] .
  have disj: "x \<notin> set (hz_frees r (hz s))"
    if "a < nrecs (hdom (hz s))" "a \<noteq> r" "x \<in> set (retired_of (hdom (hz s)) a)" for a x
    using R r frees that by (fastforce simp: hz_retired_ok_def)
  have "set (path s) \<inter> set (hz_frees r (hz s)) = {}"
    using R r frees P(2) by (fastforce simp: hz_retired_ok_def)
  then show "live (hz_scan_end r (hz s)) = set (path s) \<union>
      (\<Union>a < nrecs (hdom (hz_scan_end r (hz s))). set (retired_of (hdom (hz_scan_end r (hz s))) a))"
    unfolding E P(3) by (auto split: if_splits dest: disj)
qed (use r pc sc threads_okD(1) [OF inv r] in
    \<open>auto simp: scan_end_simps [OF sc] pc_ok_def holds_def settled_def split: if_splits\<close>)

lemma inv_scan_next:
  assumes inv: "spmc_inv k s" and r: "r < nrecs (hdom (hz s))" and pc: "popping s r = QScanning l"
  shows "spmc_inv k (scan_next r l s)"
proof -
  obtain todo held where sc: "scanning (hz s) r = Some (todo, held)"
    using threads_okD(3) [OF inv, of r] pc by auto
  show ?thesis
    using inv_scan_read [OF inv r pc] inv_scan_end [OF inv r pc] sc
    by (cases todo) (simp_all add: scan_next_def)
qed

lemma inv_new_thread:
  assumes inv: "spmc_inv k s"
  shows "spmc_inv k (goto (nrecs (hdom (hz s))) QIdle (s\<lparr>hz := hz_new (hz s)\<rparr>))"
proof (rule inv_hz [OF inv])
  let ?n = "nrecs (hdom (hz s))"
  have H: "hdom (hz_new (hz s)) = push_record (hdom (hz s))" "shared (hz_new (hz s)) = shared (hz s)"
    "live (hz_new (hz s)) = live (hz s)" "valid (hz_new (hz s)) = valid (hz s)"
    "scanning (hz_new (hz s)) = scanning (hz s)" by (simp_all add: hz_new_def)
  show "hz_inv (hz_new (hz s))" using hz_inv_new [OF hz_partD(1) [OF inv]] .
  show "live (hz_new (hz s)) = set (path s) \<union>
      (\<Union>r < nrecs (hdom (hz_new (hz s))). set (retired_of (hdom (hz_new (hz s))) r))"
    using hz_partD(3) [OF inv] by (auto simp: H less_Suc_eq)
  show "scanning (hz_new (hz s)) ?n \<noteq> None \<longleftrightarrow> (\<exists>l. QIdle = QScanning l)"
    using threads_okD(2,3) [OF inv, of ?n] by (simp add: H)
  show "QIdle = popping s ?n \<or> (\<forall>a i. popping s ?n \<noteq> QTake a i) \<and> (\<forall>a i. QIdle \<noteq> QTake a i)"
    using threads_okD(2) [OF inv, of ?n] by simp
qed (auto simp: hz_new_def pc_ok_def settled_def)

lemma inv_other_queue:
  assumes inv: "spmc_inv k s" and r: "r < nrecs (hdom (hz s))"
  shows "spmc_inv k (s\<lparr>hz := hz_store r kPushSlot v (hz s)\<rparr>)"
proof -
  have ne: "kPushSlot \<noteq> kPopSlot" by (simp add: kPushSlot_def kPopSlot_def)
  let ?t = "s\<lparr>hz := hz_store r kPushSlot v (hz s)\<rparr>"
  have "pc_ok k ?t r (popping s r)"
    using pc_ok_frame [OF hz_partD(1) [OF inv] grows_same [of ?t s], of r k "popping s r"]
      threads_okD(1) [OF inv r] ne by simp
  then have "spmc_inv k (goto r (popping s r) ?t)"
    using hz_partD [OF inv] r ne threads_okD(3) [OF inv, of r]
    by (intro inv_hz [OF inv]) (auto simp: hz_inv_store)
  moreover have "goto r (popping s r) ?t = ?t" by (cases s) (simp add: goto_def)
  ultimately show ?thesis by simp
qed

subsection \<open>Steps on the queue\<close>

lemma upd_seg_simps [simp]:
  "segs (upd_seg a f q) b = (if b = a then f (segs q a) else segs q b)"
  "q_head (upd_seg a f q) = q_head q" "q_tail (upd_seg a f q) = q_tail q" "q_filled (upd_seg a f q) = q_filled q"
  by (simp_all add: upd_seg_def)

text \<open>The threads after a step that leaves the others' slots alone and lets the segments grow.\<close>

lemma threads_frame:
  assumes inv: "spmc_inv k s" and g: "grows s t"
    and dom: "nrecs (hdom (hz t)) = nrecs (hdom (hz s))" "\<And>r. hz_slot t r = hz_slot s r"
      "valid (hz t) = valid (hz s)" "scanning (hz t) = scanning (hz s)"
    and r: "popping t = popping s \<or> r < nrecs (hdom (hz s)) \<and> popping t = (popping s)(r := pc) \<and> pc_ok k t r pc \<and>
      (\<forall>l. popping s r \<noteq> QScanning l) \<and> (\<forall>l. pc \<noteq> QScanning l) \<and> (\<forall>a i. pc = QTake a i \<longrightarrow> \<not> takers s a i)"
  shows "threads_ok k t"
proof -
  note T = threads_okD [OF inv]
  have keep: "pc_ok k t r' (popping s r')" if "r' < nrecs (hdom (hz s))" for r'
    using pc_ok_frame [OF hz_partD(1) [OF inv] g, of r'] T(1) [OF that] dom by simp
  have uniq: "r1 = r2" if "popping s r1 = QTake a i" "popping s r2 = QTake a i" for r1 r2 a i
    using T(4) that by blast
  show ?thesis
  proof (cases "popping t = popping s")
    case True
    have "\<forall>r < nrecs (hdom (hz t)). pc_ok k t r (popping t r)" using keep by (simp add: dom True)
    moreover have "\<forall>r \<ge> nrecs (hdom (hz t)). popping t r = QGone" using T(2) by (simp add: dom True)
    moreover have "\<forall>r. scanning (hz t) r \<noteq> None \<longleftrightarrow> (\<exists>l. popping t r = QScanning l)"
      unfolding dom True using T(3) by blast
    ultimately show ?thesis unfolding threads_ok_def True using uniq by blast
  next
    case False
    with r have r: "r < nrecs (hdom (hz s))" and t: "popping t = (popping s)(r := pc)" and ok: "pc_ok k t r pc"
      and scan: "\<forall>l. popping s r \<noteq> QScanning l" "\<forall>l. pc \<noteq> QScanning l"
      and take: "\<forall>a i. pc = QTake a i \<longrightarrow> \<not> takers s a i" by auto
    have "\<forall>r' < nrecs (hdom (hz t)). pc_ok k t r' (popping t r')" using keep ok by (simp add: dom t)
    moreover have "\<forall>r' \<ge> nrecs (hdom (hz t)). popping t r' = QGone" using T(2) r by (auto simp: dom t)
    moreover have "scanning (hz t) r' \<noteq> None \<longleftrightarrow> (\<exists>l. popping t r' = QScanning l)" for r'
      unfolding dom T(3) using scan by (auto simp: t)
    moreover have "r1 = r2" if "popping t r1 = QTake a i" "popping t r2 = QTake a i" for r1 r2 a i
    proof (cases "pc = QTake a i")
      case True
      then have "popping s r' \<noteq> QTake a i" for r' using take by (auto simp: takers_def)
      then show ?thesis using that by (auto simp: t split: if_splits)
    next
      case False
      then show ?thesis using that uniq [of r1 a i r2] by (auto simp: t split: if_splits)
    qed
    ultimately show ?thesis unfolding threads_ok_def by blast
  qed
qed

lemma takers_upd:
  assumes "popping t = (popping s)(r := pc)"
  shows "takers t a i \<longleftrightarrow> pc = QTake a i \<or> (\<exists>r'. r' \<noteq> r \<and> popping s r' = QTake a i)"
  using assms by (auto simp: takers_def)

lemma takers_begin:
  assumes "popping t = (popping s)(r := pc)" "plain (popping s r)"
  shows "takers t a i \<longleftrightarrow> pc = QTake a i \<or> takers s a i"
proof -
  have "(\<exists>r'. r' \<noteq> r \<and> popping s r' = QTake a i) \<longleftrightarrow> takers s a i"
    using assms(2) unfolding takers_def plain_def by metis
  then show ?thesis using takers_upd [OF assms(1)] by simp
qed

lemma takers_end:
  assumes "popping t = (popping s)(r := QIdle)" "popping s r = QTake h d"
    and "\<And>r' r'' a i. popping s r' = QTake a i \<Longrightarrow> popping s r'' = QTake a i \<Longrightarrow> r' = r''"
  shows "takers t a i \<longleftrightarrow> takers s a i \<and> \<not> (a = h \<and> i = d)"
proof -
  have "(\<exists>r'. r' \<noteq> r \<and> popping s r' = QTake a i) \<longleftrightarrow> takers s a i \<and> \<not> (a = h \<and> i = d)"
  proof
    assume "\<exists>r'. r' \<noteq> r \<and> popping s r' = QTake a i"
    then show "takers s a i \<and> \<not> (a = h \<and> i = d)" using assms(2,3) unfolding takers_def by blast
  next
    assume t: "takers s a i \<and> \<not> (a = h \<and> i = d)"
    then obtain r' where "popping s r' = QTake a i" by (auto simp: takers_def)
    moreover have "r' \<noteq> r" using t assms(2) calculation by auto
    ultimately show "\<exists>r'. r' \<noteq> r \<and> popping s r' = QTake a i" by blast
  qed
  then show ?thesis using takers_upd [OF assms(1)] by simp
qed

lemma takers_same:
  assumes "popping t = (popping s)(r := pc)" "plain (popping s r)" "plain pc"
  shows "takers t = takers s"
proof (intro ext iffI)
  fix a i assume "takers t a i"
  then show "takers s a i" using assms by (auto simp: takers_def plain_def split: if_splits)
next
  fix a i assume "takers s a i"
  then obtain r' where "popping s r' = QTake a i" by (auto simp: takers_def)
  moreover from this have "r' \<noteq> r" using assms(2) by (auto simp: plain_def)
  ultimately have "popping t r' = QTake a i" using assms(1) by simp
  then show "takers t a i" unfolding takers_def by blast
qed

lemma inv_store_seen:
  assumes inv: "spmc_inv k s" and r: "r < nrecs (hdom (hz s))" and pc: "popping s r = QTell h d e"
  shows "spmc_inv k (store_seen r h d e s)"
proof -
  let ?t = "store_seen r h d e s"
  have ok: "pc_ok k s r (QTell h d e)" using threads_okD(1) [OF inv r] pc by simp
  have seg: "deq (seg_at ?t a) = deq (seg_at s a)" "enq (seg_at ?t a) = enq (seg_at s a)"
    "seg_next (seg_at ?t a) = seg_next (seg_at s a)" "cells (seg_at ?t a) = cells (seg_at s a)"
    "seen (seg_at ?t a) = (if a = h then e else seen (seg_at s a))" for a
    by (simp_all add: store_seen_def)
  have same: "hz ?t = hz s" "path ?t = path s" "base ?t = base s" "pushed ?t = pushed s" "popped ?t = popped s"
    "pushing ?t = pushing s" "q_head (queue ?t) = q_head (queue s)" "q_tail (queue ?t) = q_tail (queue s)"
    "q_filled (queue ?t) = q_filled (queue s)" "popping ?t = (popping s)(r := QCas h d e)"
    by (simp_all add: store_seen_def)
  have takers: "takers ?t = takers s"
    using takers_same [OF same(10)] pc by simp
  have "threads_ok k ?t"
    using ok r pc by (intro threads_frame [OF inv, where r = r and pc = "QCas h d e"])
      (auto simp: grows_def same seg pc_ok_def holds_def)
  moreover have "counts k ?t"
    using spmc_invD(4) [OF inv] ok by (auto simp: counts_def same seg pc_ok_def)
  moreover have "hz_part ?t" using spmc_invD(2) [OF inv] unfolding hz_part_def same .
  moreover have "chain k ?t" using spmc_invD(3) [OF inv] unfolding chain_def same seg .
  moreover have "left_behind k ?t" using spmc_invD(5) [OF inv] unfolding left_behind_def same seg .
  moreover have "cell_ok k ?t" using spmc_invD(6) [OF inv] unfolding cell_ok_def same seg takers .
  moreover have "push_ok k ?t" using spmc_invD(8) [OF inv] unfolding push_ok_def same seg .
  ultimately show ?thesis using spmc_invD(1) [OF inv] by (simp only: spmc_inv_def)
qed

text \<open>A claim: only ever on the head segment, on a cell nobody else has claimed.\<close>

lemma claim_on_head:
  assumes inv: "spmc_inv k s" and ok: "pc_ok k s r (QCas h d e)" and d: "deq (seg_at s h) = d"
  shows "h = q_head (queue s)" "d < enq (seg_at s h)" "base s h + d = popped s" "popped s < published s" "d < k"
proof -
  have h: "holds s r h" "d < e" "e \<le> enq (seg_at s h)" using ok by (auto simp: pc_ok_def)
  then show head: "h = q_head (queue s)" using d by (auto elim!: held_cases [OF inv])
  show "d < enq (seg_at s h)" using h by simp
  show "base s h + d = popped s" using spmc_invD(4) [OF inv] head d by (simp add: counts_def)
  then show "popped s < published s"
    using published_bounds(5) [OF inv] head h by auto
  have "enq (seg_at s h) \<le> k"
    using spmc_invD(4) [OF inv] published_bounds(4) [OF inv] head
    by (cases "q_head (queue s) = q_tail (queue s)") (auto simp: counts_def)
  then show "d < k" using h by simp
qed

lemma claimed_cell:
  assumes inv: "spmc_inv k s" and ok: "pc_ok k s r (QCas h d e)" and d: "deq (seg_at s h) = d"
  shows "cells (seg_at s h) d = Some (pushed s ! popped s)"
proof -
  note H = claim_on_head [OF inv ok d]
  have "h \<in> live (hz s)" using holds_live [OF hz_partD(1) [OF inv], of r h] ok by (simp add: pc_ok_def)
  then show ?thesis
    using spmc_invD(6) [OF inv] H d published_bounds(2) [OF inv] by (simp add: cell_ok_def)
qed

lemma inv_cas_deq:
  assumes inv: "spmc_inv k s" and r: "r < nrecs (hdom (hz s))" and pc: "popping s r = QCas h d e"
    and d: "deq (seg_at s h) = d"
  shows "spmc_inv k (goto r (QTake h d)
    (s\<lparr>queue := upd_seg h (\<lambda>x. x\<lparr>deq := Suc d\<rparr>) (queue s), popped := Suc (popped s)\<rparr>))" (is "spmc_inv k ?t")
proof -
  have ok: "pc_ok k s r (QCas h d e)" using threads_okD(1) [OF inv r] pc by simp
  note H = claim_on_head [OF inv ok d]
  have seg: "deq (seg_at ?t a) = (if a = h then Suc d else deq (seg_at s a))"
    "enq (seg_at ?t a) = enq (seg_at s a)" "seg_next (seg_at ?t a) = seg_next (seg_at s a)"
    "cells (seg_at ?t a) = cells (seg_at s a)" "seen (seg_at ?t a) = seen (seg_at s a)" for a
    by simp_all
  have same: "hz ?t = hz s" "path ?t = path s" "base ?t = base s" "pushed ?t = pushed s"
    "pushing ?t = pushing s" "q_head (queue ?t) = q_head (queue s)" "q_tail (queue ?t) = q_tail (queue s)"
    "q_filled (queue ?t) = q_filled (queue s)" "popping ?t = (popping s)(r := QTake h d)"
    by simp_all
  have free: "\<not> takers s h d"
  proof
    assume "takers s h d"
    then obtain r' where r': "popping s r' = QTake h d" by (auto simp: takers_def)
    then have "r' < nrecs (hdom (hz s))" using threads_okD(2) [OF inv, of r'] by (cases "r' < nrecs (hdom (hz s))") auto
    then show False using threads_okD(1) [OF inv, of r'] r' d by (simp add: pc_ok_def)
  qed
  have takers: "takers ?t a i \<longleftrightarrow> a = h \<and> i = d \<or> takers s a i" for a i
    using takers_begin [OF same(9)] pc by auto
  have "threads_ok k ?t"
    using ok r pc free d by (intro threads_frame [OF inv, where r = r and pc = "QTake h d"])
      (auto simp: grows_def pc_ok_def holds_def)
  moreover have "counts k ?t"
    using spmc_invD(4) [OF inv] H chain_ends(3) [OF spmc_invD(3) [OF inv]] d
    unfolding counts_def same seg by auto
  moreover have "cell_ok k ?t"
    unfolding cell_ok_def same
  proof (intro ballI allI impI)
    fix a i assume a: "a \<in> live (hz s)" "i < k"
    have old: "cells (seg_at s a) i = (if deq (seg_at s a) \<le> i \<and> base s a + i < length (pushed s) \<or> takers s a i
        then Some (pushed s ! (base s a + i)) else None)"
      using spmc_invD(6) [OF inv] a by (simp add: cell_ok_def)
    show "cells (seg_at ?t a) i = (if deq (seg_at ?t a) \<le> i \<and> base s a + i < length (pushed s) \<or> takers ?t a i
        then Some (pushed s ! (base s a + i)) else None)"
      unfolding seg takers using old claimed_cell [OF inv ok d] H(3) d by (cases "a = h"; cases "i = d") auto
  qed
  moreover have "left_behind k ?t"
    using spmc_invD(5) [OF inv] H(1) chain_ends(1) [OF spmc_invD(3) [OF inv]]
    unfolding left_behind_def same seg by auto
  moreover have "hz_part ?t" using spmc_invD(2) [OF inv] unfolding hz_part_def same .
  moreover have "chain k ?t" using spmc_invD(3) [OF inv] unfolding chain_def same seg .
  moreover have "push_ok k ?t" using spmc_invD(8) [OF inv] unfolding push_ok_def same seg .
  ultimately show ?thesis using spmc_invD(1) [OF inv] by (simp only: spmc_inv_def)
qed

lemma inv_take_cell:
  assumes inv: "spmc_inv k s" and r: "r < nrecs (hdom (hz s))" and pc: "popping s r = QTake h d"
  shows "spmc_inv k (take_cell r h d s)" (is "spmc_inv k ?t")
proof -
  have ok: "pc_ok k s r (QTake h d)" using threads_okD(1) [OF inv r] pc by simp
  have seg: "deq (seg_at ?t a) = deq (seg_at s a)" "enq (seg_at ?t a) = enq (seg_at s a)"
    "seg_next (seg_at ?t a) = seg_next (seg_at s a)" "seen (seg_at ?t a) = seen (seg_at s a)"
    "cells (seg_at ?t a) i = (if a = h \<and> i = d then None else cells (seg_at s a) i)" for a i
    by (simp_all add: take_cell_def)
  have same: "hz ?t = hz s" "path ?t = path s" "base ?t = base s" "pushed ?t = pushed s" "popped ?t = popped s"
    "pushing ?t = pushing s" "q_head (queue ?t) = q_head (queue s)" "q_tail (queue ?t) = q_tail (queue s)"
    "q_filled (queue ?t) = q_filled (queue s)" "popping ?t = (popping s)(r := QIdle)"
    by (simp_all add: take_cell_def)
  have takers: "takers ?t a i \<longleftrightarrow> takers s a i \<and> \<not> (a = h \<and> i = d)" for a i
    using takers_end [OF same(10) pc threads_okD(4) [OF inv]] .
  have "threads_ok k ?t"
    using ok r pc by (intro threads_frame [OF inv, where r = r and pc = QIdle])
      (auto simp: grows_def same seg pc_ok_def holds_def settled_def)
  moreover have "counts k ?t" using spmc_invD(4) [OF inv] unfolding counts_def same seg .
  moreover have "cell_ok k ?t"
    using spmc_invD(6) [OF inv] ok unfolding cell_ok_def same seg takers by (auto simp: pc_ok_def)
  moreover have "left_behind k ?t" using spmc_invD(5) [OF inv] unfolding left_behind_def same seg .
  moreover have "hz_part ?t" using spmc_invD(2) [OF inv] unfolding hz_part_def same .
  moreover have "chain k ?t" using spmc_invD(3) [OF inv] unfolding chain_def same seg .
  moreover have "push_ok k ?t" using spmc_invD(8) [OF inv] unfolding push_ok_def same seg .
  ultimately show ?thesis using spmc_invD(1) [OF inv] by (simp only: spmc_inv_def)
qed

text \<open>The head moves on: the segment it leaves is drained, and there is a next one.\<close>

lemma chain_next:
  assumes inv: "spmc_inv k s" and n: "seg_next (seg_at s (q_head (queue s))) = Some n"
  obtains rest where "path s = q_head (queue s) # n # rest"
proof (cases "path s")
  case Nil
  then show ?thesis using spmc_invD(3) [OF inv] by (simp add: chain_def)
next
  case (Cons x xs)
  then have x: "x = q_head (queue s)" using spmc_invD(3) [OF inv] by (simp add: chain_def)
  show ?thesis
  proof (cases xs)
    case Nil
    then have "q_tail (queue s) = q_head (queue s)" using spmc_invD(3) [OF inv] Cons x by (simp add: chain_def)
    then show ?thesis using n spmc_invD(3) [OF inv] by (simp add: chain_def)
  next
    case (Cons y ys)
    have "seg_next (seg_at s (path s ! 0)) = Some (path s ! Suc 0)"
      using spmc_invD(3) [OF inv] \<open>path s = x # xs\<close> Cons unfolding chain_def by auto
    then show ?thesis using that n x Cons \<open>path s = x # xs\<close> by simp
  qed
qed

lemma inv_cas_head:
  assumes inv: "spmc_inv k s" and r: "r < nrecs (hdom (hz s))" and pc: "popping s r = QSwing h n"
    and head: "q_head (queue s) = h" and pc': "pc' = QHead \<or> pc' = QScan False"
  shows "spmc_inv k (goto r pc'
    (s\<lparr>queue := (queue s)\<lparr>q_head := n\<rparr>, hz := hz_retire r h (hz s), path := tl (path s)\<rparr>))" (is "spmc_inv k ?t")
proof -
  have ok: "pc_ok k s r (QSwing h n)" using threads_okD(1) [OF inv r] pc by simp
  obtain rest where path: "path s = h # n # rest"
    using chain_next [OF inv, of n] ok head by (auto simp: pc_ok_def)
  note C = spmc_invD(3) [OF inv] and N = spmc_invD(4) [OF inv] and P = hz_partD [OF inv]
  have tail: "h \<noteq> q_tail (queue s)" using C path unfolding chain_def by (metis distinct.simps(2) last_ConsR last_in_set list.distinct(1))
  have full: "enq (seg_at s h) = k" "deq (seg_at s h) = k"
    using published_bounds(4) [OF inv] tail head ok N by (auto simp: pc_ok_def counts_def)
  have seg: "seg_at ?t a = seg_at s a" for a by simp
  have H: "hdom (hz ?t) = set_retired r (retired_of (hdom (hz s)) r @ [h]) (hdom (hz s))"
    "shared (hz ?t) = shared (hz s) - {h}" "live (hz ?t) = live (hz s)" "valid (hz ?t) = valid (hz s)"
    "scanning (hz ?t) = scanning (hz s)"
    by simp_all
  have same: "path ?t = n # rest" "base ?t = base s" "pushed ?t = pushed s" "popped ?t = popped s"
    "pushing ?t = pushing s" "q_head (queue ?t) = n" "q_tail (queue ?t) = q_tail (queue s)"
    "q_filled (queue ?t) = q_filled (queue s)" "popping ?t = (popping s)(r := pc')"
    by (simp_all add: path)
  have sc: "scanning (hz s) r = None" using not_scanning [OF inv, of r] pc by simp
  have takers: "takers ?t = takers s" using takers_same [OF same(9)] pc pc' by auto
  have "hz_part ?t"
  proof -
    have "hz_inv (hz ?t)" using hz_inv_retire [OF P(1) r sc, of h] P(2) path by simp
    moreover have "shared (hz ?t) = set (path ?t)" unfolding H same P(2) using C path by (auto simp: chain_def)
    moreover have "live (hz s) = set (n # rest) \<union>
        (\<Union>a < nrecs (hdom (hz s)). set (if a = r then retired_of (hdom (hz s)) r @ [h] else retired_of (hdom (hz s)) a))"
      unfolding P(3) path using r by (auto split: if_splits)
    ultimately show ?thesis unfolding hz_part_def same H by simp
  qed
  moreover have "chain k ?t"
  proof -
    have nx: "seg_next (seg_at s ((n # rest) ! j)) = Some ((n # rest) ! Suc j)"
      if "Suc j < length (n # rest)" for j using chainD(2) [OF C, of "Suc j"] that by (simp add: path)
    have b: "base s ((n # rest) ! j) = base s h + Suc j * k" if "j < length (n # rest)" for j
      using chainD(1) [OF C, of "Suc j"] that by (simp add: path head)
    have "distinct (n # rest)" "last (n # rest) = q_tail (queue s)"
      using chainD(4,7) [OF C] by (simp_all add: path)
    then show ?thesis
      using chainD(3) [OF C] nx b b [of 0] unfolding chain_def same seg by simp
  qed
  moreover have "counts k ?t"
  proof -
    have "base s n = base s h + k" using C path unfolding chain_def by force
    moreover have "deq (seg_at s n) = 0" "\<forall>a \<in> set rest. deq (seg_at s a) = 0"
      using N by (simp_all add: counts_def path)
    moreover have "set (butlast (n # rest)) \<subseteq> set (butlast (path s))" by (auto simp: path)
    ultimately show ?thesis
      using N full head unfolding counts_def same seg H by (auto simp: path)
  qed
  moreover have "base s n = base s h + k" using chainD(1) [OF C, of 1] by (simp add: path head)
  then have "left_behind k ?t"
    unfolding left_behind_def same seg H
  proof (intro ballI)
    fix a assume a: "a \<in> live (hz s) - set (n # rest)"
    show "enq (seg_at s a) = k \<and> deq (seg_at s a) = k \<and> seg_next (seg_at s a) \<noteq> None \<and> base s a + k \<le> base s n"
    proof (cases "a = h")
      case True
      then show ?thesis using full ok \<open>base s n = base s h + k\<close> by (simp add: pc_ok_def)
    next
      case False
      then have "a \<in> live (hz s) - set (path s)" using a by (simp add: path)
      then have "enq (seg_at s a) = k \<and> deq (seg_at s a) = k \<and> seg_next (seg_at s a) \<noteq> None \<and> base s a + k \<le> base s h"
        using spmc_invD(5) [OF inv] head unfolding left_behind_def by blast
      then show ?thesis using \<open>base s n = base s h + k\<close> by simp
    qed
  qed
  moreover have "cell_ok k ?t"
    using spmc_invD(6) [OF inv] unfolding cell_ok_def same seg H takers .
  moreover have "h \<notin> set rest" using chainD(4) [OF C] by (simp add: path)
  then have "pc_ok k ?t r pc'" using ok pc' by (auto simp: pc_ok_def holds_def settled_def path)
  then have "threads_ok k ?t"
    using r pc pc' by (intro threads_frame [OF inv, where r = r and pc = pc']) (auto simp: grows_def path)
  moreover have "push_ok k ?t" using spmc_invD(8) [OF inv] unfolding push_ok_def same seg .
  ultimately show ?thesis using spmc_invD(1) [OF inv] by (simp only: spmc_inv_def)
qed

subsection \<open>Steps of the producer\<close>

lemma tail_apart:
  assumes "chain k s"
  shows "q_tail (queue s) \<notin> set (butlast (path s))"
  using chainD(4,5,7) [OF assms] append_butlast_last_id [of "path s"]
  by (metis distinct_append distinct.simps(2) disjoint_iff list.set_intros(1))

lemma inv_push_call:
  assumes inv: "spmc_inv k s"
  shows "spmc_inv k (push_call k v pub s)"
proof -
  let ?t = "push_call k v pub s"
  have same: "queue ?t = queue s" "hz ?t = hz s" "path ?t = path s" "base ?t = base s" "pushed ?t = pushed s"
    "popped ?t = popped s" "popping ?t = popping s"
    by (simp_all add: push_call_def)
  have takers: "takers ?t = takers s" by (simp add: takers_def fun_eq_iff same)
  have "threads_ok k ?t" by (intro threads_frame [OF inv]) (auto simp: grows_def same)
  moreover have "push_ok k ?t"
    using spmc_invD(4) [OF inv] by (auto simp: push_ok_def push_call_def counts_def)
  moreover have "hz_part ?t" using spmc_invD(2) [OF inv] unfolding hz_part_def same .
  moreover have "chain k ?t" using spmc_invD(3) [OF inv] unfolding chain_def same .
  moreover have "counts k ?t" using spmc_invD(4) [OF inv] unfolding counts_def same .
  moreover have "left_behind k ?t" using spmc_invD(5) [OF inv] unfolding left_behind_def same .
  moreover have "cell_ok k ?t" using spmc_invD(6) [OF inv] unfolding cell_ok_def same takers .
  ultimately show ?thesis using spmc_invD(1) [OF inv] by (simp only: spmc_inv_def)
qed

text \<open>Publishing: the tail's count rises to what is filled.\<close>

lemma inv_publish_tail:
  assumes inv: "spmc_inv k s"
    and q: "queue t = upd_seg (q_tail (queue s)) (\<lambda>x. x\<lparr>enq := q_filled (queue s)\<rparr>) (queue s)"
    and same: "hz t = hz s" "path t = path s" "base t = base s" "pushed t = pushed s" "popped t = popped s"
      "popping t = popping s"
    and push: "push_ok k t"
  shows "spmc_inv k t"
proof -
  note C = spmc_invD(3) [OF inv] and N = spmc_invD(4) [OF inv]
  have seg: "deq (seg_at t a) = deq (seg_at s a)" "cells (seg_at t a) = cells (seg_at s a)"
    "seg_next (seg_at t a) = seg_next (seg_at s a)" "seen (seg_at t a) = seen (seg_at s a)"
    "enq (seg_at t a) = (if a = q_tail (queue s) then q_filled (queue s) else enq (seg_at s a))" for a
    by (simp_all add: q)
  have ends: "q_head (queue t) = q_head (queue s)" "q_tail (queue t) = q_tail (queue s)"
    "q_filled (queue t) = q_filled (queue s)" by (simp_all add: q)
  have le: "enq (tail_seg s) \<le> q_filled (queue s)" using N by (simp add: counts_def)
  have "threads_ok k t"
    using le by (intro threads_frame [OF inv]) (auto simp: grows_def same seg)
  moreover have "counts k t"
    using N tail_apart [OF C] le unfolding counts_def same seg ends by auto
  moreover have "left_behind k t"
    using spmc_invD(5) [OF inv] chain_ends(2) [OF C] unfolding left_behind_def same seg ends by auto
  moreover have "takers t = takers s" by (simp add: takers_def fun_eq_iff same)
  then have "cell_ok k t" using spmc_invD(6) [OF inv] unfolding cell_ok_def same seg by simp
  moreover have "hz_part t" using spmc_invD(2) [OF inv] unfolding hz_part_def same .
  moreover have "chain k t" using C unfolding chain_def same seg ends .
  ultimately show ?thesis using spmc_invD(1) [OF inv] push by (simp only: spmc_inv_def)
qed

lemma inv_do_publish:
  assumes inv: "spmc_inv k s"
  shows "spmc_inv k (do_publish s)"
  by (rule inv_publish_tail [OF inv]) (simp_all add: do_publish_def spmc_publish_def push_ok_def)

lemma inv_do_full:
  assumes inv: "spmc_inv k s" and pc: "pushing s = PFull v pub"
  shows "spmc_inv k (do_full k v pub s)"
proof -
  have "q_filled (queue s) = k" using spmc_invD(8) [OF inv] pc by (simp add: push_ok_def)
  then show ?thesis
    by (intro inv_publish_tail [OF inv]) (simp_all add: do_full_def publish_full_def push_ok_def)
qed

lemma behind_tail:
  assumes inv: "spmc_inv k s" and a: "a \<in> live (hz s)" "a \<noteq> q_tail (queue s)"
  shows "base s a + k \<le> base s (q_tail (queue s))"
proof -
  note C = spmc_invD(3) [OF inv]
  let ?n = "length (path s) - 1"
  have last: "path s ! ?n = q_tail (queue s)" "?n < length (path s)"
    using chainD(5,7) [OF C] by (auto simp: last_conv_nth)
  have tail: "base s (q_tail (queue s)) = base s (q_head (queue s)) + ?n * k"
    using chainD(1) [OF C last(2)] last(1) by simp
  show ?thesis
  proof (cases "a \<in> set (path s)")
    case True
    then obtain j where j: "j < length (path s)" "path s ! j = a" by (auto simp: in_set_conv_nth)
    then have "Suc j \<le> ?n" using last(1) a(2) by (cases "j = ?n") auto
    then have "Suc j * k \<le> ?n * k" by (rule mult_le_mono1)
    then show ?thesis using chainD(1) [OF C j(1)] j(2) tail by simp
  next
    case False
    then have "base s a + k \<le> base s (q_head (queue s))"
      using spmc_invD(5) [OF inv] a unfolding left_behind_def by blast
    then show ?thesis using tail by linarith
  qed
qed

lemma tail_claims:
  assumes inv: "spmc_inv k s"
  shows "deq (tail_seg s) \<le> enq (tail_seg s)"
proof (cases "q_tail (queue s) = q_head (queue s)")
  case True
  then show ?thesis using spmc_invD(4) [OF inv] by (simp add: counts_def)
next
  case False
  then have "q_tail (queue s) \<in> set (tl (path s))"
    using chain_ends(2,4) [OF spmc_invD(3) [OF inv]] by blast
  then show ?thesis using spmc_invD(4) [OF inv] by (auto simp: counts_def)
qed

lemma taker_claimed:
  assumes inv: "spmc_inv k s" and "takers s a j"
  shows "j < deq (seg_at s a)" "a \<in> live (hz s)"
proof -
  obtain r where r: "popping s r = QTake a j" using assms(2) by (auto simp: takers_def)
  then have "r < nrecs (hdom (hz s))"
    using threads_okD(2) [OF inv, of r] by (cases "r < nrecs (hdom (hz s))") auto
  then have "pc_ok k s r (QTake a j)" using threads_okD(1) [OF inv] r by metis
  then show "j < deq (seg_at s a)" "a \<in> live (hz s)"
    using holds_live [OF hz_partD(1) [OF inv]] by (auto simp: pc_ok_def)
qed

text \<open>What the cells of a segment know of the next element to push.\<close>

lemma fill_cases:
  assumes inv: "spmc_inv k s" and a: "a \<in> live (hz s)" and j: "j < k"
  shows "(a = q_tail (queue s) \<and> j = q_filled (queue s) \<longrightarrow> deq (seg_at s a) \<le> j) \<and>
    (\<not> (a = q_tail (queue s) \<and> j = q_filled (queue s)) \<longrightarrow> base s a + j \<noteq> length (pushed s)) \<and>
    (takers s a j \<longrightarrow> base s a + j < length (pushed s))"
proof -
  have N: "enq (tail_seg s) \<le> q_filled (queue s)"
    "base s (q_tail (queue s)) + q_filled (queue s) = length (pushed s)"
    using spmc_invD(4) [OF inv] by (auto simp: counts_def)
  show ?thesis
    using behind_tail [OF inv a] tail_claims [OF inv] taker_claimed(1) [OF inv, of a j] N j
    by (cases "a = q_tail (queue s)") auto
qed

lemma inv_do_fill:
  assumes inv: "spmc_inv k s" and pc: "pushing s = PFill v pub"
  shows "spmc_inv k (do_fill v pub s)"
proof -
  let ?t = "do_fill v pub s" and ?a = "q_tail (queue s)" and ?i = "q_filled (queue s)"
  note C = spmc_invD(3) [OF inv] and N = spmc_invD(4) [OF inv]
  have i: "?i < k" using spmc_invD(8) [OF inv] pc by (simp add: push_ok_def)
  have len: "base s ?a + ?i = length (pushed s)" using N by (simp add: counts_def)
  have seg: "deq (seg_at ?t a) = deq (seg_at s a)" "enq (seg_at ?t a) = enq (seg_at s a)"
    "seg_next (seg_at ?t a) = seg_next (seg_at s a)" "seen (seg_at ?t a) = seen (seg_at s a)"
    "cells (seg_at ?t a) j = (if a = ?a \<and> j = ?i then Some v else cells (seg_at s a) j)" for a j
    by (simp_all add: do_fill_def fill_cell_def)
  have same: "hz ?t = hz s" "path ?t = path s" "base ?t = base s" "popped ?t = popped s" "popping ?t = popping s"
    "q_head (queue ?t) = q_head (queue s)" "q_tail (queue ?t) = ?a" "q_filled (queue ?t) = Suc ?i"
    "pushed ?t = pushed s @ [v]"
    by (simp_all add: do_fill_def fill_cell_def)
  have "threads_ok k ?t" by (intro threads_frame [OF inv]) (auto simp: grows_def same seg)
  moreover have "counts k ?t" using N i unfolding counts_def same seg by auto
  moreover have "left_behind k ?t" using spmc_invD(5) [OF inv] unfolding left_behind_def same seg .
  moreover have "cell_ok k ?t"
    unfolding cell_ok_def same
  proof (intro ballI allI impI)
    fix a j assume a: "a \<in> live (hz s)" and j: "j < k"
    have takers: "takers ?t a j = takers s a j" by (simp add: takers_def same)
    have old: "cells (seg_at s a) j = (if deq (seg_at s a) \<le> j \<and> base s a + j < length (pushed s) \<or> takers s a j
        then Some (pushed s ! (base s a + j)) else None)"
      using spmc_invD(6) [OF inv] a j by (simp add: cell_ok_def)
    show "cells (seg_at ?t a) j = (if deq (seg_at ?t a) \<le> j \<and> base s a + j < length (pushed s @ [v]) \<or> takers ?t a j
        then Some ((pushed s @ [v]) ! (base s a + j)) else None)"
      using fill_cases [OF inv a j] old unfolding seg takers by (auto simp: nth_append len)
  qed
  moreover have "hz_part ?t" using spmc_invD(2) [OF inv] unfolding hz_part_def same .
  moreover have "chain k ?t" using C unfolding chain_def same seg .
  moreover have "push_ok k ?t" by (simp add: push_ok_def do_fill_def)
  ultimately show ?thesis using spmc_invD(1) [OF inv] by (simp only: spmc_inv_def)
qed

lemma inv_do_link:
  assumes inv: "spmc_inv k s" and pc: "pushing s = PLink v pub" and a: "a \<notin> live (hz s)"
  shows "spmc_inv k (do_link a v pub s)"
proof -
  let ?t = "do_link a v pub s" and ?l = "q_tail (queue s)"
  note C = spmc_invD(3) [OF inv] and N = spmc_invD(4) [OF inv] and P = hz_partD [OF inv]
  have full: "q_filled (queue s) = k" "enq (tail_seg s) = k"
    using spmc_invD(8) [OF inv] pc by (auto simp: push_ok_def)
  have fresh: "a \<notin> set (path s)" "a \<noteq> ?l" "a \<noteq> q_head (queue s)"
    using a P(3) chain_ends(1,2) [OF C] by auto
  have seg: "seg_at ?t b = (if b = a then new_segment else if b = ?l then (seg_at s b)\<lparr>seg_next := Some a\<rparr>
      else seg_at s b)" for b
    using fresh by (simp add: do_link_def link_segment_def)
  have same: "path ?t = path s @ [a]" "popped ?t = popped s" "popping ?t = popping s" "pushed ?t = pushed s"
    "base ?t = (base s)(a := length (pushed s))" "q_head (queue ?t) = q_head (queue s)"
    "q_tail (queue ?t) = a" "q_filled (queue ?t) = 0" "hz ?t = hz_publish a (hz s)"
    by (simp_all add: do_link_def link_segment_def)
  have H: "hdom (hz ?t) = hdom (hz s)" "live (hz ?t) = insert a (live (hz s))" "valid (hz ?t) = valid (hz s)"
    "shared (hz ?t) = insert a (shared (hz s))" "scanning (hz ?t) = scanning (hz s)"
    by (simp_all add: same hz_publish_def)
  have len: "base s ?l + k = length (pushed s)" using N full by (simp add: counts_def)
  have "hz_part ?t"
    using hz_inv_publish [OF P(1) a] P(2,3) unfolding hz_part_def H same(1) by (simp add: same(9))
  moreover have "chain k ?t"
    unfolding chain_def
  proof (intro conjI allI impI)
    fix j assume j: "Suc j < length (path ?t)"
    show "seg_next (seg_at ?t (path ?t ! j)) = Some (path ?t ! Suc j)"
    proof (cases "Suc j < length (path s)")
      case True
      then have "path s ! j \<noteq> a" using fresh(1) nth_mem [of j "path s"] by auto
      moreover have "path s ! j \<noteq> ?l" using chainD(2) [OF C True] chainD(3) [OF C] by auto
      ultimately show ?thesis using chainD(2) [OF C True] True by (simp add: same seg nth_append)
    next
      case False
      then have j: "Suc j = length (path s)" using j by (simp add: same)
      then have "path s ! j = ?l"
        using chainD(5,7) [OF C] last_conv_nth [of "path s"] by (metis diff_Suc_1)
      moreover have "path ?t ! j = path s ! j" "path ?t ! Suc j = a"
        using j by (simp_all add: same nth_append)
      ultimately show ?thesis using fresh(2) by (simp only: seg) simp
    qed
  next
    fix j assume j: "j < length (path ?t)"
    have last: "path s ! (length (path s) - 1) = ?l" "length (path s) - 1 < length (path s)"
      using chainD(5,7) [OF C] by (auto simp: last_conv_nth)
    then have "base s ?l = base s (q_head (queue s)) + (length (path s) - 1) * k"
      using chainD(1) [OF C last(2)] by simp
    then have end_no: "length (pushed s) = base s (q_head (queue s)) + length (path s) * k"
      using len last(2) by (cases "length (path s)") auto
    show "base ?t (path ?t ! j) = base ?t (hd (path ?t)) + j * k"
    proof (cases "j < length (path s)")
      case True
      then have "path s ! j \<noteq> a" using fresh(1) nth_mem by metis
      then show ?thesis
        using chainD(1) [OF C True] True fresh(3) chainD(5,6) [OF C] by (simp add: same nth_append)
    next
      case False
      then have "j = length (path s)" using j by (simp add: same)
      then show ?thesis using end_no fresh(3) chainD(5,6) [OF C] by (simp add: same)
    qed
  qed (use chainD(4,5,6,7) [OF C] fresh in \<open>simp_all add: same seg new_segment_def\<close>)
  moreover have "counts k ?t"
  proof -
    have keep: "deq (seg_at ?t b) = deq (seg_at s b)" "enq (seg_at ?t b) = enq (seg_at s b)"
      "seen (seg_at ?t b) = seen (seg_at s b)" if "b \<noteq> a" for b using that by (simp_all add: seg)
    have new: "deq (seg_at ?t a) = 0" "enq (seg_at ?t a) = 0" "seen (seg_at ?t a) = 0"
      by (simp_all add: seg new_segment_def)
    show ?thesis
      unfolding counts_def
    proof (intro conjI ballI)
      fix b assume "b \<in> set (butlast (path ?t))"
      then have b: "b \<in> set (path s)" by (simp add: same(1))
      then have "enq (seg_at s b) = k" using N full(2) chain_ends(5) [OF C b] by (auto simp: counts_def)
      then show "enq (seg_at ?t b) = k" using keep(2) [of b] b fresh(1) by auto
    next
      fix b assume "b \<in> set (tl (path ?t))"
      then have "b \<in> set (tl (path s)) \<or> b = a" using chainD(5) [OF C] by (auto simp: same(1))
      then show "deq (seg_at ?t b) = 0"
        using keep(1) [of b] new(1) N by (cases "b = a") (auto simp: counts_def)
    next
      fix b assume "b \<in> live (hz ?t)"
      then show "seen (seg_at ?t b) \<le> enq (seg_at ?t b)"
        using keep [of b] new N unfolding H by (cases "b = a") (auto simp: counts_def)
    qed (use N new keep [of "q_head (queue s)"] fresh(3) in \<open>simp_all add: same(2-8) counts_def\<close>)
  qed
  moreover have "left_behind k ?t"
    using spmc_invD(5) [OF inv] chain_ends(2) [OF C] fresh
    unfolding left_behind_def H same(1) by (auto simp: seg same)
  moreover have "cell_ok k ?t"
    unfolding cell_ok_def H(2) same(4,5)
  proof (intro ballI allI impI)
    fix b i assume b: "b \<in> insert a (live (hz s))" and i: "i < k"
    have takers: "takers ?t b i = takers s b i" by (simp add: takers_def same)
    show "cells (seg_at ?t b) i = (if deq (seg_at ?t b) \<le> i \<and> ((base s)(a := length (pushed s))) b + i < length (pushed s)
        \<or> takers ?t b i then Some (pushed s ! (((base s)(a := length (pushed s))) b + i)) else None)"
    proof (cases "b = a")
      case True
      then have "\<not> takers s b i" using taker_claimed(2) [OF inv] a by auto
      then show ?thesis unfolding takers by (simp add: True seg new_segment_def)
    next
      case False
      then have "deq (seg_at ?t b) = deq (seg_at s b)" "cells (seg_at ?t b) = cells (seg_at s b)"
        "((base s)(a := length (pushed s))) b = base s b" by (simp_all add: seg)
      then show ?thesis using spmc_invD(6) [OF inv] b i False unfolding takers cell_ok_def by simp
    qed
  qed
  moreover have "grows s ?t"
    using a chainD(3,5) [OF C] unfolding grows_def same by (auto simp: seg)
  then have "threads_ok k ?t" by (intro threads_frame [OF inv]) (simp_all add: H same(3))
  moreover have "push_ok k ?t" using spmc_invD(1) [OF inv] by (simp add: push_ok_def do_link_def link_segment_def)
  ultimately show ?thesis using spmc_invD(1) [OF inv] by (simp only: spmc_inv_def)
qed

subsection \<open>Every step keeps it\<close>

lemma seen_le: "spmc_inv k s \<Longrightarrow> a \<in> live (hz s) \<Longrightarrow> seen (seg_at s a) \<le> enq (seg_at s a)"
  using spmc_invD(4) [of k s] by (auto simp: counts_def)

lemma claim_pc_ok:
  assumes "holds s r h" "d \<le> deq (seg_at s h)" "e \<le> enq (seg_at s h)"
  shows "pc_ok k s r (claim_pc h d e)"
  using assms by (simp add: claim_pc_def pc_ok_def)

lemma holds_settled: "holds s r h \<Longrightarrow> settled s r"
  by (auto simp: settled_def holds_def)

lemma pop_step_inv:
  assumes inv: "spmc_inv k s" and r: "r < nrecs (hdom (hz s))"
    and step: "consumer_step k spurious r s = Some (es, t)"
  shows "spmc_inv k t"
proof -
  have ok: "pc_ok k s r (popping s r)" using threads_okD(1) [OF inv r] .
  have C: "chain k s" using spmc_invD(3) [OF inv] .
  note live = holds_live [OF hz_partD(1) [OF inv]]
  show ?thesis
  proof (cases "popping s r")
    case QIdle
    then show ?thesis using step inv_goto [OF inv r, of QHead] ok by (auto simp: pc_ok_def)
  next
    case QProtect
    then show ?thesis using step inv_goto [OF inv r, of "QStore (q_head (queue s))"] by (auto simp: pc_ok_def)
  next
    case QHead
    moreover have "holds s r (q_head (queue s))" if "hz_slot s r = Some (q_head (queue s))"
      using ok QHead that by (simp add: pc_ok_def settled_def)
    ultimately show ?thesis
      using step inv_goto [OF inv r] ok by (auto simp: load_head_def pc_ok_def)
  next
    case (QDeq h)
    then show ?thesis using step inv_goto [OF inv r, of "QSeen h (deq (seg_at s h))"] ok by (simp add: pc_ok_def)
  next
    case (QSeen h d)
    then have "holds s r h" "d \<le> deq (seg_at s h)" using ok by (auto simp: pc_ok_def)
    then show ?thesis
      using step QSeen inv_goto [OF inv r claim_pc_ok] seen_le [OF inv live] by auto
  next
    case (QEnq h d)
    then show ?thesis
      using step inv_goto [OF inv r] ok
      by (auto simp: load_enq_def Let_def pc_ok_def holds_settled split: if_splits)
  next
    case (QCas h d e)
    then have "pc_ok k s r (claim_pc h (deq (seg_at s h)) e)" using ok by (auto simp: pc_ok_def claim_pc_def)
    then show ?thesis
      using step QCas inv_cas_deq [OF inv r QCas] inv_goto [OF inv r, of "claim_pc h (deq (seg_at s h)) e"]
      by (auto simp: cas_deq_def split: if_splits)
  next
    case (QNext h)
    then show ?thesis
      using step inv_goto [OF inv r] ok
      by (auto simp: load_next_def pc_ok_def holds_settled split: option.splits)
  next
    case (QSwing h n)
    then show ?thesis
      using step inv_cas_head [OF inv r QSwing] inv_goto [OF inv r, of QHead] ok
      by (auto simp: cas_head_def Let_def pc_ok_def holds_settled split: if_splits)
  qed (use step inv_store_hazard [OF inv r] inv_load_again [OF inv r] inv_store_seen [OF inv r]
      inv_take_cell [OF inv r] inv_scan_start [OF inv r] inv_scan_next [OF inv r] inv_clear_slot [OF inv r]
      inv_release [OF inv r] in auto)
qed

lemma push_step_inv:
  assumes inv: "spmc_inv k s" and step: "producer_step k a s = Some (es, t)"
  shows "spmc_inv k t"
  using step inv_do_full [OF inv] inv_do_link [OF inv] inv_do_fill [OF inv] inv_do_publish [OF inv]
  by (cases "pushing s") (auto split: if_splits)

lemma spmc_step_inv:
  assumes inv: "spmc_inv k s" and step: "spmc_step k s es t"
  shows "spmc_inv k t"
proof -
  obtain c where c: "spmc_act k c s = Some (es, t)" using step by (auto elim: spmc_step.cases)
  show ?thesis
  proof (cases c)
    case (EndThread r)
    then show ?thesis
      using c threads_okD(1) [OF inv, of r] inv_goto [OF inv, of r "QClear 0"]
      by (auto simp: pc_ok_def kSlots_def split: if_splits)
  qed (use c inv_push_call [OF inv] inv_do_publish [OF inv] push_step_inv [OF inv]
      pop_step_inv [OF inv] inv_new_thread [OF inv] inv_reuse [OF inv] inv_other_queue [OF inv]
      in \<open>auto simp del: consumer_step.simps producer_step.simps split: if_splits\<close>)
qed

lemma spmc_inv_start: "0 < k \<Longrightarrow> spmc_inv k spmc_start"
  using hz_inv_publish [OF hz_inv_start, of 0]
  by (simp add: spmc_inv_def hz_part_def chain_def counts_def left_behind_def cell_ok_def threads_ok_def push_ok_def
      spmc_start_def new_spmc_def new_segment_def hz_publish_def hz_start_def takers_def)

section \<open>The queue is the sequential queue\<close>

lemma content_empty:
  assumes inv: "spmc_inv k s" and h: "holds s r h" and last: "h = q_tail (queue s)"
    and drained: "enq (seg_at s h) \<le> deq (seg_at s h)"
  shows "spmc_content s = []"
proof -
  have "seg_next (seg_at s h) = None" using chainD(3) [OF spmc_invD(3) [OF inv]] last by simp
  then have head: "h = q_head (queue s)" using held_cases [OF inv h] by auto
  then have "published s \<le> popped s"
    using drained last spmc_invD(4) [OF inv] by (auto simp: published_def counts_def)
  then show ?thesis by (simp add: spmc_content_def)
qed

text \<open>A segment not full, or without a next one, is the tail.\<close>

lemma open_is_tail:
  assumes inv: "spmc_inv k s" and h: "holds s r h"
    and o: "enq (seg_at s h) < k \<or> seg_next (seg_at s h) = None"
  shows "h = q_tail (queue s)"
proof (rule held_cases [OF inv h])
  assume head: "h = q_head (queue s)"
  have "seg_next (seg_at s h) \<noteq> None" if "h \<noteq> q_tail (queue s)"
  proof -
    obtain xs where p: "path s = h # xs" using chainD(5,6) [OF spmc_invD(3) [OF inv]] head by (cases "path s") auto
    then have "xs \<noteq> []" using chainD(7) [OF spmc_invD(3) [OF inv]] that by auto
    then show ?thesis using chainD(2) [OF spmc_invD(3) [OF inv], of 0] p by simp
  qed
  then show ?thesis
    using o head published_bounds(4) [OF inv] by (cases "h = q_tail (queue s)") auto
qed (use o in auto)

lemma published_mono:
  assumes "spmc_inv k s"
  shows "take (published s) (pushed s) @ drop (published s) (pushed s) = pushed s"
    "published s \<le> length (pushed s)" "popped s \<le> published s"
  using published_bounds [OF assms] by auto

lemma publish_events:
  assumes inv: "spmc_inv k s" and t: "published t = length (pushed s)" "pushed t = pushed s" "popped t = popped s"
  shows "fifo_run (spmc_content s) (unpublished s) = Some (spmc_content t)"
proof -
  have "drop (popped s) (take (published s) (pushed s)) @ drop (published s) (pushed s) = drop (popped s) (pushed s)"
    using published_mono [OF inv] drop_append [of "popped s" "take (published s) (pushed s)" "drop (published s) (pushed s)"]
    by (simp add: min_def)
  then show ?thesis using t by (simp add: spmc_content_def unpublished_def)
qed

lemma content_frame:
  "published t = published s \<Longrightarrow> pushed t = pushed s \<Longrightarrow> popped t = popped s \<Longrightarrow> spmc_content t = spmc_content s"
  by (simp add: spmc_content_def)

lemma consumer_step_fifo:
  assumes inv: "spmc_inv k s" and r: "r < nrecs (hdom (hz s))"
    and step: "consumer_step k spurious r s = Some (es, t)"
  shows "fifo_run (spmc_content s) es = Some (spmc_content t)"
proof -
  have ok: "pc_ok k s r (popping s r)" using threads_okD(1) [OF inv r] .
  show ?thesis
  proof (cases "popping s r")
    case (QEnq h d)
    then have h: "holds s r h" "d \<le> deq (seg_at s h)" using ok by (auto simp: pc_ok_def)
    have "spmc_content s = []" if "enq (seg_at s h) \<le> d" "enq (seg_at s h) < k"
      using content_empty [OF inv h(1) open_is_tail [OF inv h(1)]] that h(2) by simp
    then show ?thesis
      using step QEnq by (auto simp: load_enq_def Let_def spmc_content_def published_def split: if_splits)
  next
    case (QNext h)
    then have h: "holds s r h" "k \<le> deq (seg_at s h)" using ok by (auto simp: pc_ok_def)
    have "spmc_content s = []" if n: "seg_next (seg_at s h) = None"
    proof -
      have tail: "h = q_tail (queue s)" using open_is_tail [OF inv h(1)] n by simp
      have "enq (seg_at s h) \<le> k" using spmc_invD(4) [OF inv] tail by (auto simp: counts_def)
      then show ?thesis using content_empty [OF inv h(1) tail] h(2) by simp
    qed
    then show ?thesis
      using step QNext by (auto simp: load_next_def spmc_content_def published_def split: option.splits)
  next
    case (QCas h d e)
    show ?thesis
    proof (cases "deq (seg_at s h) = d \<and> \<not> spurious")
      case True
      then have d: "deq (seg_at s h) = d" by simp
      note H = claim_on_head [OF inv ok [unfolded QCas] d]
      have len: "popped s < length (take (published s) (pushed s))"
        using H(4) published_mono(2) [OF inv] by simp
      have "es = [Deq (pushed s ! popped s)]" "spmc_content t = drop (Suc (popped s)) (take (published s) (pushed s))"
        using step QCas True claimed_cell [OF inv ok [unfolded QCas] d]
        by (auto simp: cas_deq_def spmc_content_def published_def)
      then show ?thesis
        using Cons_nth_drop_Suc [OF len, symmetric] H(4) by (simp add: spmc_content_def)
    next
      case False
      then show ?thesis using step QCas by (auto simp: cas_deq_def spmc_content_def published_def split: if_splits)
    qed
  qed (use step in \<open>auto simp: spmc_content_def published_def load_head_def store_hazard_def load_again_def
      store_seen_def take_cell_def cas_head_def Let_def scan_next_def clear_slot_def
      split: if_splits option.splits list.splits prod.splits\<close>)
qed

lemma producer_step_fifo:
  assumes inv: "spmc_inv k s" and step: "producer_step k a s = Some (es, t)"
  shows "fifo_run (spmc_content s) es = Some (spmc_content t)"
proof -
  have N: "base s (q_tail (queue s)) + q_filled (queue s) = length (pushed s)"
    using spmc_invD(4) [OF inv] by (simp add: counts_def)
  show ?thesis
  proof (cases "pushing s")
    case (PFull v pub)
    then have "published t = length (pushed s)"
      using step N spmc_invD(8) [OF inv] by (auto simp: push_ok_def published_def do_full_def publish_full_def)
    then show ?thesis using publish_events [OF inv, of t] step PFull by (auto simp: do_full_def)
  next
    case (PLink v pub)
    have "a \<noteq> q_tail (queue s)" if "a \<notin> live (hz s)"
      using that hz_partD(3) [OF inv] chain_ends(2) [OF spmc_invD(3) [OF inv]] by auto
    then have "published t = length (pushed s)" "published s = length (pushed s)"
      using step PLink N spmc_invD(8) [OF inv]
      by (auto simp: push_ok_def published_def do_link_def link_segment_def new_segment_def split: if_splits)
    then show ?thesis using step PLink by (auto simp: spmc_content_def do_link_def split: if_splits)
  next
    case (PFill v pub)
    then have t: "published t = published s" "pushed t = pushed s @ [v]" "popped t = popped s" "es = []"
      using step by (auto simp: published_def do_fill_def fill_cell_def)
    then show ?thesis using published_mono(2) [OF inv] by (simp add: spmc_content_def)
  next
    case PPublish
    then have "published t = length (pushed s)"
      using step N by (auto simp: published_def do_publish_def spmc_publish_def)
    then show ?thesis using publish_events [OF inv, of t] step PPublish by (auto simp: do_publish_def)
  qed (use step in simp)
qed

lemma spmc_step_fifo:
  assumes inv: "spmc_inv k s" and step: "spmc_step k s es t"
  shows "fifo_run (spmc_content s) es = Some (spmc_content t)"
proof -
  obtain c where c: "spmc_act k c s = Some (es, t)" using step by (auto elim: spmc_step.cases)
  have N: "base s (q_tail (queue s)) + q_filled (queue s) = length (pushed s)"
    using spmc_invD(4) [OF inv] by (simp add: counts_def)
  show ?thesis
  proof (cases c)
    case Publish
    then have "published t = length (pushed s)"
      using c N by (auto simp: published_def do_publish_def spmc_publish_def split: if_splits)
    then show ?thesis using publish_events [OF inv, of t] c Publish by (auto simp: do_publish_def split: if_splits)
  next
    case (Producer a)
    then show ?thesis using c producer_step_fifo [OF inv] by simp
  next
    case (Consumer r spurious)
    then show ?thesis using c consumer_step_fifo [OF inv, of r spurious] by (simp split: if_splits)
  qed (use c in \<open>auto simp: spmc_content_def published_def push_call_def split: if_splits\<close>)
qed

definition spmc_starts :: "nat \<Rightarrow> 'a spmc_sys \<Rightarrow> bool" where
  "spmc_starts k s \<longleftrightarrow> 0 < k \<and> s = spmc_start"

interpretation spmc: fifo_machine "spmc_starts k" "spmc_step k" "spmc_inv k" spmc_content
  for k :: nat
proof
  show "spmc_inv k s" if "spmc_starts k s" for s :: "'a spmc_sys"
    using that spmc_inv_start [of k] by (simp add: spmc_starts_def)
  show "spmc_content s = []" if "spmc_starts k s" for s :: "'a spmc_sys"
    using that by (simp add: spmc_starts_def spmc_start_def spmc_content_def)
qed (rule spmc_step_inv spmc_step_fifo; assumption)+

interpretation spmc_sched: scheduled "spmc_act k" "spmc_step k"
  for k :: nat
  by unfold_locales (auto intro: spmc_step.choose elim: spmc_step.cases)

lemma spmc_reachable: "0 < k \<Longrightarrow> run (spmc_step k) spmc_start es s \<Longrightarrow> spmc_inv k s"
  using spmc.run_inv [of k spmc_start es s] by (simp add: spmc_starts_def)

end
