(* ===== verification/Spmc_Promises.thy ===== *)
theory Spmc_Promises
  imports Spmc_Correct
begin

text \<open>
  What the multi-consumer queue promises in every reachable state: it is a linearisable FIFO
  queue, no thread touches a freed or reused segment, a freed segment holds no element, and the
  destructor destroys what is left.
\<close>

section \<open>Schedules\<close>

text \<open>
  Two-cell segments, two consumers: three elements pushed (the third in a second segment); a
  consumer about to take the first; and a consumer that pops all three, leaving and retiring
  the first segment, of which the queue is rid.
\<close>

abbreviation push_one :: "nat \<Rightarrow> nat spmc_choice list" where
  "push_one v \<equiv> [Push v True, Producer 0, Producer 0]"

abbreviation moves :: "nat \<Rightarrow> nat \<Rightarrow> nat spmc_choice list" where
  "moves n r \<equiv> replicate n (Consumer r False)"

definition spmc_demo :: "nat spmc_choice list \<Rightarrow> nat qevent list \<times> nat spmc_sys" where
  "spmc_demo cs = the (exec (spmc_act 2) cs spmc_start)"

definition three_pushed :: "nat spmc_choice list" where
  "three_pushed = [NewThread, NewThread] @ push_one 7 @ push_one 8 @
     [Push 9 True, Producer 1, Producer 1, Producer 1, Producer 1]"

definition first_claimed :: "nat spmc_choice list" where
  "first_claimed = three_pushed @ moves 10 0 @ [Push 5 True]"

definition all_popped :: "nat spmc_choice list" where
  "all_popped = three_pushed @ moves 11 0 @ moves 6 0 @ moves 17 0"

definition about_to_free :: "nat spmc_choice list" where
  "about_to_free = all_popped @ [EndThread 0] @ moves 7 0"

lemma spmc_demo_run:
  assumes "exec (spmc_act 2) cs spmc_start \<noteq> None"
  shows "run (spmc_step 2) spmc_start (fst (spmc_demo cs)) (snd (spmc_demo cs))"
  using assms spmc_sched.exec_run by (auto simp: spmc_demo_def)

lemma spmc_demo_defined:
  "exec (spmc_act 2) first_claimed spmc_start \<noteq> None"
  "exec (spmc_act 2) all_popped spmc_start \<noteq> None"
  "exec (spmc_act 2) about_to_free spmc_start \<noteq> None"
  unfolding is_some_iff [symmetric] by code_simp+

section \<open>Helpers of the promises\<close>

text \<open>The segment whose memory, or whose address, a consumer's next access relies on.\<close>

fun touches :: "pop_pc \<Rightarrow> nat option" where
  "touches (QDeq h) = Some h"
| "touches (QSeen h _) = Some h"
| "touches (QEnq h _) = Some h"
| "touches (QTell h _ _) = Some h"
| "touches (QCas h _ _) = Some h"
| "touches (QTake h _) = Some h"
| "touches (QNext h) = Some h"
| "touches (QSwing h _) = Some h"
| "touches _ = None"

lemma running_thread: "spmc_inv k s \<Longrightarrow> popping s r \<noteq> QGone \<Longrightarrow> r < nrecs (hdom (hz s))"
  using threads_okD(2) [of k s r] by (cases "r < nrecs (hdom (hz s))") auto

lemma touches_held:
  assumes inv: "spmc_inv k s" and t: "touches (popping s r) = Some h"
  shows "holds s r h"
proof -
  have "popping s r \<noteq> QGone" using t by auto
  then have "pc_ok k s r (popping s r)" using threads_okD(1) [OF inv] running_thread [OF inv] by blast
  then show ?thesis using t by (cases "popping s r") (auto simp: pc_ok_def)
qed

lemma take_full:
  assumes inv: "spmc_inv k s" and r: "popping s r = QTake h d" and d: "d < k"
  shows "cells (seg_at s h) d = Some (pushed s ! (base s h + d))"
proof -
  have t: "takers s h d" using r by (auto simp: takers_def)
  then show ?thesis
    using spmc_invD(6) [OF inv] taker_claimed(2) [OF inv t] d by (simp add: cell_ok_def)
qed

lemma claims_le:
  assumes inv: "spmc_inv k s" and a: "a \<in> live (hz s)"
  shows "deq (seg_at s a) \<le> k"
proof (cases "a \<in> set (path s)")
  case True
  have "deq (seg_at s (q_head (queue s))) \<le> k"
    using spmc_invD(4) [OF inv] published_bounds(4) [OF inv]
    by (cases "q_head (queue s) = q_tail (queue s)") (auto simp: counts_def)
  then show ?thesis
    using True chain_ends(4) [OF spmc_invD(3) [OF inv] True] spmc_invD(4) [OF inv]
    by (cases "a \<in> set (tl (path s))") (auto simp: counts_def)
next
  case False
  then show ?thesis using spmc_invD(5) [OF inv] a unfolding left_behind_def by auto
qed

lemma fill_raw:
  assumes inv: "spmc_inv k s" and p: "pushing s = PFill v pub"
  shows "cells (tail_seg s) (q_filled (queue s)) = None"
proof -
  have N: "base s (q_tail (queue s)) + q_filled (queue s) = length (pushed s)"
    "enq (tail_seg s) \<le> q_filled (queue s)"
    using spmc_invD(4) [OF inv] by (auto simp: counts_def)
  have "\<not> takers s (q_tail (queue s)) (q_filled (queue s))"
    using taker_claimed(1) [OF inv, of "q_tail (queue s)"] tail_claims [OF inv] N by fastforce
  moreover have "q_tail (queue s) \<in> live (hz s)"
    using chain_ends(2) [OF spmc_invD(3) [OF inv]] hz_partD(3) [OF inv] by auto
  moreover have "q_filled (queue s) < k" using spmc_invD(8) [OF inv] p by (simp add: push_ok_def)
  ultimately show ?thesis using spmc_invD(6) [OF inv] N by (simp add: cell_ok_def)
qed

lemma map_cells:
  assumes "b + e \<le> length xs" "\<And>i. d \<le> i \<Longrightarrow> i < e \<Longrightarrow> c i = Some (xs ! (b + i))"
  shows "map c [d..<e] = map Some (take (e - d) (drop (b + d) xs))"
  using assms by (intro nth_equalityI) (auto simp: add.assoc)

lemma destroy_segment:
  assumes inv: "spmc_inv k s" and idle: "\<And>r a i. popping s r \<noteq> QTake a i" and a: "a \<in> set (path s)"
  defines "to \<equiv> (if a = q_tail (queue s) then q_filled (queue s) else enq (seg_at s a))"
  shows "map (cells (seg_at s a)) [deq (seg_at s a)..<to] =
      map Some (take (to - deq (seg_at s a)) (drop (base s a + deq (seg_at s a)) (pushed s)))"
    "a \<noteq> q_tail (queue s) \<Longrightarrow> to = k" "a = q_tail (queue s) \<Longrightarrow> base s a + to = length (pushed s)"
    "deq (seg_at s a) \<le> to" "base s a + to \<le> length (pushed s)"
proof -
  note N = spmc_invD(4) [OF inv]
  have live: "a \<in> live (hz s)" using a hz_partD(3) [OF inv] by auto
  show full: "a \<noteq> q_tail (queue s) \<Longrightarrow> to = k"
    using N chain_ends(5) [OF spmc_invD(3) [OF inv] a] by (auto simp: to_def counts_def)
  show len: "a = q_tail (queue s) \<Longrightarrow> base s a + to = length (pushed s)"
    using N by (simp add: to_def counts_def)
  have "to \<le> k" using full N by (cases "a = q_tail (queue s)") (auto simp: to_def counts_def)
  show le: "base s a + to \<le> length (pushed s)"
    using len full behind_tail [OF inv live] N by (cases "a = q_tail (queue s)") (auto simp: counts_def)
  show "deq (seg_at s a) \<le> to"
    using full claims_le [OF inv live] tail_claims [OF inv] N
    by (cases "a = q_tail (queue s)") (auto simp: to_def counts_def)
  have "cells (seg_at s a) i = Some (pushed s ! (base s a + i))" if "deq (seg_at s a) \<le> i" "i < to" for i
    using spmc_invD(6) [OF inv] live that \<open>to \<le> k\<close> le by (simp add: cell_ok_def)
  then show "map (cells (seg_at s a)) [deq (seg_at s a)..<to] =
      map Some (take (to - deq (seg_at s a)) (drop (base s a + deq (seg_at s a)) (pushed s)))"
    using le by (intro map_cells) auto
qed

lemma destroy_suffix:
  assumes inv: "spmc_inv k s" and idle: "\<And>r a i. popping s r \<noteq> QTake a i"
  shows "j < length (path s) \<Longrightarrow> n = length (path s) - j \<Longrightarrow>
    spmc_destroy_from n (queue s) (path s ! j) (deq (seg_at s (path s ! j))) =
      Some (map Some (drop (base s (path s ! j) + deq (seg_at s (path s ! j))) (pushed s)), drop j (path s))"
proof (induction n arbitrary: j)
  case (Suc n)
  let ?a = "path s ! j"
  note C = spmc_invD(3) [OF inv]
  have a: "?a \<in> set (path s)" using Suc.prems by simp
  note D = destroy_segment [OF inv idle a]
  have dr: "drop j (path s) = ?a # drop (Suc j) (path s)" using Suc.prems by (simp add: Cons_nth_drop_Suc)
  show ?case
  proof (cases "Suc j < length (path s)")
    case False
    then have "j = length (path s) - 1" using Suc.prems by simp
    then have tail: "?a = q_tail (queue s)" using chainD(5,7) [OF C] by (simp add: last_conv_nth)
    then show ?thesis using D(1,3,4) chainD(3) [OF C] False dr by simp
  next
    case True
    let ?b = "path s ! Suc j"
    have nxt: "seg_next (seg_at s ?a) = Some ?b" using chainD(2) [OF C True] .
    then have ne: "?a \<noteq> q_tail (queue s)" using chainD(3) [OF C] by auto
    have "?b \<in> set (tl (path s))" using True by (cases "path s") auto
    then have zero: "deq (seg_at s ?b) = 0" using spmc_invD(4) [OF inv] by (simp add: counts_def)
    have base: "base s ?b = base s ?a + k" using chainD(1) [OF C True] chainD(1) [OF C Suc.prems(1)] by simp
    have full: "enq (seg_at s ?a) = k" "deq (seg_at s ?a) \<le> k" using D(2,4) ne by simp_all
    have "take (k - deq (seg_at s ?a)) (drop (base s ?a + deq (seg_at s ?a)) (pushed s)) @
        drop (base s ?a + k) (pushed s) = drop (base s ?a + deq (seg_at s ?a)) (pushed s)"
      using full(2) append_take_drop_id [of "k - deq (seg_at s ?a)" "drop (base s ?a + deq (seg_at s ?a)) (pushed s)"]
      by (simp add: ac_simps)
    then have "map Some (take (k - deq (seg_at s ?a)) (drop (base s ?a + deq (seg_at s ?a)) (pushed s))) @
        map Some (drop (base s ?a + k) (pushed s)) = map Some (drop (base s ?a + deq (seg_at s ?a)) (pushed s))"
      unfolding map_append [symmetric] by simp
    moreover have "n = length (path s) - Suc j" using Suc.prems by simp
    then have "spmc_destroy_from n (queue s) ?b 0 = Some (map Some (drop (base s ?a + k) (pushed s)), drop (Suc j) (path s))"
      using Suc.IH [of "Suc j"] zero base True by simp
    ultimately show ?thesis using D(1) ne nxt full dr by simp
  qed
qed simp

section \<open>The queue's promises\<close>

text \<open>
  C4. The single-producer multi-consumer queue is a linearisable FIFO queue: with any number of
  consumers, threads coming and going, and any interleaving, the pushes, pops and empty answers
  in the order they take effect are those of a sequential queue; the elements popped are the
  elements published, in order and each once, and a pop answers empty only when every published
  element is claimed.
\<close>

theorem spmc_linearisable_fifo:
  assumes "0 < k" and "run (spmc_step k) spmc_start es s"
  shows "fifo_run [] es = Some (spmc_content s) \<and> enqs es = deqs es @ spmc_content s"
  using spmc.run_fifo [of k spmc_start es s] spmc.run_order [of k spmc_start es s] assms
  by (simp add: spmc_starts_def)

theorem spmc_linearisable_fifo_witness:
  "fst (spmc_demo all_popped) = [Enq 7, Enq 8, Enq 9, Deq 7, Deq 8, Deq 9] \<and>
   fifo_run [] (fst (spmc_demo all_popped)) = Some []"
proof -
  have "fst (spmc_demo all_popped) = [Enq 7, Enq 8, Enq 9, Deq 7, Deq 8, Deq 9] \<and>
      spmc_content (snd (spmc_demo all_popped)) = []" by code_simp
  with spmc_linearisable_fifo [OF _ spmc_demo_run [OF spmc_demo_defined(2)]] show ?thesis by simp
qed

text \<open>
  C5. No thread touches freed memory: in every reachable state, with the allocator free to hand
  out freed addresses again, the segment a consumer is about to read, claim from or swing the
  head from is allocated, and so is the producer's; where a consumer moves an element out, the
  cell holds the element of that number; where the producer builds one, the cell is raw.
\<close>

theorem spmc_memory_safe:
  assumes "0 < k" and "run (spmc_step k) spmc_start es s"
  shows "(\<forall>r h. touches (popping s r) = Some h \<longrightarrow> h \<in> live (hz s)) \<and> q_tail (queue s) \<in> live (hz s) \<and>
    (\<forall>r h d. popping s r = QTake h d \<longrightarrow> cells (seg_at s h) d = Some (pushed s ! (base s h + d))) \<and>
    (\<forall>v pub. pushing s = PFill v pub \<longrightarrow> cells (tail_seg s) (q_filled (queue s)) = None)"
proof -
  have inv: "spmc_inv k s" using spmc_reachable assms .
  have live: "h \<in> live (hz s)" if "touches (popping s r) = Some h" for r h
    using holds_live [OF hz_partD(1) [OF inv] touches_held [OF inv that]] .
  have "d < k" if "popping s r = QTake h d" for r h d
    using taker_claimed [OF inv, of h d] claims_le [OF inv, of h] that unfolding takers_def by fastforce
  then have "cells (seg_at s h) d = Some (pushed s ! (base s h + d))" if "popping s r = QTake h d" for r h d
    using take_full [OF inv] that by blast
  moreover have "q_tail (queue s) \<in> live (hz s)"
    using chain_ends(2) [OF spmc_invD(3) [OF inv]] hz_partD(3) [OF inv] by auto
  ultimately show ?thesis using live fill_raw [OF inv] by blast
qed

theorem spmc_memory_safe_witness:
  "(let s = snd (spmc_demo first_claimed) in
    0 \<in> live (hz s) \<and> cells (seg_at s 0) 0 = Some 7 \<and> cells (tail_seg s) (q_filled (queue s)) = None)"
proof -
  let ?s = "snd (spmc_demo first_claimed)"
  have "popping ?s 0 = QTake 0 0 \<and> pushing ?s = PFill 5 True \<and> pushed ?s = [7, 8, 9] \<and> base ?s 0 = 0"
    by code_simp
  moreover from this have t: "touches (popping ?s 0) = Some 0" by simp
  note M = spmc_memory_safe [OF zero_less_numeral spmc_demo_run [OF spmc_demo_defined(1)]]
  have "0 \<in> live (hz ?s)" using M [THEN conjunct1, rule_format, OF t] .
  ultimately show ?thesis using M by (auto simp: Let_def)
qed

text \<open>
  C24. Nothing leaks when a segment is reclaimed: a segment a scan is about to free is not part of
  the queue any more, no consumer is working on it, and every cell of it is raw, so no element
  is freed undestroyed.
\<close>

theorem spmc_free_drained:
  assumes "0 < k" and "run (spmc_step k) spmc_start es s"
    and "scanning (hz s) r = Some ([], held)" and "a \<in> set (hz_frees r (hz s))" and "i < k"
  shows "cells (seg_at s a) i = None \<and> a \<notin> set (path s) \<and> (\<forall>r'. touches (popping s r') \<noteq> Some a)"
proof -
  have inv: "spmc_inv k s" using spmc_reachable assms(1,2) .
  have a: "a \<in> set (retired_of (hdom (hz s)) r)" "r < nrecs (hdom (hz s))"
    using assms(4) hz_scan_okD(1) [OF hz_partD(1) [OF inv] assms(3)]
    by (auto simp: hz_frees_def unheld_def assms(3))
  have R: "hz_retired_ok (hz s)" using hz_partD(1) [OF inv] by (simp add: hz_inv_def)
  have out: "a \<in> live (hz s)" "a \<notin> set (path s)"
    using R a hz_partD(2) [OF inv] unfolding hz_retired_ok_def by auto
  have free: "\<not> holds s r' a" for r'
    using hz_scan_done [OF hz_partD(1) [OF inv] assms(3)] assms(4) by (auto simp: holds_def)
  then have "\<not> takers s a i"
    using touches_held [OF inv] unfolding takers_def by (metis touches.simps(6))
  moreover have "deq (seg_at s a) = k" using spmc_invD(5) [OF inv] out by (auto simp: left_behind_def)
  ultimately have "cells (seg_at s a) i = None"
    using spmc_invD(6) [OF inv] out assms(5) by (simp add: cell_ok_def)
  then show ?thesis using out touches_held [OF inv] free by blast
qed

theorem spmc_free_drained_witness:
  "(let s = snd (spmc_demo about_to_free) in hz_frees 0 (hz s) = [0] \<and> cells (seg_at s 0) 1 = None)"
proof -
  let ?s = "snd (spmc_demo about_to_free)"
  have "scanning (hz ?s) 0 = Some ([], []) \<and> hz_frees 0 (hz ?s) = [0]" by code_simp
  then show ?thesis
    using spmc_free_drained [OF _ spmc_demo_run [OF spmc_demo_defined(3)], of 0 "[]" 0 1] by (simp add: Let_def)
qed

text \<open>
  C25. The destructor leaves nothing behind: run when no thread is inside a call, it destroys every
  element pushed and not claimed, published or not, in order and each once, and frees the
  segments from the head to the tail; its walk ends.
\<close>

theorem spmc_destroy_complete:
  assumes "0 < k" and "run (spmc_step k) spmc_start es s" and "\<forall>r. touches (popping s r) = None"
  shows "spmc_destroy (length (path s)) (queue s) = Some (map Some (drop (popped s) (pushed s)), path s)"
proof -
  have inv: "spmc_inv k s" using spmc_reachable assms(1,2) .
  have "popping s r \<noteq> QTake a i" for r a i using assms(3) by (metis option.distinct(1) touches.simps(6))
  moreover have "path s ! 0 = q_head (queue s)" "0 < length (path s)"
    using chainD(5,6) [OF spmc_invD(3) [OF inv]] by (auto simp: hd_conv_nth)
  ultimately show ?thesis
    using destroy_suffix [OF inv, of 0 "length (path s)"] spmc_invD(4) [OF inv]
    by (simp add: spmc_destroy_def counts_def)
qed

theorem spmc_destroy_complete_witness:
  "(let s = snd (spmc_demo three_pushed) in
    spmc_destroy 2 (queue s) = Some ([Some 7, Some 8, Some 9], [0, 1]))"
proof -
  let ?s = "snd (spmc_demo three_pushed)"
  have d: "exec (spmc_act 2) three_pushed spmc_start \<noteq> None"
    unfolding is_some_iff [symmetric] by code_simp
  have f: "popping ?s 0 = QIdle \<and> popping ?s 1 = QIdle \<and> nrecs (hdom (hz ?s)) = 2 \<and> popped ?s = 0 \<and>
      pushed ?s = [7, 8, 9] \<and> path ?s = [0, 1]" by code_simp
  have gone: "popping ?s r = QGone" if "2 \<le> r" for r
    using threads_okD(2) [OF spmc_reachable [OF _ spmc_demo_run [OF d]], of r] that f by simp
  have "touches (popping ?s r) = None" for r
  proof -
    consider "r = 0" | "r = 1" | "2 \<le> r" by linarith
    then show ?thesis using f gone by cases auto
  qed
  then show ?thesis
    using spmc_destroy_complete [OF _ spmc_demo_run [OF d]] f by (simp add: Let_def numeral_2_eq_2)
qed

end
