(* ===== verification/Bounded_Ring.thy ===== *)
theory Bounded_Ring
  imports Prelude
begin

text \<open>
  The bounded queue (runtime/bounded_ring.hpp): a ring of cells with sequence numbers, tickets
  taken from a head and a tail counter, in its two layouts (two counters, or one word that packs
  both), with single pushes and pops, overrunning pushes, batches and size. First the word-level
  helpers, then the ring, then its threads one access at a time.

  The counters and sequence numbers of the code are 32-bit and wrap. The model keeps the number
  of tickets ever taken, and the code's word is its low 32 bits (\<open>w32\<close>); every comparison the
  code makes is made on those words, so the model errs where the code would.
\<close>

unbundle bit_operations_syntax

section \<open>Words\<close>

definition w32 :: "nat \<Rightarrow> u32" where
  "w32 n = of_nat n"

definition headOf :: "u64 \<Rightarrow> u32" where
  "headOf s = ucast (drop_bit 32 s)"

definition tailOf :: "u64 \<Rightarrow> u32" where
  "tailOf s = ucast s"

definition pack :: "u32 \<Rightarrow> u32 \<Rightarrow> u64" where
  "pack h t = push_bit 32 (ucast h) OR ucast t"

definition kMaxCapacity :: nat where
  "kMaxCapacity = 2 ^ 30"

text \<open>The ring size: the least power of two that is at least two and the capacity, up to the limit.\<close>

function ringSize_from :: "nat \<Rightarrow> nat \<Rightarrow> nat" where
  "ringSize_from capacity r =
     (if r < capacity \<and> r < kMaxCapacity \<and> 0 < r then ringSize_from capacity (2 * r) else r)"
  by pat_completeness auto
termination by (relation "measure (\<lambda>(capacity, r). capacity - r)") auto

declare ringSize_from.simps [simp del]

definition ringSize :: "nat \<Rightarrow> nat" where
  "ringSize capacity = ringSize_from capacity 2"

text \<open>The decisions a call makes from the two words: is there room, and the sizes of batches.\<close>

definition is_full :: "nat \<Rightarrow> u32 \<Rightarrow> u32 \<Rightarrow> bool" where
  "is_full capacity h t \<longleftrightarrow> t - h \<ge> w32 capacity"

definition push_count :: "nat \<Rightarrow> nat \<Rightarrow> u32 \<Rightarrow> u32 \<Rightarrow> nat" where
  "push_count capacity n h t =
     (let used = t - h
      in if used \<ge> w32 capacity then 0
         else if n < unat (w32 capacity - used) then n else unat (w32 capacity - used))"

definition pop_count :: "nat \<Rightarrow> u32 \<Rightarrow> u32 \<Rightarrow> nat" where
  "pop_count n h t =
     (let held = t - h in if held = 0 then 0 else if n < unat held then n else unat held)"

section \<open>The ring\<close>

record 'a bcell =
  seq :: nat
  raw :: "'a option"

record 'a bring =
  cap :: nat
  rsize :: nat
  packed :: bool
  overrun :: bool
  mp :: bool
  mc :: bool
  bcells :: "nat \<Rightarrow> 'a bcell"
  hd_no :: nat
  tail_seen :: nat
  tl_no :: nat
  overruns :: nat

text \<open>The constructor; a capacity beyond the limit ends the program.\<close>

definition new_bring :: "nat \<Rightarrow> bool \<Rightarrow> bool \<Rightarrow> bool \<Rightarrow> bool \<Rightarrow> 'a bring option" where
  "new_bring capacity manyProducers manyConsumers ovr batches =
     (if capacity > kMaxCapacity then None
      else Some \<lparr>cap = capacity, rsize = ringSize capacity, packed = (ovr \<or> batches), overrun = ovr,
        mp = (manyProducers \<or> ovr), mc = (manyConsumers \<or> ovr),
        bcells = (\<lambda>i. \<lparr>seq = i, raw = None\<rparr>), hd_no = 0, tail_seen = 0, tl_no = 0, overruns = 0\<rparr>)"

abbreviation head_word :: "'a bring \<Rightarrow> u32" where
  "head_word b \<equiv> w32 (hd_no b)"

abbreviation tail_word :: "'a bring \<Rightarrow> u32" where
  "tail_word b \<equiv> w32 (tl_no b)"

definition state_word :: "'a bring \<Rightarrow> u64" where
  "state_word b = pack (head_word b) (tail_word b)"

text \<open>The cell of a ticket: the ticket masked by the ring size less one.\<close>

definition cell_of :: "'a bring \<Rightarrow> nat \<Rightarrow> nat" where
  "cell_of b n = unat (w32 n AND (w32 (rsize b) - 1))"

definition set_seq :: "nat \<Rightarrow> nat \<Rightarrow> 'a bring \<Rightarrow> 'a bring" where
  "set_seq i n b = b\<lparr>bcells := (bcells b)(i := (bcells b i)\<lparr>seq := n\<rparr>)\<rparr>"

definition set_raw :: "nat \<Rightarrow> 'a option \<Rightarrow> 'a bring \<Rightarrow> 'a bring" where
  "set_raw i v b = b\<lparr>bcells := (bcells b)(i := (bcells b i)\<lparr>raw := v\<rparr>)\<rparr>"

text \<open>The destructor: the elements from head to tail, by the words' equality.\<close>

fun bring_destroy_from :: "nat \<Rightarrow> 'a bring \<Rightarrow> nat \<Rightarrow> 'a option list option" where
  "bring_destroy_from 0 b h = None"
| "bring_destroy_from (Suc fuel) b h =
     (if w32 h = tail_word b then Some []
      else map_option ((#) (raw (bcells b (cell_of b h)))) (bring_destroy_from fuel b (Suc h)))"

definition bring_destroy :: "'a bring \<Rightarrow> 'a option list option" where
  "bring_destroy b = bring_destroy_from (Suc (cap b)) b (hd_no b)"

section \<open>Threads\<close>

text \<open>
  A call's next access. Filling and emptying cells have three phases: waiting for the cell's
  sequence number, working on the cell, storing the new number.
\<close>

datatype phase = Wait | Work | Done

datatype 'a bpc =
    BIdle
  \<comment> \<open>\<open>try_push\<close>, split layout: read tail, read head, read tail again, take the ticket\<close>
  | PTail 'a | PHead 'a nat | PAgain 'a nat | PTake 'a nat
  \<comment> \<open>\<open>try_push\<close>, \<open>push_overrun\<close> and \<open>try_push_n\<close>, packed: read the word, swap it\<close>
  | PState 'a | PCas 'a nat nat
  | OState 'a | OCas 'a nat nat
  | NState "'a list" | NCas "'a list" nat nat
  \<comment> \<open>an overrun empties the oldest cell before it fills its own\<close>
  | OTake phase nat nat 'a
  \<comment> \<open>the tickets still to fill, with their values; the tickets still to empty\<close>
  | BFill phase "(nat \<times> 'a) list"
  | BTake phase "nat list"
  \<comment> \<open>\<open>consume\<close>, split: read head, tail's copy, tail; store the copy; take the ticket\<close>
  | CHead | CSeen nat | CTail nat | CStore nat nat | CTicket nat
  \<comment> \<open>\<open>consume\<close> and \<open>consume_n\<close>, packed\<close>
  | CState | CCas nat nat
  | MState nat | MCas nat nat nat
  \<comment> \<open>\<open>size\<close>, split\<close>
  | SHead | STail nat | SAgain nat nat

text \<open>
  What takes effect: pushes, refusals, overruns (the oldest element dropped for the new one),
  pops, batches with the size asked for.
\<close>

datatype 'a bevent = BPush 'a | BFull | BOver 'a | BPop 'a | BEmpty
  | BPushN nat "'a list" | BPopN nat "'a list" | BSize nat

text \<open>The sequential bounded queue.\<close>

fun bq_step :: "nat \<Rightarrow> 'a list \<Rightarrow> 'a bevent \<Rightarrow> 'a list option" where
  "bq_step c q (BPush v) = (if length q < c then Some (q @ [v]) else None)"
| "bq_step c q BFull = (if c \<le> length q then Some q else None)"
| "bq_step c q (BOver v) =
     (if c = 0 then Some q else if c \<le> length q then Some (tl q @ [v]) else None)"
| "bq_step c q (BPop v) = (case q of [] \<Rightarrow> None | x # xs \<Rightarrow> if x = v then Some xs else None)"
| "bq_step c q BEmpty = (if q = [] then Some [] else None)"
| "bq_step c q (BPushN n vs) = (if length vs = min n (c - length q) then Some (q @ vs) else None)"
| "bq_step c q (BPopN n vs) = (if vs = take n q then Some (drop n q) else None)"
| "bq_step c q (BSize n) = (if n = length q then Some q else None)"

text \<open>
  The system: the ring, the threads, the value each ticket was taken for, the only producer and
  consumer where a side is single, and for a thread inside a call of the split layout what was so
  at the access the call's answer is about (that the queue was full; how many it held).
\<close>

record 'a bsys =
  bring :: "'a bring"
  bpc :: "nat \<Rightarrow> 'a bpc"
  vals :: "nat \<Rightarrow> 'a"
  sole_p :: nat
  sole_c :: nat
  was_full :: "nat \<Rightarrow> bool"
  was_size :: "nat \<Rightarrow> nat"

definition bgoto :: "nat \<Rightarrow> 'a bpc \<Rightarrow> 'a bsys \<Rightarrow> 'a bsys" where
  "bgoto p pc s = s\<lparr>bpc := (bpc s)(p := pc)\<rparr>"

datatype 'a bop = TryPush 'a | PushOverrun 'a | Consume | TryPushN "'a list" | ConsumeN nat | Size
  | ResetOverruns

text \<open>
  The calls. A batch on a ring built without batches, and an overrunning push on one built
  without overruns, end the program (no step); a batch of nothing returns at once, and so does an
  overrun at capacity zero, which counts itself and drops its element.
\<close>

fun bcall :: "nat \<Rightarrow> 'a bop \<Rightarrow> 'a bsys \<Rightarrow> ('a bevent list \<times> 'a bsys) option" where
  "bcall p (TryPush v) s =
     (if mp (bring s) \<or> p = sole_p s
      then Some ([], bgoto p (if packed (bring s) then PState v else PTail v) s) else None)"
| "bcall p (PushOverrun v) s =
     (if \<not> overrun (bring s) then None
      else if cap (bring s) = 0 then Some ([BOver v], s\<lparr>bring := (bring s)\<lparr>overruns := Suc (overruns (bring s))\<rparr>\<rparr>)
      else Some ([], bgoto p (OState v) s))"
| "bcall p Consume s =
     (if mc (bring s) \<or> p = sole_c s
      then Some ([], bgoto p (if packed (bring s) then CState else CHead) s) else None)"
| "bcall p (TryPushN vs) s =
     (if \<not> packed (bring s) \<or> \<not> (mp (bring s) \<or> p = sole_p s) then None
      else if vs = [] then Some ([BPushN 0 []], s) else Some ([], bgoto p (NState vs) s))"
| "bcall p (ConsumeN n) s =
     (if \<not> packed (bring s) \<or> \<not> (mc (bring s) \<or> p = sole_c s) then None
      else if n = 0 then Some ([BPopN 0 []], s) else Some ([], bgoto p (MState n) s))"
| "bcall p Size s =
     Some (if packed (bring s) then ([BSize (unat (tail_word (bring s) - head_word (bring s)))], s)
           else ([], bgoto p SHead s))"
| "bcall p ResetOverruns s = Some ([], s\<lparr>bring := (bring s)\<lparr>overruns := 0\<rparr>\<rparr>)"

subsection \<open>Taking tickets\<close>

definition take_push :: "nat \<Rightarrow> 'a list \<Rightarrow> 'a bsys \<Rightarrow> 'a bsys" where
  "take_push p vs s =
     (let t = tl_no (bring s)
      in bgoto p (BFill Wait (zip [t..<t + length vs] vs))
        (s\<lparr>bring := (bring s)\<lparr>tl_no := t + length vs\<rparr>,
          vals := (\<lambda>n. if t \<le> n \<and> n < t + length vs then vs ! (n - t) else vals s n)\<rparr>))"

definition take_pop :: "nat \<Rightarrow> nat \<Rightarrow> 'a bsys \<Rightarrow> 'a bsys" where
  "take_pop p n s =
     (let h = hd_no (bring s)
      in bgoto p (BTake Wait [h..<h + n]) (s\<lparr>bring := (bring s)\<lparr>hd_no := h + n\<rparr>\<rparr>))"

definition take_over :: "nat \<Rightarrow> 'a \<Rightarrow> 'a bsys \<Rightarrow> 'a bsys" where
  "take_over p v s =
     (let h = hd_no (bring s); t = tl_no (bring s)
      in bgoto p (OTake Wait h t v)
        (s\<lparr>bring := (bring s)\<lparr>hd_no := Suc h, tl_no := Suc t\<rparr>, vals := (vals s)(t := v)\<rparr>))"

definition popped_vals :: "nat \<Rightarrow> 'a bsys \<Rightarrow> 'a list" where
  "popped_vals n s = map (vals s) [hd_no (bring s)..<hd_no (bring s) + n]"

text \<open>What a call decides when it has the packed word, read or returned by a failed swap.\<close>

definition decide_push :: "nat \<Rightarrow> 'a \<Rightarrow> 'a bsys \<Rightarrow> 'a bevent list \<times> 'a bsys" where
  "decide_push p v s =
     (let w = state_word (bring s)
      in if is_full (cap (bring s)) (headOf w) (tailOf w) then ([BFull], bgoto p BIdle s)
         else ([], bgoto p (PCas v (hd_no (bring s)) (tl_no (bring s))) s))"

definition decide_push_n :: "nat \<Rightarrow> 'a list \<Rightarrow> 'a bsys \<Rightarrow> 'a bevent list \<times> 'a bsys" where
  "decide_push_n p vs s =
     (let w = state_word (bring s)
      in if push_count (cap (bring s)) (length vs) (headOf w) (tailOf w) = 0
         then ([BPushN (length vs) []], bgoto p BIdle s)
         else ([], bgoto p (NCas vs (hd_no (bring s)) (tl_no (bring s))) s))"

definition decide_pop :: "nat \<Rightarrow> 'a bsys \<Rightarrow> 'a bevent list \<times> 'a bsys" where
  "decide_pop p s =
     (let w = state_word (bring s)
      in if headOf w = tailOf w then ([BEmpty], bgoto p BIdle s)
         else ([], bgoto p (CCas (hd_no (bring s)) (tl_no (bring s))) s))"

definition decide_pop_n :: "nat \<Rightarrow> nat \<Rightarrow> 'a bsys \<Rightarrow> 'a bevent list \<times> 'a bsys" where
  "decide_pop_n p n s =
     (let w = state_word (bring s)
      in if pop_count n (headOf w) (tailOf w) = 0 then ([BPopN n []], bgoto p BIdle s)
         else ([], bgoto p (MCas n (hd_no (bring s)) (tl_no (bring s))) s))"

text \<open>The weak swap of the packed word: it succeeds only where the word is the one decided on.\<close>

definition swaps :: "bool \<Rightarrow> nat \<Rightarrow> nat \<Rightarrow> 'a bsys \<Rightarrow> bool" where
  "swaps spurious h t s \<longleftrightarrow> state_word (bring s) = pack (w32 h) (w32 t) \<and> \<not> spurious"

definition cas_push :: "bool \<Rightarrow> nat \<Rightarrow> 'a \<Rightarrow> nat \<Rightarrow> nat \<Rightarrow> 'a bsys \<Rightarrow> 'a bevent list \<times> 'a bsys" where
  "cas_push spurious p v h t s =
     (if swaps spurious h t s then ([BPush v], take_push p [v] s) else decide_push p v s)"

definition cas_over :: "bool \<Rightarrow> nat \<Rightarrow> 'a \<Rightarrow> nat \<Rightarrow> nat \<Rightarrow> 'a bsys \<Rightarrow> 'a bevent list \<times> 'a bsys" where
  "cas_over spurious p v h t s =
     (if swaps spurious h t s then
        if is_full (cap (bring s)) (w32 h) (w32 t) then ([BOver v], take_over p v s)
        else ([BPush v], take_push p [v] s)
      else ([], bgoto p (OCas v (hd_no (bring s)) (tl_no (bring s))) s))"

definition cas_push_n ::
    "bool \<Rightarrow> nat \<Rightarrow> 'a list \<Rightarrow> nat \<Rightarrow> nat \<Rightarrow> 'a bsys \<Rightarrow> 'a bevent list \<times> 'a bsys" where
  "cas_push_n spurious p vs h t s =
     (let k = push_count (cap (bring s)) (length vs) (w32 h) (w32 t)
      in if swaps spurious h t s
         then ([BPushN (length vs) (take k vs)], take_push p (take k vs) s) else decide_push_n p vs s)"

definition cas_pop :: "bool \<Rightarrow> nat \<Rightarrow> nat \<Rightarrow> nat \<Rightarrow> 'a bsys \<Rightarrow> 'a bevent list \<times> 'a bsys" where
  "cas_pop spurious p h t s =
     (if swaps spurious h t s then ([BPop (vals s (hd_no (bring s)))], take_pop p 1 s) else decide_pop p s)"

definition cas_pop_n :: "bool \<Rightarrow> nat \<Rightarrow> nat \<Rightarrow> nat \<Rightarrow> nat \<Rightarrow> 'a bsys \<Rightarrow> 'a bevent list \<times> 'a bsys" where
  "cas_pop_n spurious p n h t s =
     (let k = pop_count n (w32 h) (w32 t)
      in if swaps spurious h t s then ([BPopN n (popped_vals k s)], take_pop p k s) else decide_pop_n p n s)"

subsection \<open>The split layout\<close>

definition push_read_head :: "nat \<Rightarrow> 'a \<Rightarrow> nat \<Rightarrow> 'a bsys \<Rightarrow> 'a bsys" where
  "push_read_head p v t s =
     (if is_full (cap (bring s)) (head_word (bring s)) (w32 t)
      then bgoto p (PAgain v t)
        (s\<lparr>was_full := (was_full s)(p := cap (bring s) \<le> tl_no (bring s) - hd_no (bring s))\<rparr>)
      else bgoto p (PTake v t) s)"

definition push_ticket :: "bool \<Rightarrow> nat \<Rightarrow> 'a \<Rightarrow> nat \<Rightarrow> 'a bsys \<Rightarrow> 'a bevent list \<times> 'a bsys" where
  "push_ticket spurious p v t s =
     (if \<not> mp (bring s) \<or> tail_word (bring s) = w32 t \<and> \<not> spurious
      then ([BPush v], take_push p [v] (s\<lparr>bring := (bring s)\<lparr>tl_no := (if mp (bring s) then tl_no (bring s) else t)\<rparr>\<rparr>))
      else ([], bgoto p (PTail v) s))"

definition pop_read_tail :: "nat \<Rightarrow> nat \<Rightarrow> 'a bsys \<Rightarrow> 'a bevent list \<times> 'a bsys" where
  "pop_read_tail p h s =
     (if w32 h = tail_word (bring s) then [BEmpty] else [], bgoto p (CStore h (tl_no (bring s))) s)"

definition pop_store_seen :: "nat \<Rightarrow> nat \<Rightarrow> nat \<Rightarrow> 'a bsys \<Rightarrow> 'a bsys" where
  "pop_store_seen p h t s =
     bgoto p (if w32 h = w32 t then BIdle else CTicket h) (s\<lparr>bring := (bring s)\<lparr>tail_seen := t\<rparr>\<rparr>)"

definition pop_ticket :: "bool \<Rightarrow> nat \<Rightarrow> nat \<Rightarrow> 'a bsys \<Rightarrow> 'a bevent list \<times> 'a bsys" where
  "pop_ticket spurious p h s =
     (if \<not> mc (bring s) \<or> head_word (bring s) = w32 h \<and> \<not> spurious then
        let s = s\<lparr>bring := (bring s)\<lparr>hd_no := (if mc (bring s) then hd_no (bring s) else h)\<rparr>\<rparr>
        in ([BPop (vals s (hd_no (bring s)))], take_pop p 1 s)
      else ([], bgoto p CHead s))"

subsection \<open>Cells\<close>

abbreviation bseq :: "'a bsys \<Rightarrow> nat \<Rightarrow> nat" where
  "bseq s i \<equiv> seq (bcells (bring s) i)"

abbreviation braw :: "'a bsys \<Rightarrow> nat \<Rightarrow> 'a option" where
  "braw s i \<equiv> raw (bcells (bring s) i)"

abbreviation ticket_cell :: "'a bsys \<Rightarrow> nat \<Rightarrow> nat" where
  "ticket_cell s n \<equiv> cell_of (bring s) n"

definition fill_ready :: "nat \<Rightarrow> 'a bsys \<Rightarrow> bool" where
  "fill_ready t s \<longleftrightarrow> w32 (bseq s (ticket_cell s t)) = w32 t"

definition take_ready :: "nat \<Rightarrow> 'a bsys \<Rightarrow> bool" where
  "take_ready h s \<longleftrightarrow> w32 (bseq s (ticket_cell s h)) = w32 h + 1"

fun fill_step :: "nat \<Rightarrow> phase \<Rightarrow> (nat \<times> 'a) list \<Rightarrow> 'a bsys \<Rightarrow> 'a bsys" where
  "fill_step p ph [] s = bgoto p BIdle s"
| "fill_step p Wait ((t, v) # ts) s = (if fill_ready t s then bgoto p (BFill Work ((t, v) # ts)) s else s)"
| "fill_step p Work ((t, v) # ts) s =
     bgoto p (BFill Done ((t, v) # ts)) (s\<lparr>bring := set_raw (ticket_cell s t) (Some v) (bring s)\<rparr>)"
| "fill_step p Done ((t, v) # ts) s =
     bgoto p (if ts = [] then BIdle else BFill Wait ts) (s\<lparr>bring := set_seq (ticket_cell s t) (t + 1) (bring s)\<rparr>)"

definition empty_cell :: "nat \<Rightarrow> 'a bsys \<Rightarrow> 'a bsys" where
  "empty_cell h s = s\<lparr>bring := set_raw (ticket_cell s h) None (bring s)\<rparr>"

definition free_cell :: "nat \<Rightarrow> 'a bsys \<Rightarrow> 'a bsys" where
  "free_cell h s = s\<lparr>bring := set_seq (ticket_cell s h) (h + rsize (bring s)) (bring s)\<rparr>"

fun take_step :: "nat \<Rightarrow> phase \<Rightarrow> nat list \<Rightarrow> 'a bsys \<Rightarrow> 'a bsys" where
  "take_step p ph [] s = bgoto p BIdle s"
| "take_step p Wait (h # hs) s = (if take_ready h s then bgoto p (BTake Work (h # hs)) s else s)"
| "take_step p Work (h # hs) s = bgoto p (BTake Done (h # hs)) (empty_cell h s)"
| "take_step p Done (h # hs) s = bgoto p (if hs = [] then BIdle else BTake Wait hs) (free_cell h s)"

fun over_step :: "nat \<Rightarrow> phase \<Rightarrow> nat \<Rightarrow> nat \<Rightarrow> 'a \<Rightarrow> 'a bsys \<Rightarrow> 'a bsys" where
  "over_step p Wait h t v s = (if take_ready h s then bgoto p (OTake Work h t v) s else s)"
| "over_step p Work h t v s = bgoto p (OTake Done h t v) (empty_cell h s)"
| "over_step p Done h t v s =
     bgoto p (BFill Wait [(t, v)])
       ((free_cell h s)\<lparr>bring := (bring (free_cell h s))\<lparr>overruns := Suc (overruns (bring s))\<rparr>\<rparr>)"

subsection \<open>All steps\<close>

fun bmove :: "bool \<Rightarrow> nat \<Rightarrow> 'a bsys \<Rightarrow> ('a bevent list \<times> 'a bsys) option" where
  "bmove spurious p s = (case bpc s p of
     BIdle \<Rightarrow> None
   | PTail v \<Rightarrow> Some ([], bgoto p (PHead v (tl_no (bring s))) s)
   | PHead v t \<Rightarrow> Some ([], push_read_head p v t s)
   | PAgain v t \<Rightarrow> Some ([], bgoto p (if tail_word (bring s) \<noteq> w32 t then PTail v else BIdle) s)
   | PTake v t \<Rightarrow> Some (push_ticket spurious p v t s)
   | PState v \<Rightarrow> Some (decide_push p v s)
   | PCas v h t \<Rightarrow> Some (cas_push spurious p v h t s)
   | OState v \<Rightarrow> Some ([], bgoto p (OCas v (hd_no (bring s)) (tl_no (bring s))) s)
   | OCas v h t \<Rightarrow> Some (cas_over spurious p v h t s)
   | NState vs \<Rightarrow> Some (decide_push_n p vs s)
   | NCas vs h t \<Rightarrow> Some (cas_push_n spurious p vs h t s)
   | OTake ph h t v \<Rightarrow> Some ([], over_step p ph h t v s)
   | BFill ph ts \<Rightarrow> Some ([], fill_step p ph ts s)
   | BTake ph hs \<Rightarrow> Some ([], take_step p ph hs s)
   | CHead \<Rightarrow> Some ([], bgoto p (CSeen (hd_no (bring s))) s)
   | CSeen h \<Rightarrow> Some ([], bgoto p
       (if sint (w32 (tail_seen (bring s)) - w32 h) \<le> 0 then CTail h else CTicket h) s)
   | CTail h \<Rightarrow> Some (pop_read_tail p h s)
   | CStore h t \<Rightarrow> Some ([], pop_store_seen p h t s)
   | CTicket h \<Rightarrow> Some (pop_ticket spurious p h s)
   | CState \<Rightarrow> Some (decide_pop p s)
   | CCas h t \<Rightarrow> Some (cas_pop spurious p h t s)
   | MState n \<Rightarrow> Some (decide_pop_n p n s)
   | MCas n h t \<Rightarrow> Some (cas_pop_n spurious p n h t s)
   | SHead \<Rightarrow> Some ([], bgoto p (STail (hd_no (bring s))) s)
   | STail h \<Rightarrow> Some ([], bgoto p (SAgain h (tl_no (bring s)))
       (s\<lparr>was_size := (was_size s)(p := tl_no (bring s) - hd_no (bring s))\<rparr>))
   | SAgain h t \<Rightarrow> Some ([], bgoto p (if head_word (bring s) = w32 h then BIdle else SHead) s))"

datatype 'a bchoice = Call nat "'a bop" | Move nat bool

fun bact :: "'a bchoice \<Rightarrow> 'a bsys \<Rightarrow> ('a bevent list \<times> 'a bsys) option" where
  "bact (Call p op) s = (if bpc s p = BIdle then bcall p op s else None)"
| "bact (Move p spurious) s = bmove spurious p s"

inductive bstep :: "'a bsys \<Rightarrow> 'a bevent list \<Rightarrow> 'a bsys \<Rightarrow> bool" where
  choose: "bact c s = Some (es, t) \<Longrightarrow> bstep s es t"

definition bcontent :: "'a bsys \<Rightarrow> 'a list" where
  "bcontent s = map (vals s) [hd_no (bring s)..<tl_no (bring s)]"

end
