(* ===== verification/Bounded_Correct.thy ===== *)
theory Bounded_Correct
  imports Bounded_Ring
begin

text \<open>
  The bounded queue under any number of threads: the word arithmetic of the tickets, the
  invariant of tickets and cells, and that every step keeps it and does what the sequential
  bounded queue does.
\<close>

section \<open>Words\<close>

lemma w32_diff:
  assumes "b \<le> a" "a < b + 2 ^ 32"
  shows "unat (w32 a - w32 b) = a - b"
proof -
  obtain c where a: "a = b + c" using assms(1) le_Suc_ex by blast
  then have "w32 a - w32 b = of_nat c" by (simp add: w32_def)
  moreover have "c < 2 ^ 32" using assms(2) a by simp
  ultimately show ?thesis by (simp add: a unat_of_nat take_bit_eq_mod)
qed

lemma w32_eq: "w32 a = w32 b \<Longrightarrow> a < b + 2 ^ 32 \<Longrightarrow> b < a + 2 ^ 32 \<Longrightarrow> a = b"
  using of_nat_eq_window [where 'a = 32, of a b] by (simp add: w32_def)

lemma w32_neg_diff:
  assumes "a < b" "b < a + 2 ^ 32"
  shows "unat (w32 a - w32 b) = 2 ^ 32 - (b - a)"
proof -
  have "w32 a = w32 (a + 2 ^ 32)" by (simp add: w32_def)
  then show ?thesis using w32_diff [of b "a + 2 ^ 32"] assms by simp
qed

lemma w32_sint_diff:
  assumes "a < b + 2 ^ 31" "b < a + 2 ^ 31"
  shows "sint (w32 a - w32 b) = int a - int b"
proof -
  have eq: "w32 a - w32 b = word_of_int (int a - int b)" by (simp add: w32_def)
  have "a < b + 2147483648" "b < a + 2147483648" using assms by simp_all
  then have "- (2 ^ 31) \<le> int a - int b" "int a - int b < 2 ^ 31" by simp_all
  then have "signed_take_bit 31 (int a - int b) = int a - int b"
    by (simp add: signed_take_bit_int_eq_self)
  then show ?thesis unfolding eq signed_of_int by simp
qed

lemma unat_w32: "c < 2 ^ 32 \<Longrightarrow> unat (w32 c) = c"
  by (simp add: w32_def unat_of_nat take_bit_eq_mod)

lemma w32_Suc: "w32 n + 1 = w32 (Suc n)"
  by (simp add: w32_def)

lemma is_full_iff:
  assumes "c \<le> 2 ^ 30" "h \<le> t" "t < h + 2 ^ 32"
  shows "is_full c (w32 h) (w32 t) \<longleftrightarrow> c \<le> t - h"
  using assms w32_diff [of h t] unat_w32 [of c] by (simp add: is_full_def word_le_nat_alt)

lemma is_full_past:
  assumes "c \<le> 2 ^ 30" "t < h" "h < t + 2 ^ 31"
  shows "is_full c (w32 h) (w32 t)"
  using assms w32_neg_diff [of t h] unat_w32 [of c] by (simp add: is_full_def word_le_nat_alt)

lemma push_count_eq:
  assumes "c \<le> 2 ^ 30" "h \<le> t" "t < h + 2 ^ 32"
  shows "push_count c n (w32 h) (w32 t) = min n (c - (t - h))"
proof (cases "c \<le> t - h")
  case True
  then show ?thesis
    using assms w32_diff [of h t] unat_w32 [of c] by (simp add: push_count_def word_le_nat_alt)
next
  case False
  then have "unat (w32 c - (w32 t - w32 h)) = c - (t - h)"
    using assms w32_diff [of h t] unat_w32 [of c] by (simp add: unat_minus_small)
  then show ?thesis
    using assms False w32_diff [of h t] unat_w32 [of c]
    by (auto simp: push_count_def word_le_nat_alt Let_def)
qed

lemma pop_count_eq:
  assumes "h \<le> t" "t < h + 2 ^ 32"
  shows "pop_count n (w32 h) (w32 t) = min n (t - h)"
proof -
  have "w32 t - w32 h = 0 \<longleftrightarrow> t - h = 0"
    using w32_diff [OF assms] by (metis unat_0 unat_eq_zero)
  then show ?thesis using w32_diff [OF assms] by (auto simp: pop_count_def Let_def)
qed

lemma head_of_pack [simp]: "headOf (pack h t) = h"
  by (rule bit_word_eqI) (auto simp: headOf_def pack_def bit_simps dest: bit_imp_le_length)

lemma tail_of_pack [simp]: "tailOf (pack h t) = t"
  by (rule bit_word_eqI) (auto simp: tailOf_def pack_def bit_simps)

lemma pack_inject [simp]: "pack h t = pack h' t' \<longleftrightarrow> h = h' \<and> t = t'"
  by (metis head_of_pack tail_of_pack)

lemma cell_of_mod:
  assumes "rsize b = 2 ^ m" "m < 32"
  shows "cell_of b n = n mod rsize b"
proof -
  have "w32 (rsize b) - 1 = mask m" using assms by (simp add: w32_def mask_eq_decr_exp)
  then have "cell_of b n = unat (take_bit m (w32 n))" by (simp add: cell_of_def take_bit_eq_mask)
  also have "\<dots> = take_bit m (unat (w32 n))" by (simp add: unsigned_take_bit_eq)
  also have "unat (w32 n) = n mod 2 ^ 32" by (simp add: w32_def unat_of_nat take_bit_eq_mod)
  also have "take_bit m (n mod 2 ^ 32) = n mod 2 ^ 32 mod 2 ^ m" by (simp add: take_bit_eq_mod)
  also have "\<dots> = n mod 2 ^ m"
    using assms(2) by (intro mod_mod_cancel le_imp_power_dvd) simp
  finally show ?thesis by (simp add: assms(1))
qed

lemma ringSize_from_pow:
  assumes "1 \<le> i" "i \<le> 30"
  shows "\<exists>m. ringSize_from c (2 ^ i) = 2 ^ m \<and> i \<le> m \<and> m \<le> 30 \<and> (c \<le> kMaxCapacity \<longrightarrow> c \<le> 2 ^ m) \<and>
    (i < m \<longrightarrow> 2 ^ (m - 1) < c)"
  using assms
proof (induction "30 - i" arbitrary: i)
  case 0
  then have "i = 30" by simp
  moreover have "ringSize_from c (2 ^ 30) = 2 ^ 30"
    by (subst ringSize_from.simps) (simp add: kMaxCapacity_def)
  ultimately show ?case by (intro exI [of _ 30]) (simp add: kMaxCapacity_def)
next
  case (Suc d)
  show ?case
  proof (cases "2 ^ i < c")
    case True
    have "i < 30" using Suc by simp
    then have lt: "(2::nat) ^ i < 2 ^ 30" by (rule power_strict_increasing) simp
    obtain m where m: "ringSize_from c (2 ^ Suc i) = 2 ^ m" "Suc i \<le> m" "m \<le> 30"
      "c \<le> kMaxCapacity \<longrightarrow> c \<le> 2 ^ m" "Suc i < m \<longrightarrow> 2 ^ (m - 1) < c"
    proof -
      have "d = 30 - Suc i" using Suc.hyps(2) by simp
      from Suc.hyps(1) [OF this] show ?thesis using \<open>i < 30\<close> that by auto
    qed
    have "2 ^ (m - 1) < c" using m(2,5) True by (cases "m = Suc i") auto
    then show ?thesis
      using m True lt by (intro exI [of _ m]) (simp add: ringSize_from.simps [of c "2 ^ i"] kMaxCapacity_def)
  next
    case False
    then show ?thesis
      using Suc.prems by (intro exI [of _ i]) (simp add: ringSize_from.simps [of c "2 ^ i"])
  qed
qed

lemma ringSize_pow:
  obtains m where "ringSize c = 2 ^ m" "1 \<le> m" "m \<le> 30" "c \<le> kMaxCapacity \<Longrightarrow> c \<le> 2 ^ m"
    "1 < m \<Longrightarrow> 2 ^ (m - 1) < c"
  using ringSize_from_pow [of 1 c] by (auto simp: ringSize_def)

lemma mod_gap:
  fixes a b r :: nat
  assumes "a mod r = b mod r" "a < b"
  shows "a + r \<le> b"
proof -
  have "r dvd b - a" using assms by (metis mod_eq_dvd_iff_nat less_imp_le)
  then show ?thesis using assms(2) by (auto dest: dvd_imp_le)
qed

section \<open>The invariant\<close>

text \<open>The tickets a thread has still to fill and to empty, and the cell it works on.\<close>

fun fills :: "'a bpc \<Rightarrow> nat list" where
  "fills (BFill _ ts) = map fst ts"
| "fills (OTake _ h t v) = [t]"
| "fills _ = []"

fun takes :: "'a bpc \<Rightarrow> nat list" where
  "takes (BTake _ hs) = hs"
| "takes (OTake _ h t v) = [h]"
| "takes _ = []"

fun fill_vals :: "'a bpc \<Rightarrow> (nat \<times> 'a) list" where
  "fill_vals (BFill _ ts) = ts"
| "fill_vals (OTake _ h t v) = [(t, v)]"
| "fill_vals _ = []"

fun filling :: "'a bpc \<Rightarrow> (phase \<times> nat) option" where
  "filling (BFill ph ((t, _) # _)) = Some (ph, t)"
| "filling _ = None"

fun taking :: "'a bpc \<Rightarrow> (phase \<times> nat) option" where
  "taking (BTake ph (h # _)) = Some (ph, h)"
| "taking (OTake ph h _ _) = Some (ph, h)"
| "taking _ = None"

lemma fills_vals: "fills pc = map fst (fill_vals pc)"
  by (cases pc) auto

text \<open>A ticket is filled once its cell's number is past it, and emptied once that is a lap past it.\<close>

definition sizes_ok :: "'a bring \<Rightarrow> bool" where
  "sizes_ok b \<longleftrightarrow> cap b \<le> 2 ^ 30 \<and> (\<exists>m. rsize b = 2 ^ m \<and> 1 \<le> m \<and> m \<le> 30) \<and> cap b \<le> rsize b \<and>
     hd_no b \<le> tl_no b \<and> tl_no b \<le> hd_no b + cap b \<and> (overrun b \<longrightarrow> packed b \<and> mp b \<and> mc b)"

definition cell_seq :: "'a bsys \<Rightarrow> nat \<Rightarrow> nat" where
  "cell_seq s n = bseq s (n mod rsize (bring s))"

definition cell_raw :: "'a bsys \<Rightarrow> nat \<Rightarrow> 'a option" where
  "cell_raw s n = braw s (n mod rsize (bring s))"

definition push_tickets_ok :: "'a bsys \<Rightarrow> bool" where
  "push_tickets_ok s \<longleftrightarrow>
     (\<forall>n < tl_no (bring s). cell_seq s n \<le> n \<longrightarrow> (\<exists>p. n \<in> set (fills (bpc s p)))) \<and>
     (\<forall>p. \<forall>n \<in> set (fills (bpc s p)). n < tl_no (bring s) \<and> cell_seq s n \<le> n) \<and>
     (\<forall>n \<ge> tl_no (bring s). cell_seq s n \<le> n) \<and>
     (\<forall>p q n. n \<in> set (fills (bpc s p)) \<longrightarrow> n \<in> set (fills (bpc s q)) \<longrightarrow> p = q) \<and>
     (\<forall>p. distinct (fills (bpc s p)))"

definition pop_tickets_ok :: "'a bsys \<Rightarrow> bool" where
  "pop_tickets_ok s \<longleftrightarrow>
     (\<forall>n < hd_no (bring s). cell_seq s n < n + rsize (bring s) \<longrightarrow> (\<exists>p. n \<in> set (takes (bpc s p)))) \<and>
     (\<forall>p. \<forall>n \<in> set (takes (bpc s p)). n < hd_no (bring s) \<and> cell_seq s n < n + rsize (bring s)) \<and>
     (\<forall>n \<ge> hd_no (bring s). cell_seq s n < n + rsize (bring s)) \<and>
     (\<forall>p q n. n \<in> set (takes (bpc s p)) \<longrightarrow> n \<in> set (takes (bpc s q)) \<longrightarrow> p = q) \<and>
     (\<forall>p. distinct (takes (bpc s p)))"

definition cells_ok :: "'a bsys \<Rightarrow> bool" where
  "cells_ok s \<longleftrightarrow>
     (\<forall>i < rsize (bring s). \<exists>c. c mod rsize (bring s) = i \<and> (bseq s i = c \<or> bseq s i = Suc c)) \<and>
     (\<forall>p ph t. filling (bpc s p) = Some (ph, t) \<longrightarrow>
        (ph \<noteq> Wait \<longrightarrow> cell_seq s t = t) \<and> (ph = Done \<longrightarrow> cell_raw s t = Some (vals s t))) \<and>
     (\<forall>p ph h. taking (bpc s p) = Some (ph, h) \<longrightarrow>
        (ph \<noteq> Wait \<longrightarrow> cell_seq s h = Suc h) \<and> (ph = Done \<longrightarrow> cell_raw s h = None)) \<and>
     (\<forall>n. cell_seq s n = Suc n \<longrightarrow> (\<exists>p. taking (bpc s p) = Some (Done, n)) \<or> cell_raw s n = Some (vals s n)) \<and>
     (\<forall>n. cell_seq s n = n \<longrightarrow> (\<exists>p. filling (bpc s p) = Some (Done, n)) \<or> cell_raw s n = None) \<and>
     (\<forall>p t v. (t, v) \<in> set (fill_vals (bpc s p)) \<longrightarrow> vals s t = v)"

text \<open>What a thread has read of the counters: old values of them, the current ones where it is alone.\<close>

fun pushes :: "'a bpc \<Rightarrow> bool" where
  "pushes (PTail _) = True" | "pushes (PHead _ _) = True" | "pushes (PAgain _ _) = True"
| "pushes (PTake _ _) = True" | "pushes (PState _) = True" | "pushes (PCas _ _ _) = True"
| "pushes (NState _) = True" | "pushes (NCas _ _ _) = True" | "pushes _ = False"

fun pops :: "'a bpc \<Rightarrow> bool" where
  "pops CHead = True" | "pops (CSeen _) = True" | "pops (CTail _) = True" | "pops (CStore _ _) = True"
| "pops (CTicket _) = True" | "pops CState = True" | "pops (CCas _ _) = True" | "pops (MState _) = True"
| "pops (MCas _ _ _) = True" | "pops _ = False"

fun split_pc :: "'a bpc \<Rightarrow> bool" where
  "split_pc (PTail _) = True" | "split_pc (PHead _ _) = True" | "split_pc (PAgain _ _) = True"
| "split_pc (PTake _ _) = True" | "split_pc CHead = True" | "split_pc (CSeen _) = True"
| "split_pc (CTail _) = True" | "split_pc (CStore _ _) = True" | "split_pc (CTicket _) = True"
| "split_pc SHead = True" | "split_pc (STail _) = True" | "split_pc (SAgain _ _) = True" | "split_pc _ = False"

fun packed_pc :: "'a bpc \<Rightarrow> bool" where
  "packed_pc (PState _) = True" | "packed_pc (PCas _ _ _) = True" | "packed_pc (OState _) = True"
| "packed_pc (OCas _ _ _) = True" | "packed_pc (NState _) = True" | "packed_pc (NCas _ _ _) = True"
| "packed_pc CState = True" | "packed_pc (CCas _ _) = True" | "packed_pc (MState _) = True"
| "packed_pc (MCas _ _ _) = True" | "packed_pc _ = False"

fun read_ok :: "'a bring \<Rightarrow> bool \<Rightarrow> nat \<Rightarrow> 'a bpc \<Rightarrow> bool" where
  "read_ok b full sz (PHead v t) \<longleftrightarrow> t \<le> tl_no b \<and> (\<not> mp b \<longrightarrow> t = tl_no b)"
| "read_ok b full sz (PAgain v t) \<longleftrightarrow>
     t \<le> tl_no b \<and> (\<not> mp b \<longrightarrow> t = tl_no b) \<and> (t = tl_no b \<longrightarrow> full)"
| "read_ok b full sz (PTake v t) \<longleftrightarrow>
     t \<le> tl_no b \<and> (\<not> mp b \<longrightarrow> t = tl_no b) \<and> (t = tl_no b \<longrightarrow> tl_no b - hd_no b < cap b)"
| "read_ok b full sz (OState v) \<longleftrightarrow> overrun b \<and> 0 < cap b"
| "read_ok b full sz (OCas v h t) \<longleftrightarrow> overrun b \<and> 0 < cap b"
| "read_ok b full sz (NState vs) \<longleftrightarrow> vs \<noteq> []"
| "read_ok b full sz (NCas vs h t) \<longleftrightarrow> vs \<noteq> [] \<and> 0 < push_count (cap b) (length vs) (w32 h) (w32 t)"
| "read_ok b full sz (PCas v h t) \<longleftrightarrow> \<not> is_full (cap b) (w32 h) (w32 t)"
| "read_ok b full sz (CCas h t) \<longleftrightarrow> w32 h \<noteq> w32 t"
| "read_ok b full sz (MState n) \<longleftrightarrow> 0 < n"
| "read_ok b full sz (MCas n h t) \<longleftrightarrow> 0 < n \<and> 0 < pop_count n (w32 h) (w32 t)"
| "read_ok b full sz (BFill ph ts) \<longleftrightarrow> ts \<noteq> [] \<and> sorted (map fst ts)"
| "read_ok b full sz (BTake ph hs) \<longleftrightarrow> hs \<noteq> [] \<and> sorted hs"
| "read_ok b full sz (OTake ph h t v) \<longleftrightarrow> h < t"
| "read_ok b full sz (CSeen h) \<longleftrightarrow> h \<le> hd_no b \<and> (\<not> mc b \<longrightarrow> h = hd_no b)"
| "read_ok b full sz (CTail h) \<longleftrightarrow> h \<le> hd_no b \<and> (\<not> mc b \<longrightarrow> h = hd_no b)"
| "read_ok b full sz (CStore h t) \<longleftrightarrow> h \<le> hd_no b \<and> (\<not> mc b \<longrightarrow> h = hd_no b) \<and> h \<le> t \<and> t \<le> tl_no b"
| "read_ok b full sz (CTicket h) \<longleftrightarrow> h \<le> hd_no b \<and> (\<not> mc b \<longrightarrow> h = hd_no b) \<and> h < tl_no b"
| "read_ok b full sz (STail h) \<longleftrightarrow> h \<le> hd_no b"
| "read_ok b full sz (SAgain h t) \<longleftrightarrow> h \<le> hd_no b \<and> (h = hd_no b \<longrightarrow> h \<le> t \<and> sz = t - h) \<and> t < h + 2 ^ 32"
| "read_ok b full sz _ \<longleftrightarrow> True"

definition reads_ok :: "'a bsys \<Rightarrow> bool" where
  "reads_ok s \<longleftrightarrow> tail_seen (bring s) \<le> tl_no (bring s) \<and>
     (\<forall>p. read_ok (bring s) (was_full s p) (was_size s p) (bpc s p) \<and>
       (pushes (bpc s p) \<longrightarrow> mp (bring s) \<or> p = sole_p s) \<and>
       (pops (bpc s p) \<longrightarrow> mc (bring s) \<or> p = sole_c s) \<and>
       (split_pc (bpc s p) \<longrightarrow> \<not> packed (bring s)) \<and> (packed_pc (bpc s p) \<longrightarrow> packed (bring s)))"

definition binv :: "'a bsys \<Rightarrow> bool" where
  "binv s \<longleftrightarrow> sizes_ok (bring s) \<and> push_tickets_ok s \<and> pop_tickets_ok s \<and> cells_ok s \<and> reads_ok s"

text \<open>
  The assumption under which 32-bit tickets are as good as unbounded ones: no ticket or counter
  value a thread holds falls \<open>2 ^ 31\<close> tickets behind while it holds it.
\<close>

fun kept_tickets :: "'a bpc \<Rightarrow> nat list" where
  "kept_tickets (PHead _ t) = [t]" | "kept_tickets (PAgain _ t) = [t]" | "kept_tickets (PTake _ t) = [t]"
| "kept_tickets (OTake _ h t _) = [h, t]" | "kept_tickets (BFill _ ts) = map fst ts"
| "kept_tickets (BTake _ hs) = hs" | "kept_tickets (CSeen h) = [h]" | "kept_tickets (CTail h) = [h]"
| "kept_tickets (CStore h t) = [h, t]" | "kept_tickets (CTicket h) = [h]" | "kept_tickets (STail h) = [h]"
| "kept_tickets (SAgain h _) = [h]" | "kept_tickets _ = []"

definition no_lap :: "'a bsys \<Rightarrow> bool" where
  "no_lap s \<longleftrightarrow>
     (\<not> packed (bring s) \<longrightarrow> tl_no (bring s) < tail_seen (bring s) + 2 ^ 31) \<and>
     (\<forall>p. \<forall>n \<in> set (kept_tickets (bpc s p)). tl_no (bring s) < n + 2 ^ 31)"

end
