(* ===== verification/Bounded_Steps.thy ===== *)
theory Bounded_Steps
  imports Bounded_Correct
begin

text \<open>
  Every step of the bounded queue keeps the invariant. Three kinds of step: a call takes tickets
  (or only reads), a cell is worked on, and a cell's new sequence number is stored. Each part of
  the invariant is kept by each kind, stated over the fields the part reads.
\<close>

section \<open>Fields\<close>

lemma bgoto_fields [simp]:
  "bring (bgoto p pc s) = bring s" "bpc (bgoto p pc s) = (bpc s)(p := pc)" "vals (bgoto p pc s) = vals s"
  "sole_p (bgoto p pc s) = sole_p s" "sole_c (bgoto p pc s) = sole_c s"
  "was_full (bgoto p pc s) = was_full s" "was_size (bgoto p pc s) = was_size s"
  by (simp_all add: bgoto_def)

lemma set_seq_fields [simp]:
  "cap (set_seq i n b) = cap b" "rsize (set_seq i n b) = rsize b" "packed (set_seq i n b) = packed b"
  "overrun (set_seq i n b) = overrun b" "mp (set_seq i n b) = mp b" "mc (set_seq i n b) = mc b"
  "hd_no (set_seq i n b) = hd_no b" "tl_no (set_seq i n b) = tl_no b"
  "tail_seen (set_seq i n b) = tail_seen b"
  "seq (bcells (set_seq i n b) j) = (if j = i then n else seq (bcells b j))"
  "raw (bcells (set_seq i n b) j) = raw (bcells b j)"
  by (simp_all add: set_seq_def)

lemma set_raw_fields [simp]:
  "cap (set_raw i v b) = cap b" "rsize (set_raw i v b) = rsize b" "packed (set_raw i v b) = packed b"
  "overrun (set_raw i v b) = overrun b" "mp (set_raw i v b) = mp b" "mc (set_raw i v b) = mc b"
  "hd_no (set_raw i v b) = hd_no b" "tl_no (set_raw i v b) = tl_no b"
  "tail_seen (set_raw i v b) = tail_seen b"
  "seq (bcells (set_raw i v b) j) = seq (bcells b j)"
  "raw (bcells (set_raw i v b) j) = (if j = i then v else raw (bcells b j))"
  by (simp_all add: set_raw_def)

lemma sizes_ok_rsize:
  assumes "sizes_ok b"
  shows "2 \<le> rsize b" "rsize b dvd 2 ^ 32" "cell_of b n = n mod rsize b"
proof -
  obtain m where m: "rsize b = 2 ^ m" "1 \<le> m" "m \<le> 30" using assms by (auto simp: sizes_ok_def)
  then show "2 \<le> rsize b" by (metis one_le_numeral power_increasing power_one_right)
  show "rsize b dvd 2 ^ 32" using m unfolding m(1) by (intro le_imp_power_dvd) simp
  show "cell_of b n = n mod rsize b" using m by (intro cell_of_mod) auto
qed

section \<open>Taking tickets\<close>

lemma claim_push_tickets:
  assumes ok: "push_tickets_ok s"
    and tl: "tl_no (bring s') = tl_no (bring s) + k"
    and seq: "\<And>n. cell_seq s' n = cell_seq s n"
    and pc: "fills (bpc s p) = []" "fills (bpc s' p) = [tl_no (bring s)..<tl_no (bring s) + k]"
    and others: "\<And>q. q \<noteq> p \<Longrightarrow> fills (bpc s' q) = fills (bpc s q)"
  shows "push_tickets_ok s'"
proof -
  let ?t = "tl_no (bring s)"
  have f': "fills (bpc s' q) = (if q = p then [?t..<?t + k] else fills (bpc s q))" for q
    using pc others by simp
  have old: "n \<in> set (fills (bpc s q)) \<Longrightarrow> n < ?t \<and> cell_seq s n \<le> n \<and> q \<noteq> p" for n q
    using ok pc by (auto simp: push_tickets_ok_def)
  have only: "n \<in> set (fills (bpc s q)) \<Longrightarrow> n \<in> set (fills (bpc s r)) \<Longrightarrow> q = r" for n q r
    using ok unfolding push_tickets_ok_def by blast
  have "\<exists>q. n \<in> set (fills (bpc s' q))" if lt: "n < ?t + k" and le: "cell_seq s n \<le> n" for n
  proof (cases "n < ?t")
    case True
    then obtain q where "n \<in> set (fills (bpc s q))" using ok le by (auto simp: push_tickets_ok_def)
    then show ?thesis using old [of n q] by (auto simp: f' intro!: exI [of _ q])
  next
    case False
    then show ?thesis using lt by (auto simp: f' intro!: exI [of _ p])
  qed
  moreover have "n < ?t + k \<and> cell_seq s n \<le> n" if "n \<in> set (fills (bpc s' q))" for n q
    using that ok old [of n q] by (auto simp: f' push_tickets_ok_def intro: trans_less_add1 split: if_splits)
  moreover have "q = r" if "n \<in> set (fills (bpc s' q))" "n \<in> set (fills (bpc s' r))" for n q r
    using that only [of n q r] old [of n q] old [of n r] by (cases "q = p"; cases "r = p") (auto simp: f')
  moreover have "distinct (fills (bpc s' q))" "n \<ge> ?t + k \<Longrightarrow> cell_seq s n \<le> n" for n q
    using ok by (auto simp: push_tickets_ok_def f')
  ultimately show ?thesis unfolding push_tickets_ok_def seq tl by blast
qed

lemma claim_pop_tickets:
  assumes ok: "pop_tickets_ok s"
    and hd: "hd_no (bring s') = hd_no (bring s) + k" "rsize (bring s') = rsize (bring s)"
    and seq: "\<And>n. cell_seq s' n = cell_seq s n"
    and pc: "takes (bpc s p) = []" "takes (bpc s' p) = [hd_no (bring s)..<hd_no (bring s) + k]"
    and others: "\<And>q. q \<noteq> p \<Longrightarrow> takes (bpc s' q) = takes (bpc s q)"
  shows "pop_tickets_ok s'"
proof -
  let ?h = "hd_no (bring s)"
  have f': "takes (bpc s' q) = (if q = p then [?h..<?h + k] else takes (bpc s q))" for q
    using pc others by simp
  have old: "n \<in> set (takes (bpc s q)) \<Longrightarrow> n < ?h \<and> cell_seq s n < n + rsize (bring s) \<and> q \<noteq> p" for n q
    using ok pc by (auto simp: pop_tickets_ok_def)
  have only: "n \<in> set (takes (bpc s q)) \<Longrightarrow> n \<in> set (takes (bpc s r)) \<Longrightarrow> q = r" for n q r
    using ok unfolding pop_tickets_ok_def by blast
  have "\<exists>q. n \<in> set (takes (bpc s' q))" if lt: "n < ?h + k" and le: "cell_seq s n < n + rsize (bring s)" for n
  proof (cases "n < ?h")
    case True
    then obtain q where "n \<in> set (takes (bpc s q))" using ok le by (auto simp: pop_tickets_ok_def)
    then show ?thesis using old [of n q] by (auto simp: f' intro!: exI [of _ q])
  next
    case False
    then show ?thesis using lt by (auto simp: f' intro!: exI [of _ p])
  qed
  moreover have "n < ?h + k \<and> cell_seq s n < n + rsize (bring s)" if "n \<in> set (takes (bpc s' q))" for n q
    using that ok old [of n q] by (auto simp: f' pop_tickets_ok_def intro: trans_less_add1 split: if_splits)
  moreover have "q = r" if "n \<in> set (takes (bpc s' q))" "n \<in> set (takes (bpc s' r))" for n q r
    using that only [of n q r] old [of n q] old [of n r] by (cases "q = p"; cases "r = p") (auto simp: f')
  moreover have "distinct (takes (bpc s' q))" "n \<ge> ?h + k \<Longrightarrow> cell_seq s n < n + rsize (bring s)" for n q
    using ok by (auto simp: pop_tickets_ok_def f')
  ultimately show ?thesis unfolding pop_tickets_ok_def seq hd by blast
qed

lemma filling_fills: "filling pc = Some (ph, t) \<Longrightarrow> t \<in> set (fills pc)"
  by (cases pc rule: filling.cases) auto

lemma taking_takes: "taking pc = Some (ph, h) \<Longrightarrow> h \<in> set (takes pc)"
  by (cases pc rule: taking.cases) auto

lemma no_fills: "fills pc = [] \<Longrightarrow> fill_vals pc = [] \<and> filling pc = None"
  by (cases pc rule: filling.cases) auto

lemma no_takes: "takes pc = [] \<Longrightarrow> taking pc = None"
  by (cases pc rule: taking.cases) auto

text \<open>Values change only at tickets not yet taken; a thread that takes tickets starts by waiting.\<close>

lemma claim_cells:
  assumes ok: "cells_ok s" and push: "push_tickets_ok s"
    and same: "rsize (bring s') = rsize (bring s)" "\<And>i. bseq s' i = bseq s i" "\<And>i. braw s' i = braw s i"
    and vals: "\<And>n. n < tl_no (bring s) \<Longrightarrow> vals s' n = vals s n"
    and pc: "\<And>t. filling (bpc s p) \<noteq> Some (Done, t)" "\<And>h. taking (bpc s p) \<noteq> Some (Done, h)"
      "\<And>ph t. filling (bpc s' p) = Some (ph, t) \<Longrightarrow> ph = Wait \<or> ph = Work \<and> cell_seq s t = t"
      "\<And>ph h. taking (bpc s' p) = Some (ph, h) \<Longrightarrow> ph = Wait \<or> ph = Work \<and> cell_seq s h = Suc h"
      "\<And>t v. (t, v) \<in> set (fill_vals (bpc s' p)) \<Longrightarrow> vals s' t = v"
    and others: "\<And>q. q \<noteq> p \<Longrightarrow> bpc s' q = bpc s q"
  shows "cells_ok s'"
proof -
  have eq: "cell_seq s' n = cell_seq s n" "cell_raw s' n = cell_raw s n" for n
    using same by (simp_all add: cell_seq_def cell_raw_def)
  have tl: "t < tl_no (bring s)" if "t \<in> set (fills (bpc s q))" for q t
    using that push by (auto simp: push_tickets_ok_def)
  have f: "(ph \<noteq> Wait \<longrightarrow> cell_seq s t = t) \<and> (ph = Done \<longrightarrow> cell_raw s t = Some (vals s' t))"
    if "filling (bpc s' q) = Some (ph, t)" for q ph t
  proof (cases "q = p")
    case False
    then have "filling (bpc s q) = Some (ph, t)" using that others by simp
    then show ?thesis using ok tl [OF filling_fills] vals unfolding cells_ok_def by metis
  qed (use that pc(3) in fastforce)
  have g: "(ph \<noteq> Wait \<longrightarrow> cell_seq s h = Suc h) \<and> (ph = Done \<longrightarrow> cell_raw s h = None)"
    if "taking (bpc s' q) = Some (ph, h)" for q ph h
  proof (cases "q = p")
    case False
    then have "taking (bpc s q) = Some (ph, h)" using that others by simp
    then show ?thesis using ok unfolding cells_ok_def by blast
  qed (use that pc(4) in fastforce)
  have old: "taking (bpc s q) = Some (Done, n) \<Longrightarrow> taking (bpc s' q) = Some (Done, n)"
    "filling (bpc s q) = Some (Done, n) \<Longrightarrow> filling (bpc s' q) = Some (Done, n)" for q n
    using pc(1,2) others [of q] by (cases "q = p"; simp)+
  have a: "(\<exists>q. taking (bpc s' q) = Some (Done, n)) \<or> cell_raw s n = Some (vals s' n)"
    if "cell_seq s n = Suc n" for n
  proof -
    have "n < tl_no (bring s)" using push that unfolding push_tickets_ok_def by (metis Suc_n_not_le_n not_le)
    then show ?thesis using ok that vals old(1) unfolding cells_ok_def by metis
  qed
  have b: "(\<exists>q. filling (bpc s' q) = Some (Done, n)) \<or> cell_raw s n = None" if "cell_seq s n = n" for n
    using ok that old(2) unfolding cells_ok_def by metis
  have c: "vals s' t = v" if "(t, v) \<in> set (fill_vals (bpc s' q))" for q t v
  proof (cases "q = p")
    case False
    then have mem: "(t, v) \<in> set (fill_vals (bpc s q))" using that others by simp
    then have "t \<in> set (fills (bpc s q))" by (force simp: fills_vals)
    then show ?thesis using mem ok tl vals unfolding cells_ok_def by metis
  qed (use that pc(5) in auto)
  have d: "\<forall>i < rsize (bring s). \<exists>c. c mod rsize (bring s) = i \<and> (bseq s i = c \<or> bseq s i = Suc c)"
    using ok unfolding cells_ok_def by blast
  show ?thesis unfolding cells_ok_def eq same using a b c d f g by blast
qed

section \<open>Working on cells\<close>

text \<open>Sequence numbers of one cell that are a lap apart or more, or of different kinds.\<close>

lemma not_same_cell:
  fixes R :: nat
  assumes "2 \<le> R" "a mod R = b mod R"
  shows "a \<noteq> Suc b"
proof
  assume "a = Suc b"
  then have "Suc b mod R = b mod R" using assms(2) by simp
  then have "R dvd Suc b - b" by (metis le_SucI mod_eq_dvd_iff_nat order_refl)
  then show False using assms(1) by simp
qed

lemma w32_mod:
  assumes "w32 a = w32 b" "R dvd 2 ^ 32"
  shows "a mod R = b mod R"
proof -
  have "a mod 2 ^ 32 = b mod 2 ^ 32" using assms(1) by (simp add: w32_def word_of_nat_eq_iff take_bit_eq_mod)
  then have "a mod 2 ^ 32 mod R = b mod 2 ^ 32 mod R" by simp
  then show ?thesis using assms(2) by (simp add: mod_mod_cancel)
qed

lemma cell_seq_form:
  assumes "cells_ok s" "sizes_ok (bring s)"
  obtains c where "c mod rsize (bring s) = n mod rsize (bring s)" "cell_seq s n = c \<or> cell_seq s n = Suc c"
proof -
  have "n mod rsize (bring s) < rsize (bring s)" using sizes_ok_rsize(1) [OF assms(2)] by simp
  then show ?thesis using assms(1) that unfolding cells_ok_def cell_seq_def by blast
qed

lemma fill_ready_exact:
  assumes inv: "binv s" and held: "t \<in> set (fills (bpc s p))" and lap: "no_lap s" and ready: "fill_ready t s"
  shows "cell_seq s t = t"
proof -
  let ?R = "rsize (bring s)"
  have ok: "sizes_ok (bring s)" "push_tickets_ok s" "cells_ok s" using inv by (simp_all add: binv_def)
  note R = sizes_ok_rsize [OF ok(1)]
  have w: "w32 (cell_seq s t) = w32 t" using ready R(3) by (simp add: fill_ready_def cell_seq_def)
  have le: "cell_seq s t \<le> t" "t < tl_no (bring s)" using ok(2) held by (auto simp: push_tickets_ok_def)
  obtain c where c: "c mod ?R = t mod ?R" "cell_seq s t = c \<or> cell_seq s t = Suc c"
    using cell_seq_form [OF ok(3,1)] .
  have kept: "tl_no (bring s) < n + 2 ^ 31" if "n \<in> set (fills (bpc s q))" for q n
  proof -
    have "n \<in> set (kept_tickets (bpc s q))" using that by (cases "bpc s q") auto
    then show ?thesis using lap by (auto simp: no_lap_def)
  qed
  have mods: "cell_seq s t mod ?R = t mod ?R"
    using w32_mod [OF w R(2)] .
  show ?thesis
  proof (rule ccontr)
    assume "cell_seq s t \<noteq> t"
    have cs: "cell_seq s t = c" using c not_same_cell [OF R(1), of "cell_seq s t" c] mods by auto
    then have "c < tl_no (bring s)" "cell_seq s c \<le> c" using le c(1) by (simp_all add: cell_seq_def)
    then obtain q where "c \<in> set (fills (bpc s q))" using ok(2) unfolding push_tickets_ok_def by blast
    then have "tl_no (bring s) < c + 2 ^ 31" by (rule kept)
    then have "c = t" using w32_eq [of c t] w le cs by simp
    then show False using \<open>cell_seq s t \<noteq> t\<close> cs by simp
  qed
qed

lemma take_ready_exact:
  assumes inv: "binv s" and held: "h \<in> set (takes (bpc s p))" and lap: "no_lap s" and ready: "take_ready h s"
  shows "cell_seq s h = Suc h"
proof -
  let ?R = "rsize (bring s)"
  have ok: "sizes_ok (bring s)" "pop_tickets_ok s" "cells_ok s" using inv by (simp_all add: binv_def)
  note R = sizes_ok_rsize [OF ok(1)]
  have w: "w32 (cell_seq s h) = w32 (Suc h)"
    using ready R(3) by (simp add: take_ready_def cell_seq_def w32_Suc)
  have le: "cell_seq s h < h + ?R" "h < hd_no (bring s)" using ok(2) held by (auto simp: pop_tickets_ok_def)
  have "hd_no (bring s) \<le> tl_no (bring s)" using ok(1) by (simp add: sizes_ok_def)
  obtain c where c: "c mod ?R = h mod ?R" "cell_seq s h = c \<or> cell_seq s h = Suc c"
    using cell_seq_form [OF ok(3,1)] .
  have kept: "tl_no (bring s) < n + 2 ^ 31" if "n \<in> set (takes (bpc s q))" for q n
  proof -
    have "n \<in> set (kept_tickets (bpc s q))" using that by (cases "bpc s q") auto
    then show ?thesis using lap by (auto simp: no_lap_def)
  qed
  have mods: "cell_seq s h mod ?R = Suc h mod ?R"
    using w32_mod [OF w R(2)] .
  have "cell_seq s h \<noteq> c"
  proof
    assume "cell_seq s h = c"
    then have "Suc h mod ?R = h mod ?R" using mods c(1) by simp
    then show False using not_same_cell [OF R(1), of "Suc h" h] by simp
  qed
  then have cs: "cell_seq s h = Suc c" using c(2) by simp
  have ch: "c \<le> h" using mod_gap [of h ?R c] c(1) le(1) cs R(1) by linarith
  show ?thesis
  proof (rule ccontr)
    assume "cell_seq s h \<noteq> Suc h"
    have "c < hd_no (bring s)" "cell_seq s c < c + ?R" using le c(1) cs R(1) ch by (simp_all add: cell_seq_def)
    then obtain q where "c \<in> set (takes (bpc s q))" using ok(2) unfolding pop_tickets_ok_def by blast
    then have "tl_no (bring s) < c + 2 ^ 31" by (rule kept)
    then have "Suc c = Suc h"
      using w32_eq [of "Suc c" "Suc h"] w le cs ch \<open>hd_no (bring s) \<le> tl_no (bring s)\<close> by simp
    then show False using \<open>cell_seq s h \<noteq> Suc h\<close> cs by simp
  qed
qed

text \<open>The store that publishes a filled cell.\<close>

lemma publish_push_tickets:
  assumes ok: "push_tickets_ok s"
    and tl: "tl_no (bring s') = tl_no (bring s)" and now: "cell_seq s t = t"
    and seq: "\<And>n. cell_seq s' n = (if n mod R = t mod R then Suc t else cell_seq s n)"
    and R: "rsize (bring s) = R"
    and pc: "fills (bpc s p) = t # ns" "fills (bpc s' p) = ns"
    and others: "\<And>q. q \<noteq> p \<Longrightarrow> fills (bpc s' q) = fills (bpc s q)"
  shows "push_tickets_ok s'"
proof -
  have f': "fills (bpc s' q) = (if q = p then ns else fills (bpc s q))" for q using pc others by simp
  have cell: "cell_seq s n = t" if "n mod R = t mod R" for n
    using that now R by (simp add: cell_seq_def)
  have held: "n \<in> set (fills (bpc s q)) \<Longrightarrow> n < tl_no (bring s) \<and> cell_seq s n \<le> n" for n q
    using ok by (auto simp: push_tickets_ok_def)
  have only: "n \<in> set (fills (bpc s q)) \<Longrightarrow> n \<in> set (fills (bpc s r)) \<Longrightarrow> q = r" for n q r
    using ok unfolding push_tickets_ok_def by blast
  have dist: "distinct (fills (bpc s q))" for q using ok by (simp add: push_tickets_ok_def)
  have sub: "n \<in> set (fills (bpc s q))" "n \<noteq> t" if "n \<in> set (fills (bpc s' q))" for n q
    using that only [of t p q] dist [of p] by (auto simp: f' pc split: if_splits)
  have keeps: "\<exists>q. n \<in> set (fills (bpc s' q))" if "n \<in> set (fills (bpc s q))" "n \<noteq> t" for n q
    using that by (cases "q = p") (auto simp: f' pc intro!: exI [of _ q])
  have "\<exists>q. n \<in> set (fills (bpc s' q))" if "n < tl_no (bring s)" "cell_seq s' n \<le> n" for n
  proof -
    have "cell_seq s n \<le> n \<and> n \<noteq> t" using that(2) cell [of n] by (auto simp: seq split: if_splits)
    then show ?thesis using that(1) ok keeps unfolding push_tickets_ok_def by blast
  qed
  moreover have "n < tl_no (bring s) \<and> cell_seq s' n \<le> n" if "n \<in> set (fills (bpc s' q))" for n q
    using held [OF sub(1) [OF that]] sub(2) [OF that] cell [of n] by (auto simp: seq)
  moreover have "cell_seq s' n \<le> n" if "tl_no (bring s) \<le> n" for n
    using that ok held [of t p] pc(1) by (auto simp: seq push_tickets_ok_def)
  moreover have "q = r" if "n \<in> set (fills (bpc s' q))" "n \<in> set (fills (bpc s' r))" for n q r
    using only [OF sub(1) [OF that(1)] sub(1) [OF that(2)]] .
  moreover have "distinct (fills (bpc s' q))" for q using dist [of q] dist [of p] by (auto simp: f' pc)
  ultimately show ?thesis unfolding push_tickets_ok_def tl by blast
qed

lemma publish_pop_tickets:
  assumes ok: "pop_tickets_ok s" and now: "cell_seq s t = t"
    and same: "hd_no (bring s') = hd_no (bring s)" "rsize (bring s') = rsize (bring s)"
    and seq: "\<And>n. cell_seq s' n = (if n mod R = t mod R then Suc t else cell_seq s n)"
    and R: "rsize (bring s) = R" "2 \<le> R"
    and pc: "\<And>q. takes (bpc s' q) = takes (bpc s q)"
  shows "pop_tickets_ok s'"
proof -
  have cell: "cell_seq s n = t" if "n mod R = t mod R" for n
    using that now R(1) by (simp add: cell_seq_def)
  have "t < n + R \<longleftrightarrow> Suc t < n + R" if "n mod R = t mod R" for n
  proof
    assume "t < n + R"
    then have "t \<le> n" using mod_gap [of n R t] that by (metis not_le)
    then show "Suc t < n + R" using R(2) by simp
  qed simp
  then have "cell_seq s' n < n + R \<longleftrightarrow> cell_seq s n < n + R" for n using cell [of n] by (simp add: seq)
  then show ?thesis using ok unfolding pop_tickets_ok_def same pc R(1) by simp
qed

text \<open>The store that frees an emptied cell for the next lap.\<close>

lemma free_pop_tickets:
  assumes ok: "pop_tickets_ok s" and now: "cell_seq s h = Suc h"
    and same: "hd_no (bring s') = hd_no (bring s)" "rsize (bring s') = rsize (bring s)"
    and seq: "\<And>n. cell_seq s' n = (if n mod R = h mod R then h + R else cell_seq s n)"
    and R: "rsize (bring s) = R" "2 \<le> R"
    and pc: "takes (bpc s p) = h # ns" "takes (bpc s' p) = ns"
    and others: "\<And>q. q \<noteq> p \<Longrightarrow> takes (bpc s' q) = takes (bpc s q)"
  shows "pop_tickets_ok s'"
proof -
  have f': "takes (bpc s' q) = (if q = p then ns else takes (bpc s q))" for q using pc others by simp
  have cell: "cell_seq s n = Suc h" if "n mod R = h mod R" for n
    using that now R by (simp add: cell_seq_def)
  have held: "n \<in> set (takes (bpc s q)) \<Longrightarrow> n < hd_no (bring s) \<and> cell_seq s n < n + R" for n q
    using ok R by (auto simp: pop_tickets_ok_def)
  have only: "n \<in> set (takes (bpc s q)) \<Longrightarrow> n \<in> set (takes (bpc s r)) \<Longrightarrow> q = r" for n q r
    using ok unfolding pop_tickets_ok_def by blast
  have dist: "distinct (takes (bpc s q))" for q using ok by (simp add: pop_tickets_ok_def)
  have sub: "n \<in> set (takes (bpc s q))" "n \<noteq> h" if "n \<in> set (takes (bpc s' q))" for n q
    using that only [of h p q] dist [of p] by (auto simp: f' pc split: if_splits)
  have keeps: "\<exists>q. n \<in> set (takes (bpc s' q))" if "n \<in> set (takes (bpc s q))" "n \<noteq> h" for n q
    using that by (cases "q = p") (auto simp: f' pc intro!: exI [of _ q])
  have past: "h < n" if "n mod R = h mod R" "Suc h < n + R" "n \<noteq> h" for n
    using mod_gap [of n R h] that by (metis Suc_lessD not_less linorder_neqE_nat)
  have "\<exists>q. n \<in> set (takes (bpc s' q))" if "n < hd_no (bring s)" "cell_seq s' n < n + R" for n
  proof -
    have "cell_seq s n < n + R \<and> n \<noteq> h" using that(2) R(2) cell [of n] by (auto simp: seq split: if_splits)
    then show ?thesis using that(1) ok keeps R(1) unfolding pop_tickets_ok_def by blast
  qed
  moreover have "n < hd_no (bring s) \<and> cell_seq s' n < n + R" if "n \<in> set (takes (bpc s' q))" for n q
    using held [OF sub(1) [OF that]] sub(2) [OF that] cell [of n] past [of n] by (auto simp: seq)
  moreover have "cell_seq s' n < n + R" if "hd_no (bring s) \<le> n" for n
    using that ok held [of h p] pc(1) R(1) by (auto simp: seq pop_tickets_ok_def)
  moreover have "q = r" if "n \<in> set (takes (bpc s' q))" "n \<in> set (takes (bpc s' r))" for n q r
    using only [OF sub(1) [OF that(1)] sub(1) [OF that(2)]] .
  moreover have "distinct (takes (bpc s' q))" for q using dist [of q] dist [of p] by (auto simp: f' pc)
  ultimately show ?thesis unfolding pop_tickets_ok_def same R(1) by blast
qed

lemma free_push_tickets:
  assumes ok: "push_tickets_ok s" and now: "cell_seq s h = Suc h"
    and same: "tl_no (bring s') = tl_no (bring s)"
    and seq: "\<And>n. cell_seq s' n = (if n mod R = h mod R then h + R else cell_seq s n)"
    and R: "rsize (bring s) = R" "2 \<le> R"
    and pc: "\<And>q. fills (bpc s' q) = fills (bpc s q)"
  shows "push_tickets_ok s'"
proof -
  have cell: "cell_seq s n = Suc h" if "n mod R = h mod R" for n
    using that now R(1) by (simp add: cell_seq_def)
  have "Suc h \<le> n \<longleftrightarrow> h + R \<le> n" if "n mod R = h mod R" for n
    using mod_gap [of h R n] that R(2) by auto
  then have "cell_seq s' n \<le> n \<longleftrightarrow> cell_seq s n \<le> n" for n using cell [of n] by (simp add: seq)
  then show ?thesis using ok unfolding push_tickets_ok_def same pc R(1) by simp
qed

text \<open>
  A thread that works on a cell has it for itself: no other thread is past waiting for a ticket of
  that cell.
\<close>

lemma cell_locked:
  assumes inv: "binv s" and same: "n mod rsize (bring s) = k mod rsize (bring s)" and other: "q \<noteq> p"
    and mine: "filling (bpc s p) = Some (ph, k) \<or> taking (bpc s p) = Some (ph, k)" "ph \<noteq> Wait"
    and yours: "filling (bpc s q) = Some (ph', n) \<or> taking (bpc s q) = Some (ph', n)"
  shows "ph' = Wait"
proof (rule ccontr)
  assume "ph' \<noteq> Wait"
  have ok: "sizes_ok (bring s)" "push_tickets_ok s" "pop_tickets_ok s" "cells_ok s"
    using inv by (simp_all add: binv_def)
  have f: "filling (bpc s r) = Some (h, m) \<Longrightarrow> h \<noteq> Wait \<Longrightarrow> cell_seq s m = m"
    and t: "taking (bpc s r) = Some (h, m) \<Longrightarrow> h \<noteq> Wait \<Longrightarrow> cell_seq s m = Suc m" for r h m
    using ok(4) unfolding cells_ok_def by blast+
  have eq: "cell_seq s n = cell_seq s k" using same by (simp add: cell_seq_def)
  note ne = not_same_cell [OF sizes_ok_rsize(1) [OF ok(1)], of n k]
    not_same_cell [OF sizes_ok_rsize(1) [OF ok(1)], of k n]
  have fu: "filling (bpc s p) = Some (ph, m) \<Longrightarrow> filling (bpc s q) = Some (ph', m) \<Longrightarrow> False" for m
    using ok(2) other filling_fills unfolding push_tickets_ok_def by metis
  have tu: "taking (bpc s p) = Some (ph, m) \<Longrightarrow> taking (bpc s q) = Some (ph', m) \<Longrightarrow> False" for m
    using ok(3) other taking_takes unfolding pop_tickets_ok_def by metis
  from mine(1) yours show False
  proof (elim disjE)
    assume "filling (bpc s p) = Some (ph, k)" "filling (bpc s q) = Some (ph', n)"
    then show False using f [of p ph k] f [of q ph' n] mine(2) \<open>ph' \<noteq> Wait\<close> eq fu by auto
  next
    assume "taking (bpc s p) = Some (ph, k)" "taking (bpc s q) = Some (ph', n)"
    then show False using t [of p ph k] t [of q ph' n] mine(2) \<open>ph' \<noteq> Wait\<close> eq tu by auto
  next
    assume "filling (bpc s p) = Some (ph, k)" "taking (bpc s q) = Some (ph', n)"
    then show False using f [of p ph k] t [of q ph' n] mine(2) \<open>ph' \<noteq> Wait\<close> eq ne same by auto
  next
    assume "taking (bpc s p) = Some (ph, k)" "filling (bpc s q) = Some (ph', n)"
    then show False using t [of p ph k] f [of q ph' n] mine(2) \<open>ph' \<noteq> Wait\<close> eq ne same by auto
  qed
qed

lemma cells_update:
  assumes inv: "binv s" and R: "rsize (bring s) = R" "rsize (bring s') = R" and vals: "vals s' = vals s"
    and seq: "\<And>n. cell_seq s' n = (if n mod R = k mod R then x else cell_seq s n)"
    and raw: "\<And>n. cell_raw s' n = (if n mod R = k mod R then y else cell_raw s n)"
    and mine: "filling (bpc s p) = Some (ph, k) \<and> taking (bpc s p) = None \<or>
      taking (bpc s p) = Some (ph, k) \<and> filling (bpc s p) = None" "ph \<noteq> Wait"
    and others: "\<And>q. q \<noteq> p \<Longrightarrow> bpc s' q = bpc s q"
    and form: "\<exists>c. c mod R = k mod R \<and> (x = c \<or> x = Suc c)"
    and pf: "\<And>ph t. filling (bpc s' p) = Some (ph, t) \<Longrightarrow> ph = Wait \<or> ph = Done \<and> t = k \<and> x = k \<and> y = Some (vals s k)"
    and pt: "\<And>ph h. taking (bpc s' p) = Some (ph, h) \<Longrightarrow> ph = Wait \<or> ph = Done \<and> h = k \<and> x = Suc k \<and> y = None"
    and full: "\<And>n. n mod R = k mod R \<Longrightarrow> x = Suc n \<Longrightarrow> taking (bpc s' p) = Some (Done, n) \<or> y = Some (vals s n)"
    and free: "\<And>n. n mod R = k mod R \<Longrightarrow> x = n \<Longrightarrow> filling (bpc s' p) = Some (Done, n) \<or> y = None"
    and fv: "set (fill_vals (bpc s' p)) \<subseteq> set (fill_vals (bpc s p))"
  shows "cells_ok s'"
proof -
  have ok: "cells_ok s" using inv by (simp add: binv_def)
  have locked: "ph' = Wait" if "filling (bpc s q) = Some (ph', n) \<or> taking (bpc s q) = Some (ph', n)"
    "n mod R = k mod R" "q \<noteq> p" for q ph' n
    using cell_locked [OF inv, of n k q p ph ph'] that mine R by blast
  have a: "\<exists>c. c mod R = i \<and> (bseq s' i = c \<or> bseq s' i = Suc c)" if "i < R" for i
  proof -
    have "bseq s' i = cell_seq s' i" "bseq s i = cell_seq s i" using that R by (simp_all add: cell_seq_def)
    then show ?thesis using ok form seq [of i] that R(1) unfolding cells_ok_def by (metis mod_less)
  qed
  have f: "(ph \<noteq> Wait \<longrightarrow> cell_seq s' t = t) \<and> (ph = Done \<longrightarrow> cell_raw s' t = Some (vals s' t))"
    if "filling (bpc s' q) = Some (ph, t)" for q ph t
  proof (cases "q = p")
    case True
    then show ?thesis using pf [of ph t] that by (auto simp: seq raw vals)
  next
    case False
    then have old: "filling (bpc s q) = Some (ph, t)" using that others by simp
    then have "(ph \<noteq> Wait \<longrightarrow> cell_seq s t = t) \<and> (ph = Done \<longrightarrow> cell_raw s t = Some (vals s t))"
      using ok unfolding cells_ok_def by blast
    then show ?thesis using locked [of q ph t] old False by (auto simp: seq raw vals)
  qed
  have g: "(ph \<noteq> Wait \<longrightarrow> cell_seq s' h = Suc h) \<and> (ph = Done \<longrightarrow> cell_raw s' h = None)"
    if "taking (bpc s' q) = Some (ph, h)" for q ph h
  proof (cases "q = p")
    case True
    then show ?thesis using pt [of ph h] that by (auto simp: seq raw)
  next
    case False
    then have old: "taking (bpc s q) = Some (ph, h)" using that others by simp
    then have "(ph \<noteq> Wait \<longrightarrow> cell_seq s h = Suc h) \<and> (ph = Done \<longrightarrow> cell_raw s h = None)"
      using ok unfolding cells_ok_def by blast
    then show ?thesis using locked [of q ph h] old False by (auto simp: seq raw)
  qed
  have b: "(\<exists>q. taking (bpc s' q) = Some (Done, n)) \<or> cell_raw s' n = Some (vals s' n)"
    if now: "cell_seq s' n = Suc n" for n
  proof (cases "n mod R = k mod R")
    case True
    then show ?thesis using full [of n] now by (auto simp: seq raw vals)
  next
    case False
    then have "(\<exists>q. taking (bpc s q) = Some (Done, n)) \<or> cell_raw s n = Some (vals s n)"
      using ok now unfolding cells_ok_def by (simp add: seq)
    then show ?thesis
    proof
      assume "\<exists>q. taking (bpc s q) = Some (Done, n)"
      then obtain q where q: "taking (bpc s q) = Some (Done, n)" ..
      have "q \<noteq> p" using q mine(1) False by auto
      then have "bpc s' q = bpc s q" by (rule others)
      then show ?thesis using q by (metis)
    qed (use False in \<open>simp add: raw vals\<close>)
  qed
  have c: "(\<exists>q. filling (bpc s' q) = Some (Done, n)) \<or> cell_raw s' n = None"
    if now: "cell_seq s' n = n" for n
  proof (cases "n mod R = k mod R")
    case True
    then show ?thesis using free [of n] now by (auto simp: seq raw vals)
  next
    case False
    then have "(\<exists>q. filling (bpc s q) = Some (Done, n)) \<or> cell_raw s n = None"
      using ok now unfolding cells_ok_def by (simp add: seq)
    then show ?thesis
    proof
      assume "\<exists>q. filling (bpc s q) = Some (Done, n)"
      then obtain q where q: "filling (bpc s q) = Some (Done, n)" ..
      have "q \<noteq> p" using q mine(1) False by auto
      then have "bpc s' q = bpc s q" by (rule others)
      then show ?thesis using q by (metis)
    qed (use False in \<open>simp add: raw vals\<close>)
  qed
  have d: "vals s' t = v" if "(t, v) \<in> set (fill_vals (bpc s' q))" for q t v
    using that ok fv others [of q] unfolding cells_ok_def vals by (cases "q = p") auto
  show ?thesis unfolding cells_ok_def R(2) using a b c d f g by blast
qed

section \<open>What threads have read\<close>

definition bgrows :: "'a bring \<Rightarrow> 'a bring \<Rightarrow> bool" where
  "bgrows b b' \<longleftrightarrow> cap b' = cap b \<and> rsize b' = rsize b \<and> packed b' = packed b \<and> overrun b' = overrun b \<and>
     mp b' = mp b \<and> mc b' = mc b \<and> hd_no b \<le> hd_no b' \<and> tl_no b \<le> tl_no b'"

lemma read_ok_grows:
  assumes "read_ok b full sz pc" "bgrows b b'"
    "\<not> mp b \<Longrightarrow> pushes pc \<Longrightarrow> tl_no b' = tl_no b" "\<not> mc b \<Longrightarrow> pops pc \<Longrightarrow> hd_no b' = hd_no b"
  shows "read_ok b' full sz pc"
  using assms by (cases pc) (auto simp: bgrows_def)

definition role_ok :: "'a bsys \<Rightarrow> nat \<Rightarrow> 'a bpc \<Rightarrow> bool" where
  "role_ok s p pc \<longleftrightarrow> (pushes pc \<longrightarrow> mp (bring s) \<or> p = sole_p s) \<and> (pops pc \<longrightarrow> mc (bring s) \<or> p = sole_c s) \<and>
     (split_pc pc \<longrightarrow> \<not> packed (bring s)) \<and> (packed_pc pc \<longrightarrow> packed (bring s))"

lemma reads_ok_role:
  "reads_ok s \<longleftrightarrow> tail_seen (bring s) \<le> tl_no (bring s) \<and>
     (\<forall>p. read_ok (bring s) (was_full s p) (was_size s p) (bpc s p) \<and> role_ok s p (bpc s p))"
  by (simp add: reads_ok_def role_ok_def)

lemma reads_step:
  assumes ok: "reads_ok s" and grows: "bgrows (bring s) (bring s')"
    and seen: "tail_seen (bring s') \<le> tl_no (bring s')"
    and soles: "sole_p s' = sole_p s" "sole_c s' = sole_c s"
    and others: "\<And>q. q \<noteq> p \<Longrightarrow> bpc s' q = bpc s q \<and> was_full s' q = was_full s q \<and> was_size s' q = was_size s q"
    and sp: "tl_no (bring s') = tl_no (bring s) \<or> mp (bring s) \<or> p = sole_p s"
    and sc: "hd_no (bring s') = hd_no (bring s) \<or> mc (bring s) \<or> p = sole_c s"
    and own: "read_ok (bring s') (was_full s' p) (was_size s' p) (bpc s' p)" "role_ok s p (bpc s' p)"
  shows "reads_ok s'"
proof -
  have role: "role_ok s' q pc = role_ok s q pc" for q pc using grows soles by (simp add: role_ok_def bgrows_def)
  have "read_ok (bring s') (was_full s' q) (was_size s' q) (bpc s' q) \<and> role_ok s' q (bpc s' q)" for q
  proof (cases "q = p")
    case False
    have "read_ok (bring s) (was_full s q) (was_size s q) (bpc s q)" "role_ok s q (bpc s q)"
      using ok by (simp_all add: reads_ok_role)
    moreover from this(2) False sp sc
    have "\<not> mp (bring s) \<Longrightarrow> pushes (bpc s q) \<Longrightarrow> tl_no (bring s') = tl_no (bring s)"
      "\<not> mc (bring s) \<Longrightarrow> pops (bpc s q) \<Longrightarrow> hd_no (bring s') = hd_no (bring s)"
      by (auto simp: role_ok_def)
    ultimately show ?thesis using read_ok_grows [OF _ grows] others [OF False] role by simp
  qed (use own role in simp)
  then show ?thesis using seen by (simp add: reads_ok_role)
qed

section \<open>The steps\<close>

text \<open>A step that takes tickets, or only reads (no tickets).\<close>

lemma claim_inv:
  assumes inv: "binv s"
    and none: "fills (bpc s p) = []" "takes (bpc s p) = []"
    and some: "fills (bpc s' p) = [tl_no (bring s)..<tl_no (bring s) + k]"
      "takes (bpc s' p) = [hd_no (bring s)..<hd_no (bring s) + j]"
      "\<And>ph t. filling (bpc s' p) = Some (ph, t) \<Longrightarrow> ph = Wait"
      "\<And>ph h. taking (bpc s' p) = Some (ph, h) \<Longrightarrow> ph = Wait"
      "\<And>t v. (t, v) \<in> set (fill_vals (bpc s' p)) \<Longrightarrow> vals s' t = v"
    and sizes: "sizes_ok (bring s')" and grows: "bgrows (bring s) (bring s')"
    and counters: "hd_no (bring s') = hd_no (bring s) + j" "tl_no (bring s') = tl_no (bring s) + k"
      "tail_seen (bring s') \<le> tl_no (bring s')"
    and same: "bcells (bring s') = bcells (bring s)"
      "sole_p s' = sole_p s" "sole_c s' = sole_c s" "\<And>n. n < tl_no (bring s) \<Longrightarrow> vals s' n = vals s n"
    and others: "\<And>q. q \<noteq> p \<Longrightarrow> bpc s' q = bpc s q \<and> was_full s' q = was_full s q \<and> was_size s' q = was_size s q"
    and sp: "k = 0 \<or> mp (bring s) \<or> p = sole_p s" and sc: "j = 0 \<or> mc (bring s) \<or> p = sole_c s"
    and own: "read_ok (bring s') (was_full s' p) (was_size s' p) (bpc s' p)" "role_ok s p (bpc s' p)"
  shows "binv s'"
proof -
  have ok: "push_tickets_ok s" "pop_tickets_ok s" "cells_ok s" "reads_ok s" using inv by (simp_all add: binv_def)
  have R: "rsize (bring s') = rsize (bring s)" using grows by (simp add: bgrows_def)
  have seq: "cell_seq s' n = cell_seq s n" for n by (simp add: cell_seq_def R same)
  note n = no_fills [OF none(1)] no_takes [OF none(2)]
  have "push_tickets_ok s'"
    using claim_push_tickets [OF ok(1) counters(2) seq none(1) some(1)] others by simp
  moreover have "pop_tickets_ok s'"
    using claim_pop_tickets [OF ok(2) counters(1) R seq none(2) some(2)] others by simp
  moreover have "cells_ok s'"
    by (rule claim_cells [OF ok(3,1), of s' p])
      (use n others some(5) in \<open>auto simp: same R dest: some(3,4)\<close>)
  moreover have "reads_ok s'"
    by (rule reads_step [OF ok(4) grows counters(3) same(2,3) others, of p])
      (use own sp sc in \<open>auto simp: counters(1,2)\<close>)
  ultimately show ?thesis using sizes by (simp add: binv_def)
qed

lemma look_inv:
  assumes inv: "binv s"
    and none: "fills (bpc s p) = []" "takes (bpc s p) = []" "fills (bpc s' p) = []" "takes (bpc s' p) = []"
    and same: "bgrows (bring s) (bring s')" "hd_no (bring s') = hd_no (bring s)"
      "tl_no (bring s') = tl_no (bring s)" "bcells (bring s') = bcells (bring s)" "vals s' = vals s"
      "sole_p s' = sole_p s" "sole_c s' = sole_c s" "tail_seen (bring s') \<le> tl_no (bring s)"
    and others: "\<And>q. q \<noteq> p \<Longrightarrow> bpc s' q = bpc s q \<and> was_full s' q = was_full s q \<and> was_size s' q = was_size s q"
    and own: "read_ok (bring s') (was_full s' p) (was_size s' p) (bpc s' p)" "role_ok s p (bpc s' p)"
  shows "binv s'"
proof -
  have sizes: "sizes_ok (bring s')" using inv same(1-3) by (auto simp: binv_def sizes_ok_def bgrows_def)
  note n = no_fills [OF none(3)] no_takes [OF none(4)]
  show ?thesis
    by (rule claim_inv [OF inv none(1,2), of s' 0 0])
      (use none n same sizes others own in simp_all)
qed

lemma goto_inv:
  assumes inv: "binv s" and none: "fills (bpc s p) = []" "takes (bpc s p) = []" "fills pc = []" "takes pc = []"
    and own: "read_ok (bring s) (was_full s p) (was_size s p) pc" "role_ok s p pc"
  shows "binv (bgoto p pc s)"
proof -
  have "tail_seen (bring s) \<le> tl_no (bring s)" using inv by (simp add: binv_def reads_ok_def)
  then show ?thesis
    by (intro look_inv [OF inv, of p]) (use none own in \<open>simp_all add: bgrows_def\<close>)
qed

lemma take_push_inv:
  assumes inv: "binv s" and none: "fills (bpc s p) = []" "takes (bpc s p) = []"
    and vs: "vs \<noteq> []" "length vs \<le> cap (bring s) - (tl_no (bring s) - hd_no (bring s))"
    and sp: "mp (bring s) \<or> p = sole_p s"
  shows "binv (take_push p vs s)"
proof -
  let ?t = "tl_no (bring s)"
  have sizes: "sizes_ok (bring s)" and seen: "tail_seen (bring s) \<le> ?t"
    using inv by (simp_all add: binv_def reads_ok_def)
  then have "sizes_ok (bring (take_push p vs s))"
    using vs(2) by (auto simp: sizes_ok_def take_push_def Let_def)
  moreover have "vals (take_push p vs s) t = v" if "(t, v) \<in> set (zip [?t..<?t + length vs] vs)" for t v
    using that by (auto simp: in_set_zip take_push_def Let_def)
  moreover have "ph = Wait" if "filling (BFill Wait (zip [?t..<?t + length vs] vs)) = Some (ph, t)" for ph t
    using that by (cases "zip [?t..<?t + length vs] vs") auto
  ultimately show ?thesis
    by (intro claim_inv [OF inv none, of _ "length vs" 0])
      (use seen vs sp in \<open>auto simp: take_push_def Let_def bgrows_def role_ok_def\<close>)
qed

lemma take_pop_inv:
  assumes inv: "binv s" and none: "fills (bpc s p) = []" "takes (bpc s p) = []"
    and n: "0 < n" "n \<le> tl_no (bring s) - hd_no (bring s)"
    and sc: "mc (bring s) \<or> p = sole_c s"
  shows "binv (take_pop p n s)"
proof -
  let ?h = "hd_no (bring s)"
  have sizes: "sizes_ok (bring s)" and seen: "tail_seen (bring s) \<le> tl_no (bring s)"
    using inv by (simp_all add: binv_def reads_ok_def)
  then have "sizes_ok (bring (take_pop p n s))"
    using n(2) by (auto simp: sizes_ok_def take_pop_def Let_def)
  moreover have "ph = Wait" if "taking (BTake Wait [?h..<?h + n]) = Some (ph, t)" for ph t
    using that by (cases "[?h..<?h + n]") auto
  ultimately show ?thesis
    by (intro claim_inv [OF inv none, of _ 0 n])
      (use seen n sc in \<open>auto simp: take_pop_def Let_def bgrows_def role_ok_def\<close>)
qed

lemma take_over_inv:
  assumes inv: "binv s" and none: "fills (bpc s p) = []" "takes (bpc s p) = []"
    and full: "cap (bring s) \<le> tl_no (bring s) - hd_no (bring s)" "0 < cap (bring s)"
    and ovr: "overrun (bring s)"
  shows "binv (take_over p v s)"
proof -
  have sizes: "sizes_ok (bring s)" and seen: "tail_seen (bring s) \<le> tl_no (bring s)"
    using inv by (simp_all add: binv_def reads_ok_def)
  then have "mp (bring s)" "mc (bring s)" using ovr by (simp_all add: sizes_ok_def)
  moreover have "hd_no (bring s) < tl_no (bring s)" using full by simp
  moreover have "sizes_ok (bring (take_over p v s))"
    using full sizes by (auto simp: sizes_ok_def take_over_def Let_def)
  ultimately show ?thesis
    by (intro claim_inv [OF inv none, of _ 1 1])
      (use seen in \<open>auto simp: take_over_def Let_def bgrows_def role_ok_def\<close>)
qed

text \<open>A step on a cell: the counters stay, and the thread goes on with its tickets.\<close>

lemma push_tickets_frame:
  "push_tickets_ok s \<Longrightarrow> tl_no (bring s') = tl_no (bring s) \<Longrightarrow> (\<And>n. cell_seq s' n = cell_seq s n) \<Longrightarrow>
    (\<And>q. fills (bpc s' q) = fills (bpc s q)) \<Longrightarrow> push_tickets_ok s'"
  by (simp add: push_tickets_ok_def)

lemma pop_tickets_frame:
  "pop_tickets_ok s \<Longrightarrow> hd_no (bring s') = hd_no (bring s) \<Longrightarrow> rsize (bring s') = rsize (bring s) \<Longrightarrow>
    (\<And>n. cell_seq s' n = cell_seq s n) \<Longrightarrow> (\<And>q. takes (bpc s' q) = takes (bpc s q)) \<Longrightarrow> pop_tickets_ok s'"
  by (simp add: pop_tickets_ok_def)

lemma reads_goto:
  assumes "binv s" "read_ok (bring s) (was_full s p) (was_size s p) pc" "role_ok s p pc"
  shows "reads_ok (bgoto p pc s)"
proof -
  have ok: "reads_ok s" using assms(1) by (simp add: binv_def)
  then have "tail_seen (bring s) \<le> tl_no (bring s)" by (simp add: reads_ok_def)
  then show ?thesis
    by (intro reads_step [OF ok, of "bgoto p pc s" p]) (use assms(2,3) in \<open>simp_all add: bgrows_def\<close>)
qed

lemma ready_inv:
  assumes inv: "binv s"
    and tickets: "fills pc = fills (bpc s p)" "takes pc = takes (bpc s p)" "fill_vals pc = fill_vals (bpc s p)"
    and old: "\<And>t. filling (bpc s p) \<noteq> Some (Done, t)" "\<And>h. taking (bpc s p) \<noteq> Some (Done, h)"
    and new: "\<And>ph t. filling pc = Some (ph, t) \<Longrightarrow> ph = Work \<and> cell_seq s t = t"
      "\<And>ph h. taking pc = Some (ph, h) \<Longrightarrow> ph = Work \<and> cell_seq s h = Suc h"
    and own: "read_ok (bring s) (was_full s p) (was_size s p) pc" "role_ok s p pc"
  shows "binv (bgoto p pc s)"
proof -
  have ok: "sizes_ok (bring s)" "push_tickets_ok s" "pop_tickets_ok s" "cells_ok s"
    using inv by (simp_all add: binv_def)
  have "push_tickets_ok (bgoto p pc s)"
    by (rule push_tickets_frame [OF ok(2)]) (simp_all add: cell_seq_def tickets)
  moreover have "pop_tickets_ok (bgoto p pc s)"
    by (rule pop_tickets_frame [OF ok(3)]) (simp_all add: cell_seq_def tickets)
  moreover have "cells_ok (bgoto p pc s)"
    by (rule claim_cells [OF ok(4,2), of _ p])
      (use old new ok(4) in \<open>auto simp: tickets cells_ok_def\<close>)
  moreover have "reads_ok (bgoto p pc s)" using inv own by (rule reads_goto)
  ultimately show ?thesis using ok(1) by (simp add: binv_def)
qed

text \<open>The state after a cell of ticket \<open>k\<close> has been written and the thread has gone on to \<open>pc\<close>.\<close>

definition wrote :: "nat \<Rightarrow> nat \<Rightarrow> 'a option \<Rightarrow> nat \<Rightarrow> 'a bpc \<Rightarrow> 'a bsys \<Rightarrow> 'a bsys \<Rightarrow> bool" where
  "wrote k x y p pc s s' \<longleftrightarrow> bgrows (bring s) (bring s') \<and> hd_no (bring s') = hd_no (bring s) \<and>
     tl_no (bring s') = tl_no (bring s) \<and> tail_seen (bring s') = tail_seen (bring s) \<and>
     (\<forall>i. bcells (bring s') i = (if i = k mod rsize (bring s) then \<lparr>seq = x, raw = y\<rparr> else bcells (bring s) i)) \<and>
     bpc s' = (bpc s)(p := pc) \<and> vals s' = vals s \<and> sole_p s' = sole_p s \<and> sole_c s' = sole_c s \<and>
     was_full s' = was_full s \<and> was_size s' = was_size s"

lemma wrote_cells:
  assumes "wrote k x y p pc s s'"
  shows "cell_seq s' n = (if n mod rsize (bring s) = k mod rsize (bring s) then x else cell_seq s n)"
    "cell_raw s' n = (if n mod rsize (bring s) = k mod rsize (bring s) then y else cell_raw s n)"
  using assms by (simp_all add: wrote_def cell_seq_def cell_raw_def bgrows_def)

lemma wrote_inv:
  assumes inv: "binv s" and w: "wrote k x y p pc s s'"
    and tickets: "push_tickets_ok s'" "pop_tickets_ok s'"
    and mine: "filling (bpc s p) = Some (ph, k) \<and> taking (bpc s p) = None \<or>
      taking (bpc s p) = Some (ph, k) \<and> filling (bpc s p) = None" "ph \<noteq> Wait"
    and form: "\<exists>c. c mod rsize (bring s) = k mod rsize (bring s) \<and> (x = c \<or> x = Suc c)"
    and pf: "\<And>ph t. filling pc = Some (ph, t) \<Longrightarrow> ph = Wait \<or> ph = Done \<and> t = k \<and> x = k \<and> y = Some (vals s k)"
    and pt: "\<And>ph h. taking pc = Some (ph, h) \<Longrightarrow> ph = Wait \<or> ph = Done \<and> h = k \<and> x = Suc k \<and> y = None"
    and full: "\<And>n. n mod rsize (bring s) = k mod rsize (bring s) \<Longrightarrow> x = Suc n \<Longrightarrow>
      taking pc = Some (Done, n) \<or> y = Some (vals s n)"
    and free: "\<And>n. n mod rsize (bring s) = k mod rsize (bring s) \<Longrightarrow> x = n \<Longrightarrow>
      filling pc = Some (Done, n) \<or> y = None"
    and fv: "set (fill_vals pc) \<subseteq> set (fill_vals (bpc s p))"
    and own: "read_ok (bring s) (was_full s p) (was_size s p) pc" "role_ok s p pc"
  shows "binv s'"
proof -
  have grows: "bgrows (bring s) (bring s')" "rsize (bring s') = rsize (bring s)"
    and pcs: "bpc s' = (bpc s)(p := pc)" "vals s' = vals s"
    and eqs: "hd_no (bring s') = hd_no (bring s)" "tl_no (bring s') = tl_no (bring s)"
      "tail_seen (bring s') = tail_seen (bring s)" "sole_p s' = sole_p s" "sole_c s' = sole_c s"
      "was_full s' = was_full s" "was_size s' = was_size s"
    using w by (simp_all add: wrote_def bgrows_def)
  have "sizes_ok (bring s')"
    using inv grows eqs by (auto simp: binv_def sizes_ok_def bgrows_def)
  moreover have "cells_ok s'"
    by (rule cells_update [OF inv _ grows(2) _ wrote_cells [OF w], of p ph])
      (use mine form pf pt full free fv in \<open>simp_all add: pcs\<close>)
  moreover have "reads_ok s'"
  proof (rule reads_step [OF _ grows(1), of p])
    show "reads_ok s" using inv by (simp add: binv_def)
    then show "tail_seen (bring s') \<le> tl_no (bring s')" by (simp add: reads_ok_def eqs)
    show "read_ok (bring s') (was_full s' p) (was_size s' p) (bpc s' p)"
      using read_ok_grows [OF own(1) grows(1)] by (simp add: eqs pcs)
  qed (use own in \<open>simp_all add: eqs pcs\<close>)
  ultimately show ?thesis using tickets by (simp add: binv_def)
qed

lemma cells_okD:
  assumes "binv s"
  shows "filling (bpc s p) = Some (ph, t) \<Longrightarrow> ph \<noteq> Wait \<Longrightarrow> cell_seq s t = t"
    "filling (bpc s p) = Some (Done, t) \<Longrightarrow> cell_raw s t = Some (vals s t)"
    "taking (bpc s p) = Some (ph, h) \<Longrightarrow> ph \<noteq> Wait \<Longrightarrow> cell_seq s h = Suc h"
    "taking (bpc s p) = Some (Done, h) \<Longrightarrow> cell_raw s h = None"
    "(t, v) \<in> set (fill_vals (bpc s p)) \<Longrightarrow> vals s t = v"
  using assms unfolding binv_def cells_ok_def by blast+

lemma cells_of: "binv s \<Longrightarrow> bcells (bring s) (n mod rsize (bring s)) = \<lparr>seq = cell_seq s n, raw = cell_raw s n\<rparr>"
  by (simp add: cell_seq_def cell_raw_def)

lemma ticket_cell_mod: "binv s \<Longrightarrow> ticket_cell s n = n mod rsize (bring s)"
  by (simp add: binv_def sizes_ok_rsize)

text \<open>Filling the cell of one's own ticket.\<close>

lemma fill_step_inv:
  assumes inv: "binv s" and pc: "bpc s p = BFill ph ts" and lap: "no_lap s"
  shows "binv (fill_step p ph ts s)"
proof -
  let ?R = "rsize (bring s)"
  have R: "2 \<le> ?R" using inv sizes_ok_rsize(1) by (auto simp: binv_def)
  have ok: "push_tickets_ok s" "pop_tickets_ok s" using inv by (simp_all add: binv_def)
  have sorted: "ts \<noteq> []" "sorted (map fst ts)" using inv pc by (auto simp: binv_def reads_ok_def dest: spec [of _ p])
  then obtain t v r where ts: "ts = (t, v) # r" by (cases ts) auto
  have v: "vals s t = v" using cells_okD(5) [OF inv, of t v p] by (simp add: pc ts)
  note D = cells_okD [OF inv, of p, unfolded pc ts, simplified]
  have role: "role_ok s p (BFill ph' ts')" for ph' ts' by (simp add: role_ok_def)
  show ?thesis
  proof (cases ph)
    case Wait
    have "cell_seq s t = t" if "fill_ready t s"
      using fill_ready_exact [OF inv _ lap that, of p] by (simp add: pc ts)
    then show ?thesis
      using sorted inv ready_inv [OF inv, of "BFill Work ((t, v) # r)" p] by (auto simp: Wait ts pc role)
  next
    case Work
    have now: "cell_seq s t = t" using D(1) by (simp add: Work)
    have w: "wrote t t (Some v) p (BFill Done ts) s (fill_step p ph ts s)"
      using cells_of [OF inv, of t] now
      by (simp add: Work ts wrote_def bgrows_def ticket_cell_mod [OF inv] set_raw_def)
    note cs = wrote_cells [OF w]
    have seq: "cell_seq (fill_step p ph ts s) n = cell_seq s n" for n
      using now unfolding cs by (simp add: cell_seq_def)
    have "push_tickets_ok (fill_step p ph ts s)"
      by (rule push_tickets_frame [OF ok(1) _ seq]) (simp_all add: Work ts pc)
    moreover have "pop_tickets_ok (fill_step p ph ts s)"
      by (rule pop_tickets_frame [OF ok(2) _ _ seq]) (simp_all add: Work ts pc)
    ultimately show ?thesis
      by (rule wrote_inv [OF inv w, of ph])
        (use sorted not_same_cell [OF R, OF sym] in \<open>auto simp: pc ts Work v role\<close>)
  next
    case Done
    have now: "cell_seq s t = t" "cell_raw s t = Some v" using D(1,2) v by (simp_all add: Done)
    let ?pc = "if r = [] then BIdle else BFill Wait r"
    have w: "wrote t (Suc t) (Some v) p ?pc s (fill_step p ph ts s)"
      using cells_of [OF inv, of t] now
      by (simp add: Done ts wrote_def bgrows_def ticket_cell_mod [OF inv] set_seq_def)
    note cs = wrote_cells [OF w]
    have "push_tickets_ok (fill_step p ph ts s)"
      by (rule publish_push_tickets [OF ok(1) _ now(1) cs(1) refl, of p "map fst r"])
        (simp_all add: Done ts pc)
    moreover have "pop_tickets_ok (fill_step p ph ts s)"
      by (rule publish_pop_tickets [OF ok(2) now(1) _ _ cs(1) refl R]) (simp_all add: Done ts pc)
    moreover have "filling ?pc = Some (ph', t') \<Longrightarrow> ph' = Wait" "taking ?pc = None" for ph' t'
      by (cases r; auto)+
    ultimately show ?thesis
      by (intro wrote_inv [OF inv w, of ph])
        (use sorted not_same_cell [OF R] in \<open>auto simp: pc ts Done v role_ok_def\<close>)
  qed
qed

text \<open>
  Emptying the cell of one's own ticket, whatever the thread goes on to: a pop, a batch or an
  overrun, which has still its own ticket to fill.
\<close>

lemma empty_inv:
  assumes inv: "binv s" and pc: "taking (bpc s p) = Some (Work, h)" "filling (bpc s p) = None"
    and pc': "fills pc = fills (bpc s p)" "takes pc = takes (bpc s p)" "fill_vals pc = fill_vals (bpc s p)"
      "taking pc = Some (Done, h)" "filling pc = None"
    and own: "read_ok (bring s) (was_full s p) (was_size s p) pc" "role_ok s p pc"
  shows "binv (bgoto p pc (empty_cell h s))"
proof -
  let ?s = "bgoto p pc (empty_cell h s)"
  have R: "2 \<le> rsize (bring s)" using inv sizes_ok_rsize(1) by (auto simp: binv_def)
  have ok: "push_tickets_ok s" "pop_tickets_ok s" using inv by (simp_all add: binv_def)
  have now: "cell_seq s h = Suc h" using cells_okD(3) [OF inv pc(1)] by simp
  have w: "wrote h (Suc h) None p pc s ?s"
    using cells_of [OF inv, of h] now
    by (simp add: wrote_def bgrows_def ticket_cell_mod [OF inv] set_raw_def empty_cell_def)
  have seq: "cell_seq ?s n = cell_seq s n" for n
    using now unfolding wrote_cells [OF w] by (simp add: cell_seq_def)
  have "push_tickets_ok ?s"
    by (rule push_tickets_frame [OF ok(1) _ seq]) (simp_all add: pc' empty_cell_def)
  moreover have "pop_tickets_ok ?s"
    by (rule pop_tickets_frame [OF ok(2) _ _ seq]) (simp_all add: pc' empty_cell_def)
  ultimately show ?thesis
    by (rule wrote_inv [OF inv w, of Work]) (use pc pc' own not_same_cell [OF R] in auto)
qed

lemma free_inv:
  assumes inv: "binv s" and pc: "taking (bpc s p) = Some (Done, h)" "filling (bpc s p) = None"
    and pc': "fills pc = fills (bpc s p)" "takes (bpc s p) = h # takes pc" "fill_vals pc = fill_vals (bpc s p)"
      "\<And>ph k. taking pc = Some (ph, k) \<Longrightarrow> ph = Wait" "\<And>ph k. filling pc = Some (ph, k) \<Longrightarrow> ph = Wait"
    and own: "read_ok (bring s) (was_full s p) (was_size s p) pc" "role_ok s p pc"
  shows "binv (bgoto p pc (free_cell h s))"
proof -
  let ?s = "bgoto p pc (free_cell h s)" and ?R = "rsize (bring s)"
  have R: "2 \<le> ?R" using inv sizes_ok_rsize(1) by (auto simp: binv_def)
  have ok: "push_tickets_ok s" "pop_tickets_ok s" using inv by (simp_all add: binv_def)
  have now: "cell_seq s h = Suc h" "cell_raw s h = None"
    using cells_okD(3) [OF inv pc(1)] cells_okD(4) [OF inv pc(1)] by simp_all
  have w: "wrote h (h + ?R) None p pc s ?s"
    using cells_of [OF inv, of h] now
    by (simp add: wrote_def bgrows_def ticket_cell_mod [OF inv] set_seq_def free_cell_def)
  note cs = wrote_cells [OF w]
  have "push_tickets_ok ?s"
    by (rule free_push_tickets [OF ok(1) now(1) _ cs(1) refl R]) (simp_all add: pc' free_cell_def)
  moreover have "pop_tickets_ok ?s"
    by (rule free_pop_tickets [OF ok(2) now(1) _ _ cs(1) refl R, of p]) (simp_all add: pc' free_cell_def)
  moreover have "n mod ?R = h mod ?R \<Longrightarrow> h + ?R \<noteq> Suc n" for n
    using not_same_cell [OF R, of "h + ?R" n] by simp
  moreover have "\<exists>c. c mod ?R = h mod ?R \<and> (h + ?R = c \<or> h + ?R = Suc c)"
    by (rule exI [of _ "h + ?R"]) simp
  ultimately show ?thesis
    by (intro wrote_inv [OF inv w, of Done]) (use pc pc' own in auto)
qed

lemma take_step_inv:
  assumes inv: "binv s" and pc: "bpc s p = BTake ph hs" and lap: "no_lap s"
  shows "binv (take_step p ph hs s)"
proof -
  have sorted: "hs \<noteq> []" "sorted hs" using inv pc by (auto simp: binv_def reads_ok_def dest: spec [of _ p])
  then obtain h r where hs: "hs = h # r" by (cases hs) auto
  have role: "role_ok s p (BTake ph' ts')" "role_ok s p BIdle" for ph' ts' by (simp_all add: role_ok_def)
  show ?thesis
  proof (cases ph)
    case Wait
    have "cell_seq s h = Suc h" if "take_ready h s"
      using take_ready_exact [OF inv _ lap that, of p] by (simp add: pc hs)
    then show ?thesis
      using sorted inv ready_inv [OF inv, of "BTake Work (h # r)" p] by (auto simp: Wait hs pc role)
  next
    case Work
    then show ?thesis
      using sorted empty_inv [OF inv, of p h "BTake Done (h # r)"] by (simp add: hs pc role)
  next
    case Done
    have "ph' = Wait" if "taking (if r = [] then BIdle else BTake Wait r) = Some (ph', k)" for ph' k
      using that by (cases r) auto
    then show ?thesis
      using sorted free_inv [OF inv, of p h "if r = [] then BIdle else BTake Wait r"]
      by (cases "r = []") (auto simp: Done hs pc role)
  qed
qed

lemma overruns_inv: "binv (s\<lparr>bring := (bring s)\<lparr>overruns := n\<rparr>\<rparr>) = binv s"
proof -
  have "sizes_ok ((bring s)\<lparr>overruns := n\<rparr>) = sizes_ok (bring s)" by (simp add: sizes_ok_def)
  moreover have "read_ok ((bring s)\<lparr>overruns := n\<rparr>) f z pc = read_ok (bring s) f z pc" for f z pc
    by (cases pc) auto
  ultimately show ?thesis
    by (simp add: binv_def push_tickets_ok_def pop_tickets_ok_def cells_ok_def reads_ok_def
        cell_seq_def cell_raw_def)
qed

lemma over_step_inv:
  fixes s :: "'a bsys"
  assumes inv: "binv s" and pc: "bpc s p = OTake ph h t v" and lap: "no_lap s"
  shows "binv (over_step p ph h t v s)"
proof -
  have less: "h < t" using inv pc by (auto simp: binv_def reads_ok_def dest: spec [of _ p])
  have role: "role_ok s p (OTake ph' h t v)" "role_ok s p (BFill Wait [(t, v)])" for ph'
    by (simp_all add: role_ok_def)
  show ?thesis
  proof (cases ph)
    case Wait
    have "cell_seq s h = Suc h" if "take_ready h s"
      using take_ready_exact [OF inv _ lap that, of p] by (simp add: pc)
    then show ?thesis
      using less inv ready_inv [OF inv, of "OTake Work h t v" p] by (auto simp: Wait pc role)
  next
    case Work
    then show ?thesis
      using less empty_inv [OF inv, of p h "OTake Done h t v"] by (simp add: pc role)
  next
    case Done
    have "binv (bgoto p (BFill Wait [(t, v)]) (free_cell h s))"
      using free_inv [OF inv, of p h "BFill Wait [(t, v)]"] by (simp add: Done pc role)
    then have "binv ((bgoto p (BFill Wait [(t, v)]) (free_cell h s))
        \<lparr>bring := (bring (free_cell h s))\<lparr>overruns := Suc (overruns (bring s))\<rparr>\<rparr>)"
      using overruns_inv [where s = "bgoto p (BFill Wait [(t, v)]) (free_cell h s)"] by simp
    moreover have "(s'\<lparr>bpc := x, bring := y\<rparr>) = (s'\<lparr>bring := y, bpc := x\<rparr>)" for s' :: "'a bsys" and x y
      by simp
    ultimately show ?thesis by (simp add: Done bgoto_def)
  qed
qed

end
