(* ===== verification/Bounded_Promises.thy ===== *)
theory Bounded_Promises
  imports Bounded_Steps "HOL-Library.Code_Target_Nat"
begin

text \<open>
  What the bounded queue promises: every run is a run of the sequential bounded queue, refusals
  and sizes are exact, threads have the cells they work on for themselves, and the destructor
  finds exactly the elements still queued.
\<close>

section \<open>The content\<close>

lemma content_same:
  "hd_no (bring t) = hd_no (bring s) \<Longrightarrow> tl_no (bring t) = tl_no (bring s) \<Longrightarrow> vals t = vals s \<Longrightarrow>
    bcontent t = bcontent s"
  by (simp add: bcontent_def)

lemma length_content [simp]: "length (bcontent s) = tl_no (bring s) - hd_no (bring s)"
  by (simp add: bcontent_def)

lemma content_goto [simp]: "bcontent (bgoto p pc s) = bcontent s"
  by (simp add: bcontent_def)

lemma content_push:
  assumes "hd_no (bring s) \<le> tl_no (bring s)"
  shows "bcontent (take_push p vs s) = bcontent s @ vs"
  using assms
  by (intro nth_equalityI) (auto simp: bcontent_def take_push_def Let_def nth_append add.commute)

lemma content_pop:
  "bcontent (take_pop p n s) = drop n (bcontent s)"
  by (simp add: bcontent_def take_pop_def Let_def drop_map)

lemma popped_take:
  "n \<le> tl_no (bring s) - hd_no (bring s) \<Longrightarrow> popped_vals n s = take n (bcontent s)"
  by (cases "n = 0") (simp_all add: bcontent_def popped_vals_def take_map)

lemma content_over:
  assumes "hd_no (bring s) < tl_no (bring s)"
  shows "bcontent (take_over p v s) = tl (bcontent s) @ [v]"
  using assms
  by (intro nth_equalityI) (auto simp: bcontent_def take_over_def Let_def nth_append nth_tl)

lemma content_head:
  assumes "hd_no (bring s) < tl_no (bring s)"
  shows "bcontent s = vals s (hd_no (bring s)) # drop 1 (bcontent s)"
  using assms by (simp add: bcontent_def upt_conv_Cons)

section \<open>Decisions on the current words\<close>

lemma counters_ok:
  assumes "binv s"
  shows "hd_no (bring s) \<le> tl_no (bring s)" "tl_no (bring s) - hd_no (bring s) \<le> cap (bring s)"
    "tl_no (bring s) < hd_no (bring s) + 2 ^ 31" "cap (bring s) \<le> 2 ^ 30"
  using assms by (auto simp: binv_def sizes_ok_def)

lemma full_now:
  assumes "binv s"
  shows "is_full (cap (bring s)) (head_word (bring s)) (tail_word (bring s)) \<longleftrightarrow>
    cap (bring s) \<le> tl_no (bring s) - hd_no (bring s)"
  using counters_ok [OF assms] by (intro is_full_iff) simp_all

lemma push_count_now:
  assumes "binv s"
  shows "push_count (cap (bring s)) n (head_word (bring s)) (tail_word (bring s)) =
    min n (cap (bring s) - (tl_no (bring s) - hd_no (bring s)))"
  using counters_ok [OF assms] by (intro push_count_eq) simp_all

lemma pop_count_now:
  assumes "binv s"
  shows "pop_count n (head_word (bring s)) (tail_word (bring s)) = min n (tl_no (bring s) - hd_no (bring s))"
  using counters_ok [OF assms] by (intro pop_count_eq) simp_all

lemma empty_now:
  assumes "binv s"
  shows "head_word (bring s) = tail_word (bring s) \<longleftrightarrow> hd_no (bring s) = tl_no (bring s)"
  using counters_ok [OF assms] w32_eq [of "hd_no (bring s)" "tl_no (bring s)"] by auto

lemma swaps_words: "swaps spurious h t s \<Longrightarrow> w32 h = head_word (bring s) \<and> w32 t = tail_word (bring s)"
  by (simp add: swaps_def state_word_def)

text \<open>What one step has to do: keep the invariant and be one of the sequential queue.\<close>

definition step_good :: "'a bsys \<Rightarrow> 'a bevent list \<times> 'a bsys \<Rightarrow> bool" where
  "step_good s r \<longleftrightarrow> (case r of (es, t) \<Rightarrow> binv t \<and> cap (bring t) = cap (bring s) \<and>
     spec_run (bq_step (cap (bring s))) (bcontent s) es = Some (bcontent t))"

lemma goto_good:
  assumes "binv s" "fills (bpc s p) = []" "takes (bpc s p) = []" "fills pc = []" "takes pc = []"
    "read_ok (bring s) (was_full s p) (was_size s p) pc" "role_ok s p pc"
    "spec_run (bq_step (cap (bring s))) (bcontent s) es = Some (bcontent s)"
  shows "step_good s (es, bgoto p pc s)"
  using assms goto_inv [OF assms(1-7)] by (simp add: step_good_def)

lemma push_good:
  assumes inv: "binv s" and none: "fills (bpc s p) = []" "takes (bpc s p) = []"
    and sp: "mp (bring s) \<or> p = sole_p s"
    and room: "tl_no (bring s) - hd_no (bring s) < cap (bring s)"
  shows "step_good s ([BPush v], take_push p [v] s)"
proof -
  have "binv (take_push p [v] s)" using take_push_inv [OF inv none, of "[v]"] sp room by simp
  then show ?thesis
    using content_push [OF counters_ok(1) [OF inv], of p "[v]"] room
    by (simp add: step_good_def take_push_def Let_def)
qed

lemma push_n_good:
  assumes inv: "binv s" and none: "fills (bpc s p) = []" "takes (bpc s p) = []"
    and sp: "mp (bring s) \<or> p = sole_p s"
    and k: "k = min (length vs) (cap (bring s) - (tl_no (bring s) - hd_no (bring s)))" "0 < k"
  shows "step_good s ([BPushN (length vs) (take k vs)], take_push p (take k vs) s)"
proof -
  have "binv (take_push p (take k vs) s)"
    using take_push_inv [OF inv none, of "take k vs"] sp k by auto
  then show ?thesis
    using content_push [OF counters_ok(1) [OF inv], of p "take k vs"] k
    by (simp add: step_good_def take_push_def Let_def)
qed

lemma pop_n_good:
  assumes inv: "binv s" and none: "fills (bpc s p) = []" "takes (bpc s p) = []"
    and sc: "mc (bring s) \<or> p = sole_c s"
    and k: "k = min n (tl_no (bring s) - hd_no (bring s))" "0 < k"
  shows "step_good s ([BPopN n (popped_vals k s)], take_pop p k s)"
proof -
  have "binv (take_pop p k s)" using take_pop_inv [OF inv none, of k] sc k by auto
  moreover have "popped_vals k s = take n (bcontent s)" "drop k (bcontent s) = drop n (bcontent s)"
    using popped_take [of k s] k by (auto simp: min_def)
  ultimately show ?thesis
    using content_pop [of p k s] by (simp add: step_good_def take_pop_def Let_def)
qed

lemma pop_good:
  assumes inv: "binv s" and none: "fills (bpc s p) = []" "takes (bpc s p) = []"
    and sc: "mc (bring s) \<or> p = sole_c s" and some: "hd_no (bring s) < tl_no (bring s)"
  shows "step_good s ([BPop (vals s (hd_no (bring s)))], take_pop p 1 s)"
proof -
  have "binv (take_pop p 1 s)" using take_pop_inv [OF inv none, of 1] sc some by auto
  moreover obtain q where "bcontent s = vals s (hd_no (bring s)) # q" using content_head [OF some] by blast
  ultimately show ?thesis
    using content_pop [of p 1 s] by (simp add: step_good_def take_pop_def Let_def)
qed

lemma over_good:
  assumes inv: "binv s" and none: "fills (bpc s p) = []" "takes (bpc s p) = []"
    and full: "cap (bring s) \<le> tl_no (bring s) - hd_no (bring s)" "0 < cap (bring s)" and ovr: "overrun (bring s)"
  shows "step_good s ([BOver v], take_over p v s)"
proof -
  have "binv (take_over p v s)" using take_over_inv [OF inv none full ovr] .
  moreover have "hd_no (bring s) < tl_no (bring s)" using full by simp
  ultimately show ?thesis
    using content_over [of s p v] full by (simp add: step_good_def take_over_def Let_def)
qed

section \<open>Moves\<close>

lemma decide_push_good:
  assumes inv: "binv s" and none: "fills (bpc s p) = []" "takes (bpc s p) = []" and role: "role_ok s p (PState v)"
  shows "step_good s (decide_push p v s)"
proof -
  have "role_ok s p (PCas v h t)" "role_ok s p BIdle" for h t using role by (simp_all add: role_ok_def)
  then show ?thesis
    using goto_good [OF inv none] full_now [OF inv] by (simp add: decide_push_def Let_def state_word_def)
qed

lemma decide_push_n_good:
  assumes inv: "binv s" and none: "fills (bpc s p) = []" "takes (bpc s p) = []"
    and role: "role_ok s p (NState vs)" and vs: "vs \<noteq> []"
  shows "step_good s (decide_push_n p vs s)"
proof -
  have "role_ok s p (NCas vs h t)" "role_ok s p BIdle" for h t using role by (simp_all add: role_ok_def)
  then show ?thesis
    using goto_good [OF inv none] push_count_now [OF inv, of "length vs"] vs
    by (auto simp: decide_push_n_def Let_def state_word_def min_def split: if_splits)
qed

lemma decide_pop_good:
  assumes inv: "binv s" and none: "fills (bpc s p) = []" "takes (bpc s p) = []" and role: "role_ok s p CState"
  shows "step_good s (decide_pop p s)"
proof -
  have "role_ok s p (CCas h t)" "role_ok s p BIdle" for h t using role by (simp_all add: role_ok_def)
  moreover have "bcontent s = []" if "hd_no (bring s) = tl_no (bring s)" using that by (simp add: bcontent_def)
  ultimately show ?thesis
    using goto_good [OF inv none] empty_now [OF inv] by (simp add: decide_pop_def Let_def state_word_def)
qed

lemma decide_pop_n_good:
  assumes inv: "binv s" and none: "fills (bpc s p) = []" "takes (bpc s p) = []"
    and role: "role_ok s p (MState n)" and n: "0 < n"
  shows "step_good s (decide_pop_n p n s)"
proof -
  have "role_ok s p (MCas n h t)" "role_ok s p BIdle" for h t using role by (simp_all add: role_ok_def)
  moreover have "bcontent s = []" if "pop_count n (head_word (bring s)) (tail_word (bring s)) = 0"
    using that n counters_ok(1) [OF inv] by (auto simp: pop_count_now [OF inv] min_def bcontent_def split: if_splits)
  ultimately show ?thesis
    using goto_good [OF inv none] n by (auto simp: decide_pop_n_def Let_def state_word_def)
qed

lemma thread_ok:
  assumes "binv s"
  shows "read_ok (bring s) (was_full s p) (was_size s p) (bpc s p)" "role_ok s p (bpc s p)"
  using assms by (simp_all add: binv_def reads_ok_role)

lemma packed_moves_good:
  assumes inv: "binv s"
  shows "bpc s p = PCas v h t \<Longrightarrow> step_good s (cas_push spurious p v h t s)"
    "bpc s p = OCas v h t \<Longrightarrow> step_good s (cas_over spurious p v h t s)"
    "bpc s p = NCas vs h t \<Longrightarrow> step_good s (cas_push_n spurious p vs h t s)"
    "bpc s p = CCas h t \<Longrightarrow> step_good s (cas_pop spurious p h t s)"
    "bpc s p = MCas n h t \<Longrightarrow> step_good s (cas_pop_n spurious p n h t s)"
proof -
  note R = thread_ok [OF inv, of p]
  note W = swaps_words [of spurious h t s]
  { assume pc: "bpc s p = PCas v h t"
    then show "step_good s (cas_push spurious p v h t s)"
      using R W push_good [OF inv, of p v] decide_push_good [OF inv, of p v] full_now [OF inv]
      by (auto simp: cas_push_def role_ok_def) }
  { assume pc: "bpc s p = OCas v h t"
    have "sizes_ok (bring s)" using inv by (simp add: binv_def)
    then have "mp (bring s)" using R pc by (auto simp: sizes_ok_def)
    then show "step_good s (cas_over spurious p v h t s)"
      using pc R W push_good [OF inv, of p v] over_good [OF inv, of p v] full_now [OF inv]
        goto_good [OF inv, of p "OCas v (hd_no (bring s)) (tl_no (bring s))" "[]"]
      by (auto simp: cas_over_def role_ok_def) }
  { assume pc: "bpc s p = NCas vs h t"
    then show "step_good s (cas_push_n spurious p vs h t s)"
      using R W push_n_good [OF inv, of p _ vs] decide_push_n_good [OF inv, of p vs]
        push_count_now [OF inv, of "length vs"]
      by (auto simp: cas_push_n_def role_ok_def Let_def) }
  { assume pc: "bpc s p = CCas h t"
    then show "step_good s (cas_pop spurious p h t s)"
      using R W pop_good [OF inv, of p] decide_pop_good [OF inv, of p] empty_now [OF inv] counters_ok(1) [OF inv]
      by (auto simp: cas_pop_def role_ok_def) }
  { assume pc: "bpc s p = MCas n h t"
    then show "step_good s (cas_pop_n spurious p n h t s)"
      using R W pop_n_good [OF inv, of p _ n] decide_pop_n_good [OF inv, of p n] pop_count_now [OF inv, of n]
      by (auto simp: cas_pop_n_def role_ok_def Let_def) }
qed

text \<open>The split layout: old values of the counters are told from the current ones.\<close>

lemma kept:
  assumes "no_lap s" "n \<in> set (kept_tickets (bpc s p))"
  shows "tl_no (bring s) < n + 2 ^ 31"
  using assms by (auto simp: no_lap_def)

lemma look_good:
  assumes inv: "binv s" and none: "fills (bpc s p) = []" "takes (bpc s p) = []" "fills pc = []" "takes pc = []"
    and own: "read_ok ((bring s)\<lparr>tail_seen := k\<rparr>) (f p) (z p) pc" "role_ok s p pc" "k \<le> tl_no (bring s)"
    and others: "\<And>q. q \<noteq> p \<Longrightarrow> f q = was_full s q \<and> z q = was_size s q"
  shows "step_good s ([], bgoto p pc (s\<lparr>bring := (bring s)\<lparr>tail_seen := k\<rparr>, was_full := f, was_size := z\<rparr>))"
    (is "step_good s ([], ?s)")
proof -
  have "binv ?s"
    by (rule look_inv [OF inv, of p]) (use none own others in \<open>simp_all add: bgrows_def\<close>)
  then show ?thesis by (simp add: step_good_def bcontent_def)
qed

lemma push_read_head_good:
  assumes inv: "binv s" and pc: "bpc s p = PHead v t"
  shows "step_good s ([], push_read_head p v t s)"
proof -
  have ok: "t \<le> tl_no (bring s)" "\<not> mp (bring s) \<Longrightarrow> t = tl_no (bring s)" "role_ok s p (PHead v t)"
    using thread_ok [OF inv, of p] pc by auto
  then have roles: "role_ok s p (PAgain v t)" "role_ok s p (PTake v t)" by (simp_all add: role_ok_def)
  have seen: "tail_seen (bring s) \<le> tl_no (bring s)" using inv by (simp add: binv_def reads_ok_def)
  let ?full = "cap (bring s) \<le> tl_no (bring s) - hd_no (bring s)"
  show ?thesis
  proof (cases "is_full (cap (bring s)) (head_word (bring s)) (w32 t)")
    case True
    then show ?thesis
      using look_good [OF inv, of p "PAgain v t" "tail_seen (bring s)" "(was_full s)(p := ?full)" "was_size s"]
        ok roles seen full_now [OF inv] pc
      by (auto simp: push_read_head_def)
  next
    case False
    then show ?thesis
      using goto_good [OF inv, of p "PTake v t" "[]"] ok roles full_now [OF inv] pc
      by (auto simp: push_read_head_def)
  qed
qed

lemma push_ticket_good:
  assumes inv: "binv s" and pc: "bpc s p = PTake v t" and lap: "no_lap s"
  shows "step_good s (push_ticket spurious p v t s)"
proof -
  have ok: "t \<le> tl_no (bring s)" "\<not> mp (bring s) \<Longrightarrow> t = tl_no (bring s)"
    "t = tl_no (bring s) \<Longrightarrow> tl_no (bring s) - hd_no (bring s) < cap (bring s)" "role_ok s p (PTake v t)"
    using thread_ok [OF inv, of p] pc by auto
  then have roles: "role_ok s p (PTail v)" by (simp add: role_ok_def)
  have now: "t = tl_no (bring s)" if "tail_word (bring s) = w32 t"
    using w32_eq [of "tl_no (bring s)" t] that ok(1) kept [OF lap, of t p] pc by simp
  have same: "s\<lparr>bring := (bring s)\<lparr>tl_no := tl_no (bring s)\<rparr>\<rparr> = s" by simp
  show ?thesis
    using push_good [OF inv, of p v] goto_good [OF inv, of p "PTail v" "[]"] ok roles now pc same
    by (auto simp: push_ticket_def role_ok_def)
qed

lemma pop_ticket_good:
  assumes inv: "binv s" and pc: "bpc s p = CTicket h" and lap: "no_lap s"
  shows "step_good s (pop_ticket spurious p h s)"
proof -
  have ok: "h \<le> hd_no (bring s)" "\<not> mc (bring s) \<Longrightarrow> h = hd_no (bring s)" "h < tl_no (bring s)"
    "role_ok s p (CTicket h)"
    using thread_ok [OF inv, of p] pc by auto
  then have roles: "role_ok s p CHead" by (simp add: role_ok_def)
  have now: "h = hd_no (bring s)" if "head_word (bring s) = w32 h"
    using w32_eq [of "hd_no (bring s)" h] that ok(1) kept [OF lap, of h p] pc counters_ok(1) [OF inv] by simp
  have same: "s\<lparr>bring := (bring s)\<lparr>hd_no := hd_no (bring s)\<rparr>\<rparr> = s" by simp
  show ?thesis
    using pop_good [OF inv, of p] goto_good [OF inv, of p CHead "[]"] ok roles now pc same
    by (auto simp: pop_ticket_def role_ok_def Let_def)
qed

lemma pop_reads_good:
  assumes inv: "binv s" and lap: "no_lap s"
  shows "bpc s p = CSeen h \<Longrightarrow> step_good s ([], bgoto p
      (if sint (w32 (tail_seen (bring s)) - w32 h) \<le> 0 then CTail h else CTicket h) s)"
    "bpc s p = CTail h \<Longrightarrow> step_good s (pop_read_tail p h s)"
    "bpc s p = CStore h t \<Longrightarrow> step_good s ([], pop_store_seen p h t s)"
proof -
  note R = thread_ok [OF inv, of p] and C = counters_ok [OF inv]
  have seen: "tail_seen (bring s) \<le> tl_no (bring s)" using inv by (simp add: binv_def reads_ok_def)
  { assume pc: "bpc s p = CSeen h"
    then have ok: "h \<le> hd_no (bring s)" "\<not> mc (bring s) \<Longrightarrow> h = hd_no (bring s)"
      "role_ok s p (CTail h)" "role_ok s p (CTicket h)" "\<not> packed (bring s)"
      using R by (auto simp: role_ok_def)
    have "tl_no (bring s) < tail_seen (bring s) + 2 ^ 31" using lap ok(5) by (simp add: no_lap_def)
    then have "sint (w32 (tail_seen (bring s)) - w32 h) = int (tail_seen (bring s)) - int h"
      using kept [OF lap, of h p] pc seen ok(1) C(1) by (intro w32_sint_diff) simp_all
    then show "step_good s ([], bgoto p
        (if sint (w32 (tail_seen (bring s)) - w32 h) \<le> 0 then CTail h else CTicket h) s)"
      using goto_good [OF inv, of p "CTail h" "[]"] goto_good [OF inv, of p "CTicket h" "[]"] ok pc seen
      by auto }
  { assume pc: "bpc s p = CTail h"
    then have ok: "h \<le> hd_no (bring s)" "\<not> mc (bring s) \<Longrightarrow> h = hd_no (bring s)"
      "role_ok s p (CStore h (tl_no (bring s)))"
      using R by (auto simp: role_ok_def)
    have "hd_no (bring s) = tl_no (bring s)" if "w32 h = tail_word (bring s)"
      using w32_eq [of h "tl_no (bring s)"] that kept [OF lap, of h p] pc ok(1) C(1) by simp
    then have "bcontent s = []" if "w32 h = tail_word (bring s)" using that by (simp add: bcontent_def)
    then show "step_good s (pop_read_tail p h s)"
      using goto_good [OF inv, of p "CStore h (tl_no (bring s))"] ok pc C(1) by (simp add: pop_read_tail_def) }
  { assume pc: "bpc s p = CStore h t"
    then have ok: "h \<le> hd_no (bring s)" "\<not> mc (bring s) \<Longrightarrow> h = hd_no (bring s)" "h \<le> t" "t \<le> tl_no (bring s)"
      "role_ok s p (CTicket h)" "role_ok s p BIdle"
      using R by (auto simp: role_ok_def)
    have "h < t" if "w32 h \<noteq> w32 t" using that ok(3) by (cases "h = t") auto
    then show "step_good s ([], pop_store_seen p h t s)"
      using look_good [OF inv, of p _ t "was_full s" "was_size s"] ok pc
      by (auto simp: pop_store_seen_def) }
qed

lemma size_reads_good:
  assumes inv: "binv s" and lap: "no_lap s"
  shows "bpc s p = STail h \<Longrightarrow> step_good s ([], bgoto p (SAgain h (tl_no (bring s)))
       (s\<lparr>was_size := (was_size s)(p := tl_no (bring s) - hd_no (bring s))\<rparr>))"
proof -
  assume pc: "bpc s p = STail h"
  then have ok: "h \<le> hd_no (bring s)" "role_ok s p (SAgain h (tl_no (bring s)))"
    using thread_ok [OF inv, of p] by (auto simp: role_ok_def)
  have "tail_seen (bring s) \<le> tl_no (bring s)" using inv by (simp add: binv_def reads_ok_def)
  then show "step_good s ([], bgoto p (SAgain h (tl_no (bring s)))
       (s\<lparr>was_size := (was_size s)(p := tl_no (bring s) - hd_no (bring s))\<rparr>))"
    using look_good [OF inv, of p "SAgain h (tl_no (bring s))" "tail_seen (bring s)" "was_full s"
        "(was_size s)(p := tl_no (bring s) - hd_no (bring s))"]
      ok pc kept [OF lap, of h p] counters_ok(1) [OF inv]
    by simp
qed

lemma cell_moves_good:
  assumes inv: "binv s" and lap: "no_lap s"
  shows "bpc s p = OTake ph h t v \<Longrightarrow> step_good s ([], over_step p ph h t v s)"
    "bpc s p = BFill ph ts \<Longrightarrow> step_good s ([], fill_step p ph ts s)"
    "bpc s p = BTake ph hs \<Longrightarrow> step_good s ([], take_step p ph hs s)"
proof -
  note frames = bcontent_def free_cell_def empty_cell_def
  show "bpc s p = OTake ph h t v \<Longrightarrow> step_good s ([], over_step p ph h t v s)"
    using over_step_inv [OF inv, of p ph h t v] lap by (cases ph) (auto simp: step_good_def frames)
  show "bpc s p = BFill ph ts \<Longrightarrow> step_good s ([], fill_step p ph ts s)"
    using fill_step_inv [OF inv, of p ph ts] lap
    by (cases "(p, ph, ts, s)" rule: fill_step.cases) (auto simp: step_good_def frames)
  show "bpc s p = BTake ph hs \<Longrightarrow> step_good s ([], take_step p ph hs s)"
    using take_step_inv [OF inv, of p ph hs] lap
    by (cases "(p, ph, hs, s)" rule: take_step.cases) (auto simp: step_good_def frames)
qed

lemma bmove_good:
  assumes inv: "binv s" and lap: "no_lap s" and move: "bmove spurious p s = Some r"
  shows "step_good s r"
proof -
  note T = thread_ok [OF inv, of p] and G = goto_good [OF inv, of p _ "[]"] and C = counters_ok [OF inv]
  show ?thesis
  proof (cases "bpc s p")
    case (PHead v t)
    then show ?thesis using push_read_head_good [OF inv] move by auto
  next
    case (PTake v t)
    then show ?thesis using push_ticket_good [OF inv _ lap] move by auto
  next
    case (PCas v h t)
    then show ?thesis using packed_moves_good(1) [OF inv] move by auto
  next
    case (OCas v h t)
    then show ?thesis using packed_moves_good(2) [OF inv] move by auto
  next
    case (NCas vs h t)
    then show ?thesis using packed_moves_good(3) [OF inv] move by auto
  next
    case (OTake ph h t v)
    then show ?thesis using cell_moves_good(1) [OF inv lap] move by auto
  next
    case (BFill ph ts)
    then show ?thesis using cell_moves_good(2) [OF inv lap] move by auto
  next
    case (BTake ph hs)
    then show ?thesis using cell_moves_good(3) [OF inv lap] move by auto
  next
    case (CSeen h)
    then show ?thesis using pop_reads_good(1) [OF inv lap] move by auto
  next
    case (CTail h)
    then show ?thesis using pop_reads_good(2) [OF inv lap] move by auto
  next
    case (CStore h t)
    then show ?thesis using pop_reads_good(3) [OF inv lap] move by auto
  next
    case (CTicket h)
    then show ?thesis using pop_ticket_good [OF inv _ lap] move by auto
  next
    case (CCas h t)
    then show ?thesis using packed_moves_good(4) [OF inv] move by auto
  next
    case (MCas n h t)
    then show ?thesis using packed_moves_good(5) [OF inv] move by auto
  next
    case (STail h)
    then show ?thesis using size_reads_good [OF inv lap] move by auto
  next
    case (PState v)
    then show ?thesis using T decide_push_good [OF inv, of p v] move by auto
  next
    case (NState vs)
    then show ?thesis using T decide_push_n_good [OF inv, of p vs] move by auto
  next
    case CState
    then show ?thesis using T decide_pop_good [OF inv, of p] move by auto
  next
    case (MState n)
    then show ?thesis using T decide_pop_n_good [OF inv, of p n] move by auto
  qed (use T G C move in \<open>auto simp: role_ok_def\<close>)
qed

lemma bcall_good:
  assumes inv: "binv s" and idle: "bpc s p = BIdle" and call: "bcall p op s = Some r"
  shows "step_good s r"
proof -
  note G = goto_good [OF inv, of p _ "[]"] and C = counters_ok [OF inv]
  have sizes: "sizes_ok (bring s)" using inv by (simp add: binv_def)
  show ?thesis
  proof (cases op)
    case (PushOverrun v)
    have "binv (s\<lparr>bring := (bring s)\<lparr>overruns := Suc (overruns (bring s))\<rparr>\<rparr>)" using inv overruns_inv by blast
    then show ?thesis
      using PushOverrun call idle G [of "OState v"] C sizes
      by (auto simp: step_good_def bcontent_def role_ok_def sizes_ok_def split: if_splits)
  next
    case ResetOverruns
    have "binv (s\<lparr>bring := (bring s)\<lparr>overruns := 0\<rparr>\<rparr>)" using inv overruns_inv by blast
    then show ?thesis using ResetOverruns call by (auto simp: step_good_def bcontent_def)
  next
    case Size
    have "unat (tail_word (bring s) - head_word (bring s)) = tl_no (bring s) - hd_no (bring s)"
      using C by (intro w32_diff) simp_all
    then show ?thesis
      using Size call idle G [of SHead] inv by (auto simp: step_good_def role_ok_def split: if_splits)
  qed (use call idle G inv in \<open>auto simp: step_good_def role_ok_def split: if_splits\<close>)
qed

section \<open>Runs\<close>

text \<open>A queue as constructed, with every thread outside; the steps while no ticket is lapped.\<close>

definition binit :: "nat \<Rightarrow> 'a bsys \<Rightarrow> bool" where
  "binit c s \<longleftrightarrow> (\<exists>manyP manyC ovr batches. new_bring c manyP manyC ovr batches = Some (bring s)) \<and>
     (\<forall>p. bpc s p = BIdle)"

definition lap_step :: "'a bsys \<Rightarrow> 'a bevent list \<Rightarrow> 'a bsys \<Rightarrow> bool" where
  "lap_step s es t \<longleftrightarrow> bstep s es t \<and> no_lap s"

lemma binit_inv:
  assumes "binit c s"
  shows "binv s" "cap (bring s) = c" "bcontent s = []"
proof -
  obtain manyP manyC ovr batches where new: "new_bring c manyP manyC ovr batches = Some (bring s)"
    using assms by (auto simp: binit_def)
  have idle: "bpc s p = BIdle" for p using assms by (simp add: binit_def)
  have le: "c \<le> kMaxCapacity" using new by (auto simp: new_bring_def split: if_splits)
  have b: "bring s = \<lparr>cap = c, rsize = ringSize c, packed = ovr \<or> batches, overrun = ovr, mp = manyP \<or> ovr,
      mc = manyC \<or> ovr, bcells = \<lambda>i. \<lparr>seq = i, raw = None\<rparr>, hd_no = 0, tail_seen = 0, tl_no = 0, overruns = 0\<rparr>"
    using new by (auto simp: new_bring_def split: if_splits)
  obtain m where m: "ringSize c = 2 ^ m" "1 \<le> m" "m \<le> 30" "c \<le> ringSize c"
    using ringSize_pow [of c] le by auto
  have seqs: "cell_seq s n = n mod ringSize c" "cell_raw s n = None" for n
    by (simp_all add: cell_seq_def cell_raw_def b)
  have sizes: "sizes_ok (bring s)" using m le by (auto simp: sizes_ok_def b kMaxCapacity_def)
  have R: "0 < ringSize c" using sizes_ok_rsize(1) [OF sizes] by (simp add: b)
  have "push_tickets_ok s" by (auto simp: push_tickets_ok_def idle b seqs)
  moreover have "pop_tickets_ok s"
    using R by (auto simp: pop_tickets_ok_def idle b seqs intro: order.strict_trans2 [OF mod_less_divisor])
  moreover have "cells_ok s"
  proof -
    have "n mod ringSize c \<noteq> Suc n" for n by (metis Suc_n_not_le_n mod_less_eq_dividend)
    then show ?thesis
      unfolding cells_ok_def seqs idle using R by (auto simp: b intro: exI [of _ "_ :: nat"] mod_less)
  qed
  moreover have "reads_ok s" by (simp add: reads_ok_def idle b)
  ultimately show "binv s" using sizes by (simp add: binv_def)
  show "cap (bring s) = c" "bcontent s = []" by (simp_all add: b bcontent_def)
qed

lemma lap_step_good: "binv s \<Longrightarrow> lap_step s es t \<Longrightarrow> step_good s (es, t)"
proof -
  assume inv: "binv s" and step: "lap_step s es t"
  then obtain c where c: "bact c s = Some (es, t)" and lap: "no_lap s" by (auto simp: lap_step_def elim: bstep.cases)
  show "step_good s (es, t)"
    using c bcall_good [OF inv] bmove_good [OF inv lap] by (cases c) (auto split: if_splits simp del: bmove.simps)
qed

interpretation bq: spec_machine "binit c" lap_step "\<lambda>s. binv s \<and> cap (bring s) = c" bcontent "bq_step c" for c
proof unfold_locales
  show "binit c s \<Longrightarrow> binv s \<and> cap (bring s) = c" for s :: "'a bsys" using binit_inv by blast
  fix s t :: "'a bsys" and es
  assume "binv s \<and> cap (bring s) = c" "lap_step s es t"
  then show "binv t \<and> cap (bring t) = c" "spec_run (bq_step c) (bcontent s) es = Some (bcontent t)"
    using lap_step_good [of s es t] by (auto simp: step_good_def)
qed

lemma bounded_reachable: "binit c s \<Longrightarrow> run lap_step s es t \<Longrightarrow> binv t \<and> cap (bring t) = c"
  by (rule bq.run_inv)

text \<open>Fewer than \<open>2 ^ 31\<close> pushes never lap a ticket; such runs can be executed.\<close>

definition short_act :: "'a bchoice \<Rightarrow> 'a bsys \<Rightarrow> ('a bevent list \<times> 'a bsys) option" where
  "short_act c s = (if tl_no (bring s) < 2 ^ 31 then bact c s else None)"

definition short_step :: "'a bsys \<Rightarrow> 'a bevent list \<Rightarrow> 'a bsys \<Rightarrow> bool" where
  "short_step s es t \<longleftrightarrow> bstep s es t \<and> tl_no (bring s) < 2 ^ 31"

interpretation bshort: scheduled short_act short_step
  by unfold_locales
    (auto simp: short_act_def short_step_def intro: bstep.choose elim: bstep.cases split: if_splits)

lemma short_run: "run short_step s es t \<Longrightarrow> run lap_step s es t"
  by (erule run_mono) (auto simp: short_step_def lap_step_def no_lap_def)

text \<open>Code equations that decide on the two halves of the packed word without building it.\<close>

lemma swaps_code [code]:
  "swaps spurious h t s \<longleftrightarrow> w32 (hd_no (bring s)) = w32 h \<and> w32 (tl_no (bring s)) = w32 t \<and> \<not> spurious"
  by (auto simp: swaps_def state_word_def)

lemma decide_code [code]:
  "decide_push p v s =
     (if is_full (cap (bring s)) (head_word (bring s)) (tail_word (bring s)) then ([BFull], bgoto p BIdle s)
      else ([], bgoto p (PCas v (hd_no (bring s)) (tl_no (bring s))) s))"
  "decide_push_n p vs s =
     (if push_count (cap (bring s)) (length vs) (head_word (bring s)) (tail_word (bring s)) = 0
      then ([BPushN (length vs) []], bgoto p BIdle s)
      else ([], bgoto p (NCas vs (hd_no (bring s)) (tl_no (bring s))) s))"
  "decide_pop p s =
     (if head_word (bring s) = tail_word (bring s) then ([BEmpty], bgoto p BIdle s)
      else ([], bgoto p (CCas (hd_no (bring s)) (tl_no (bring s))) s))"
  "decide_pop_n p n s =
     (if pop_count n (head_word (bring s)) (tail_word (bring s)) = 0 then ([BPopN n []], bgoto p BIdle s)
      else ([], bgoto p (MCas n (hd_no (bring s)) (tl_no (bring s))) s))"
  by (simp_all add: decide_push_def decide_push_n_def decide_pop_def decide_pop_n_def state_word_def)

definition bstart :: "nat \<Rightarrow> bool \<Rightarrow> bool \<Rightarrow> bool \<Rightarrow> bool \<Rightarrow> nat bsys" where
  "bstart c manyP manyC ovr batches =
     \<lparr>bring = the (new_bring c manyP manyC ovr batches), bpc = (\<lambda>_. BIdle), vals = (\<lambda>_. 0),
      sole_p = 0, sole_c = 1, was_full = (\<lambda>_. False), was_size = (\<lambda>_. 0)\<rparr>"

lemma bstart_init: "c \<le> kMaxCapacity \<Longrightarrow> binit c (bstart c manyP manyC ovr batches)"
  unfolding binit_def bstart_def by (auto simp: new_bring_def)

definition bdemo :: "nat bchoice list \<Rightarrow> nat bsys \<Rightarrow> nat bevent list \<times> nat bsys" where
  "bdemo cs s = the (exec short_act cs s)"

lemma bdemo_exec: "is_some (exec short_act cs s) \<Longrightarrow> exec short_act cs s = Some (fst (bdemo cs s), snd (bdemo cs s))"
  by (auto simp: bdemo_def is_some_iff)

lemma bdemo_run: "is_some (exec short_act cs s) \<Longrightarrow> run lap_step s (fst (bdemo cs s)) (snd (bdemo cs s))"
  by (rule short_run [OF bshort.exec_run [OF bdemo_exec]])

lemma one_le_max: "1 \<le> kMaxCapacity"
  by (simp add: kMaxCapacity_def)

text \<open>
  Schedules: two producers overrun a queue of one element, the second before the first has filled
  its cell; a push in the split layout, then one refused while a size is taken.
\<close>

definition overrun_sched :: "nat bchoice list" where
  "overrun_sched = [Call 0 (PushOverrun 7), Move 0 False, Move 0 False, Call 1 (PushOverrun 8), Move 1 False,
     Move 1 True, Move 1 False, Move 0 False]"

definition push_sched :: "nat bchoice list" where
  "push_sched = [Call 0 (TryPush 3)] @ replicate 6 (Move 0 False)"

definition refuse_sched :: "nat bchoice list" where
  "refuse_sched = push_sched @
     [Call 0 (TryPush 4), Call 2 Size, Move 2 False, Move 2 False, Move 0 False, Move 0 False]"

text \<open>A schedule leaves the threads it does not name where they were.\<close>

fun who :: "'a bchoice \<Rightarrow> nat" where
  "who (Call p _) = p"
| "who (Move p _) = p"

lemma bact_others:
  assumes "bact c s = Some (es, t)" "who c \<noteq> q"
  shows "bpc t q = bpc s q"
proof (cases c)
  case (Call p op)
  then show ?thesis using assms by (cases op) (auto split: if_splits)
next
  case (Move p b)
  have "bpc (fill_step p ph ts s) q = bpc s q" "bpc (take_step p ph hs s) q = bpc s q"
    "bpc (over_step p ph h n v s) q = bpc s q" if "p \<noteq> q" for ph ts hs h n v
    using that by (cases "(p, ph, ts, s)" rule: fill_step.cases; cases "(p, ph, hs, s)" rule: take_step.cases;
        cases ph; auto simp: empty_cell_def free_cell_def)+
  note cells = this
  show ?thesis
    using assms cells unfolding Move
    by (cases "bpc s p")
      (auto simp: push_read_head_def push_ticket_def pop_read_tail_def pop_store_seen_def pop_ticket_def
        decide_code cas_push_def cas_over_def cas_push_n_def cas_pop_def cas_pop_n_def
        take_push_def take_pop_def take_over_def Let_def split: if_splits)
qed

lemma exec_others:
  "exec short_act cs s = Some (es, t) \<Longrightarrow> q \<notin> who ` set cs \<Longrightarrow> bpc t q = bpc s q"
proof (induction cs arbitrary: s es)
  case (Cons c cs)
  then obtain fs u gs where "short_act c s = Some (fs, u)" "exec short_act cs u = Some (gs, t)"
    by (auto split: option.splits prod.splits)
  moreover from this(1) have "bact c s = Some (fs, u)" by (simp add: short_act_def split: if_splits)
  ultimately show ?case
    using Cons.IH [of u gs] Cons.prems(2) bact_others [of c s fs u q] by auto
qed simp

section \<open>No deadlock\<close>

text \<open>
  Tickets in the order in which they can be worked off: the fill of a ticket before its take, and
  the take before the fill a lap later.
\<close>

definition held_keys :: "'a bsys \<Rightarrow> nat set" where
  "held_keys s = {k. \<exists>q n. n \<in> set (fills (bpc s q)) \<and> k = 2 * n \<or> n \<in> set (takes (bpc s q)) \<and> k = Suc (2 * n)}"

lemma least_fill_ready:
  assumes inv: "binv s" and held: "n \<in> set (fills (bpc s q))" and least: "\<And>k. k \<in> held_keys s \<Longrightarrow> 2 * n \<le> k"
  shows "cell_seq s n = n"
proof (rule ccontr)
  let ?R = "rsize (bring s)"
  assume ne: "cell_seq s n \<noteq> n"
  have ok: "sizes_ok (bring s)" "push_tickets_ok s" "pop_tickets_ok s" "cells_ok s"
    using inv by (simp_all add: binv_def)
  have R: "2 \<le> ?R" "tl_no (bring s) \<le> hd_no (bring s) + ?R"
    using sizes_ok_rsize(1) [OF ok(1)] ok(1) by (auto simp: sizes_ok_def)
  have n: "n < tl_no (bring s)" "cell_seq s n < n" using ok(2) held ne by (auto simp: push_tickets_ok_def le_neq_implies_less)
  obtain c where c: "c mod ?R = n mod ?R" "cell_seq s n = c \<or> cell_seq s n = Suc c"
    using cell_seq_form [OF ok(4,1)] .
  have same: "cell_seq s c = cell_seq s n" using c(1) by (simp add: cell_seq_def)
  from c(2) show False
  proof
    assume eq: "cell_seq s n = c"
    then obtain r where "c \<in> set (fills (bpc s r))"
      using ok(2) n same unfolding push_tickets_ok_def by (metis order.strict_trans order_refl)
    then have "2 * c \<in> held_keys s" by (auto simp: held_keys_def)
    then show False using least n eq by fastforce
  next
    assume eq: "cell_seq s n = Suc c"
    have "c + ?R \<le> n" using mod_gap [OF c(1)] n eq by simp
    then have "c < hd_no (bring s)" "cell_seq s c < c + ?R" using n R same eq by simp_all
    then obtain r where "c \<in> set (takes (bpc s r))" using ok(3) unfolding pop_tickets_ok_def by blast
    then have "Suc (2 * c) \<in> held_keys s" by (auto simp: held_keys_def)
    then show False using least n eq by fastforce
  qed
qed

lemma least_take_ready:
  assumes inv: "binv s" and held: "n \<in> set (takes (bpc s q))" and least: "\<And>k. k \<in> held_keys s \<Longrightarrow> Suc (2 * n) \<le> k"
  shows "cell_seq s n = Suc n"
proof -
  let ?R = "rsize (bring s)"
  have ok: "sizes_ok (bring s)" "push_tickets_ok s" "pop_tickets_ok s" "cells_ok s"
    using inv by (simp_all add: binv_def)
  have n: "n < hd_no (bring s)" "cell_seq s n < n + ?R" using ok(3) held by (auto simp: pop_tickets_ok_def)
  have "n < cell_seq s n"
  proof (rule ccontr)
    assume "\<not> n < cell_seq s n"
    then obtain r where "n \<in> set (fills (bpc s r))"
      using ok(2) n(1) counters_ok(1) [OF inv] unfolding push_tickets_ok_def by (metis not_le order.strict_trans2)
    then have "2 * n \<in> held_keys s" by (auto simp: held_keys_def)
    then show False using least by fastforce
  qed
  moreover obtain c where c: "c mod ?R = n mod ?R" "cell_seq s n = c \<or> cell_seq s n = Suc c"
    using cell_seq_form [OF ok(4,1)] .
  ultimately show ?thesis
    using mod_gap [of n ?R c] n(2) by (cases "n < c") auto
qed

lemma least_moves:
  assumes inv: "binv s" and k: "k \<in> held_keys s" and least: "\<And>j. j \<in> held_keys s \<Longrightarrow> k \<le> j"
  shows "\<exists>p u. bmove False p s = Some ([], u) \<and> bpc u p \<noteq> bpc s p \<and>
    (fills (bpc s p) \<noteq> [] \<or> takes (bpc s p) \<noteq> [])"
proof -
  obtain q n where held: "n \<in> set (fills (bpc s q)) \<and> k = 2 * n \<or> n \<in> set (takes (bpc s q)) \<and> k = Suc (2 * n)"
    using k by (auto simp: held_keys_def)
  note T = thread_ok(1) [OF inv, of q] and cell = ticket_cell_mod [OF inv]
  have F: "m \<in> set (fills (bpc s q)) \<Longrightarrow> k \<le> 2 * m" for m using least by (auto simp: held_keys_def)
  have G: "m \<in> set (takes (bpc s q)) \<Longrightarrow> k \<le> Suc (2 * m)" for m using least by (auto simp: held_keys_def)
  have fr: "fill_ready n s" if "n \<in> set (fills (bpc s q))" "k = 2 * n"
    using least_fill_ready [OF inv that(1)] least that(2) by (simp add: fill_ready_def cell cell_seq_def)
  have tr: "take_ready n s" if "n \<in> set (takes (bpc s q))" "k = Suc (2 * n)"
    using least_take_ready [OF inv that(1)] least that(2) by (simp add: take_ready_def cell cell_seq_def w32_Suc)
  show ?thesis
  proof (cases "bpc s q")
    case (BFill ph ts)
    then obtain m v r where ts: "ts = (m, v) # r" using T by (cases ts) auto
    have "m \<le> n" "n \<in> set (fills (bpc s q))" "k = 2 * n" using T held by (auto simp: BFill ts)
    then have "m = n" using F [of m] by (simp add: BFill ts)
    then have "fill_ready m s" using fr \<open>n \<in> set (fills (bpc s q))\<close> \<open>k = 2 * n\<close> by simp
    then show ?thesis
      using BFill by (intro exI [of _ q]) (cases ph; cases r; auto simp: ts)
  next
    case (BTake ph hs)
    then obtain m r where hs: "hs = m # r" using T by (cases hs) auto
    have "m \<le> n" "n \<in> set (takes (bpc s q))" "k = Suc (2 * n)" using T held by (auto simp: BTake hs)
    then have "m = n" using G [of m] by (simp add: BTake hs)
    then have "take_ready m s" using tr \<open>n \<in> set (takes (bpc s q))\<close> \<open>k = Suc (2 * n)\<close> by simp
    then show ?thesis
      using BTake by (intro exI [of _ q]) (cases ph; cases r; auto simp: hs)
  next
    case (OTake ph h t v)
    have "n = h \<and> k = Suc (2 * n)" using held T G [of h] by (auto simp: OTake)
    then have "take_ready h s" using tr by (simp add: OTake)
    then show ?thesis
      using OTake by (intro exI [of _ q]) (cases ph; auto)
  qed (use held in auto)
qed

section \<open>The destructor\<close>

lemma quiet_cell:
  assumes inv: "binv s" and quiet: "\<And>p. bpc s p = BIdle"
    and n: "hd_no (bring s) \<le> n" "n < tl_no (bring s)"
  shows "cell_raw s n = Some (vals s n)"
proof -
  have ok: "sizes_ok (bring s)" "push_tickets_ok s" "pop_tickets_ok s" "cells_ok s"
    using inv by (simp_all add: binv_def)
  have "n < cell_seq s n" using ok(2) n(2) by (auto simp: push_tickets_ok_def quiet not_le [symmetric])
  moreover have "cell_seq s n < n + rsize (bring s)" using ok(3) n(1) by (simp add: pop_tickets_ok_def)
  moreover obtain c where c: "c mod rsize (bring s) = n mod rsize (bring s)" "cell_seq s n = c \<or> cell_seq s n = Suc c"
    using cell_seq_form [OF ok(4,1)] .
  ultimately have "cell_seq s n = Suc n" using mod_gap [of n "rsize (bring s)" c] by (cases "n < c") auto
  moreover have "(\<exists>p. taking (bpc s p) = Some (Done, n)) \<or> cell_raw s n = Some (vals s n)"
    if "cell_seq s n = Suc n" using ok(4) that unfolding cells_ok_def by blast
  ultimately show ?thesis by (simp add: quiet)
qed

lemma destroy_from:
  assumes inv: "binv s" and quiet: "\<And>p. bpc s p = BIdle"
  shows "hd_no (bring s) \<le> h \<Longrightarrow> h \<le> tl_no (bring s) \<Longrightarrow> tl_no (bring s) - h < fuel \<Longrightarrow>
    bring_destroy_from fuel (bring s) h = Some (map (Some \<circ> vals s) [h..<tl_no (bring s)])"
proof (induction fuel arbitrary: h)
  case (Suc fuel)
  have stop: "w32 h = tail_word (bring s) \<longleftrightarrow> h = tl_no (bring s)"
    using w32_eq [of h "tl_no (bring s)"] Suc.prems counters_ok [OF inv] by auto
  show ?case
  proof (cases "h = tl_no (bring s)")
    case False
    then have h: "h < tl_no (bring s)" using Suc.prems by simp
    have "raw (bcells (bring s) (cell_of (bring s) h)) = Some (vals s h)"
      using quiet_cell [OF inv quiet, of h] Suc.prems h by (simp add: cell_raw_def ticket_cell_mod [OF inv])
    moreover have "bring_destroy_from fuel (bring s) (Suc h) = Some (map (Some \<circ> vals s) [Suc h..<tl_no (bring s)])"
      using Suc.prems h by (intro Suc.IH) simp_all
    moreover have "[h..<tl_no (bring s)] = h # [Suc h..<tl_no (bring s)]" using h by (rule upt_conv_Cons)
    ultimately show ?thesis using stop False by simp
  qed simp
qed simp

section \<open>The queue's promises\<close>

text \<open>
  C6. The bounded queue is the sequential bounded queue of its capacity: in either layout, for any
  number of threads and any interleaving (as long as no held ticket falls \<open>2 ^ 31\<close> behind), the
  pushes, overruns, pops, batches, sizes and refusals, in the order they take effect, are answers
  that queue gives, and it never holds more than its capacity.
\<close>

theorem bounded_linearisable:
  assumes "binit c s" and "run lap_step s es t"
  shows "spec_run (bq_step c) [] es = Some (bcontent t) \<and> length (bcontent t) \<le> c"
  using bq.run_spec [OF assms] binit_inv(3) [OF assms(1)] bounded_reachable [OF assms] counters_ok(2) [of t]
  by simp

theorem bounded_linearisable_witness:
  "(let r = bdemo overrun_sched (bstart 1 True True True False) in
    fst r = [BPush 7, BOver 8] \<and> spec_run (bq_step 1) [] (fst r) = Some [8] \<and> length (bcontent (snd r)) \<le> 1)"
proof -
  let ?s = "bstart 1 True True True False"
  have d: "is_some (exec short_act overrun_sched ?s)" by code_simp
  have "fst (bdemo overrun_sched ?s) = [BPush 7, BOver 8] \<and> bcontent (snd (bdemo overrun_sched ?s)) = [8]"
    by code_simp
  then show ?thesis
    using bounded_linearisable [OF bstart_init [OF one_le_max] bdemo_run [OF d]]
    by (simp add: Let_def del: length_content One_nat_def)
qed

text \<open>
  C15. In the split layout the answers that take effect at an earlier access are exact: a push that
  gives up found the queue full when it read head, and a size is the number of elements there
  were when it read tail.
\<close>

theorem bounded_answers_exact:
  assumes "binit c s" and "run lap_step s es t" and "no_lap t" and "bmove spurious p t = Some (fs, u)"
    and "bpc u p = BIdle"
  shows "(\<forall>v n. bpc t p = PAgain v n \<longrightarrow> was_full t p) \<and>
    (\<forall>h n. bpc t p = SAgain h n \<longrightarrow> unat (w32 n - w32 h) = was_size t p)"
proof -
  have inv: "binv t" using bounded_reachable [OF assms(1,2)] by simp
  note T = thread_ok(1) [OF inv, of p] and C = counters_ok [OF inv]
  have "was_full t p" if pc: "bpc t p = PAgain v n" for v n
  proof -
    have "tail_word (bring t) = w32 n" using assms(4,5) pc by (auto split: if_splits)
    then have "n = tl_no (bring t)"
      using w32_eq [of "tl_no (bring t)" n] kept [OF assms(3), of n p] T pc by simp
    then show ?thesis using T pc by simp
  qed
  moreover have "unat (w32 n - w32 h) = was_size t p" if pc: "bpc t p = SAgain h n" for h n
  proof -
    have "head_word (bring t) = w32 h" using assms(4,5) pc by (auto split: if_splits)
    then have "h = hd_no (bring t)"
      using w32_eq [of "hd_no (bring t)" h] kept [OF assms(3), of h p] T C(1) pc by simp
    then show ?thesis using T pc w32_diff [of h n] by simp
  qed
  ultimately show ?thesis by blast
qed

theorem bounded_answers_exact_witness:
  "(let t = snd (bdemo refuse_sched (bstart 1 True True False False)) in
    bpc t 0 = PAgain 4 1 \<and> was_full t 0 \<and> bpc t 2 = SAgain 0 1 \<and> was_size t 2 = 1)"
proof -
  let ?s = "bstart 1 True True False False"
  let ?t = "snd (bdemo refuse_sched ?s)"
  have d: "is_some (exec short_act refuse_sched ?s)" by code_simp
  have f: "bpc ?t 0 = PAgain 4 1 \<and> bpc ?t 2 = SAgain 0 1 \<and> tl_no (bring ?t) = 1 \<and> hd_no (bring ?t) = 0"
    by code_simp
  then have lap: "no_lap ?t" by (simp add: no_lap_def)
  have m: "bmove False 0 ?t = Some ([], bgoto 0 BIdle ?t)" "bmove False 2 ?t = Some ([], bgoto 2 BIdle ?t)"
    using f by simp_all
  note E = bounded_answers_exact [OF bstart_init [OF one_le_max] bdemo_run [OF d] lap]
  have "unat (w32 1 - w32 0) = 1" by (simp add: w32_def)
  then show ?thesis using E [OF m(1)] E [OF m(2)] f by (simp add: Let_def)
qed

text \<open>
  C7. No two threads touch a cell at once: a thread that builds an element in a cell finds it raw,
  one that moves an element out finds the element of its ticket, and meanwhile every other thread
  with a ticket of that cell is waiting.
\<close>

theorem bounded_cells_safe:
  assumes "binit c s" and "run lap_step s es t"
  shows "(\<forall>p n. filling (bpc t p) = Some (Work, n) \<longrightarrow> cell_raw t n = None) \<and>
    (\<forall>p n. taking (bpc t p) = Some (Work, n) \<longrightarrow> cell_raw t n = Some (vals t n)) \<and>
    (\<forall>p q n k ph. p \<noteq> q \<longrightarrow> cell_of (bring t) n = cell_of (bring t) k \<longrightarrow>
      filling (bpc t p) = Some (Work, n) \<or> taking (bpc t p) = Some (Work, n) \<longrightarrow>
      filling (bpc t q) = Some (ph, k) \<or> taking (bpc t q) = Some (ph, k) \<longrightarrow> ph = Wait)"
proof -
  have inv: "binv t" using bounded_reachable [OF assms] by simp
  have cells: "cells_ok t" "push_tickets_ok t" "pop_tickets_ok t" using inv by (simp_all add: binv_def)
  have "cell_raw t n = None" if p: "filling (bpc t p) = Some (Work, n)" for p n
  proof -
    have "cell_seq t n = n" using cells_okD(1) [OF inv p] by simp
    moreover have "filling (bpc t q) \<noteq> Some (Done, n)" for q
      using p cell_locked [OF inv refl, of q p Work n Done] by (cases "q = p") auto
    ultimately show ?thesis using cells(1) unfolding cells_ok_def by blast
  qed
  moreover have "cell_raw t n = Some (vals t n)" if p: "taking (bpc t p) = Some (Work, n)" for p n
  proof -
    have "cell_seq t n = Suc n" using cells_okD(3) [OF inv p] by simp
    moreover have "taking (bpc t q) \<noteq> Some (Done, n)" for q
      using p cell_locked [OF inv refl, of q p Work n Done] by (cases "q = p") auto
    ultimately show ?thesis using cells(1) unfolding cells_ok_def by blast
  qed
  moreover have "ph = Wait" if "p \<noteq> q" "cell_of (bring t) n = cell_of (bring t) k"
    "filling (bpc t p) = Some (Work, n) \<or> taking (bpc t p) = Some (Work, n)"
    "filling (bpc t q) = Some (ph, k) \<or> taking (bpc t q) = Some (ph, k)" for p q n k ph
    using cell_locked [OF inv, of k n q p Work ph] that by (auto simp: ticket_cell_mod [OF inv])
  ultimately show ?thesis by blast
qed

theorem bounded_cells_safe_witness:
  "(let t = snd (bdemo overrun_sched (bstart 1 True True True False)) in
    filling (bpc t 0) = Some (Work, 0) \<and> cell_raw t 0 = None)"
proof -
  let ?s = "bstart 1 True True True False"
  let ?t = "snd (bdemo overrun_sched ?s)"
  have d: "is_some (exec short_act overrun_sched ?s)" by code_simp
  have "filling (bpc ?t 0) = Some (Work, 0)" by code_simp
  then show ?thesis
    using bounded_cells_safe [OF bstart_init [OF one_le_max] bdemo_run [OF d]] by (simp add: Let_def)
qed

text \<open>
  C8. The waits end: whenever some thread has taken a ticket and not worked it off, some such
  thread can take a step towards it at once; threads with tickets never wait for each other in a
  circle, nor for an operation that has not started.
\<close>

theorem bounded_no_deadlock:
  assumes "binit c s" and "run lap_step s es t" and "fills (bpc t q) \<noteq> [] \<or> takes (bpc t q) \<noteq> []"
  shows "\<exists>p u. bmove False p t = Some ([], u) \<and> bpc u p \<noteq> bpc t p \<and>
    (fills (bpc t p) \<noteq> [] \<or> takes (bpc t p) \<noteq> [])"
proof -
  have inv: "binv t" using bounded_reachable [OF assms(1,2)] by simp
  have "2 * hd (fills (bpc t q)) \<in> held_keys t \<or> Suc (2 * hd (takes (bpc t q))) \<in> held_keys t"
    using assms(3) hd_in_set unfolding held_keys_def by blast
  then have "\<exists>k. k \<in> held_keys t" by blast
  then have "(LEAST k. k \<in> held_keys t) \<in> held_keys t" by (rule LeastI_ex)
  then show ?thesis using least_moves [OF inv] Least_le by metis
qed

theorem bounded_no_deadlock_witness:
  "(let t = snd (bdemo overrun_sched (bstart 1 True True True False)) in
    takes (bpc t 1) = [0] \<and> \<not> take_ready 0 t \<and>
    (\<exists>p u. bmove False p t = Some ([], u) \<and> bpc u p \<noteq> bpc t p))"
proof -
  let ?s = "bstart 1 True True True False"
  let ?t = "snd (bdemo overrun_sched ?s)"
  have d: "is_some (exec short_act overrun_sched ?s)" by code_simp
  have f: "takes (bpc ?t 1) = [0] \<and> \<not> take_ready 0 ?t" by code_simp
  then have "fills (bpc ?t 1) \<noteq> [] \<or> takes (bpc ?t 1) \<noteq> []" by simp
  from bounded_no_deadlock [OF bstart_init [OF one_le_max] bdemo_run [OF d] this] f show ?thesis
    unfolding Let_def by blast
qed

text \<open>
  C26. The destructor, run when every operation has returned, destroys exactly the elements still
  queued, oldest first and each once; its walk ends within the capacity, also where the tickets
  have wrapped.
\<close>

theorem bounded_destroy_complete:
  assumes "binit c s" and "run lap_step s es t" and "\<forall>p. bpc t p = BIdle"
  shows "bring_destroy (bring t) = Some (map Some (bcontent t))"
proof -
  have inv: "binv t" using bounded_reachable [OF assms(1,2)] by simp
  then show ?thesis
    using destroy_from [OF inv, of "hd_no (bring t)" "Suc (cap (bring t))"] counters_ok [OF inv] assms(3)
    by (simp add: bring_destroy_def bcontent_def)
qed

theorem bounded_destroy_complete_witness:
  "bring_destroy (bring (snd (bdemo push_sched (bstart 1 True True False False)))) = Some [Some 3]"
proof -
  let ?s = "bstart 1 True True False False"
  let ?t = "snd (bdemo push_sched ?s)"
  have d: "is_some (exec short_act push_sched ?s)" by code_simp
  have f: "bcontent ?t = [3] \<and> bpc ?t 0 = BIdle" by code_simp
  have "\<forall>p. bpc ?t p = BIdle"
  proof
    fix p
    show "bpc ?t p = BIdle"
    proof (cases "p = 0")
      case False
      then have "p \<notin> who ` set push_sched" by (auto simp: push_sched_def)
      from exec_others [OF bdemo_exec [OF d] this] show ?thesis by (simp only: bstart_def bsys.select_convs)
    qed (use f in simp)
  qed
  from bounded_destroy_complete [OF bstart_init [OF one_le_max] bdemo_run [OF d] this] f
  show ?thesis by (simp only: list.map)
qed

text \<open>
  C27. Construction: a capacity beyond \<open>2 ^ 30\<close> is refused and every other one is accepted, and the
  ring then has the least power of two of cells that is at least two and at least the capacity.
\<close>

theorem bounded_construct:
  "(new_bring c manyP manyC ovr batches = (None :: 'a bring option) \<longleftrightarrow> 2 ^ 30 < c) \<and>
   (\<forall>b. new_bring c manyP manyC ovr batches = Some (b :: 'a bring) \<longrightarrow>
      (\<exists>m. rsize b = 2 ^ m) \<and> 2 \<le> rsize b \<and> c \<le> rsize b \<and> rsize b \<le> 2 ^ 30 \<and>
      (\<forall>k \<ge> 1. c \<le> 2 ^ k \<longrightarrow> rsize b \<le> 2 ^ k) \<and>
      cap b = c \<and> (packed b \<longleftrightarrow> ovr \<or> batches))"
proof -
  obtain m where m: "ringSize c = 2 ^ m" "1 \<le> m" "m \<le> 30" "c \<le> kMaxCapacity \<Longrightarrow> c \<le> 2 ^ m"
    "1 < m \<Longrightarrow> 2 ^ (m - 1) < c"
    using ringSize_pow [of c] by blast
  have least: "(2::nat) ^ m \<le> 2 ^ k" if "1 \<le> k" "c \<le> 2 ^ k" for k
  proof (rule power_increasing)
    show "m \<le> k"
    proof (rule ccontr)
      assume "\<not> m \<le> k"
      then have m1: "1 < m" "k \<le> m - 1" using that(1) by simp_all
      have "(2::nat) ^ k \<le> 2 ^ (m - 1)" using m1(2) by (rule power_increasing) simp
      then show False using m(5) [OF m1(1)] that(2) by linarith
    qed
  qed simp
  have "(2::nat) ^ m \<le> 2 ^ 30" using m(3) by (intro power_increasing) simp_all
  moreover have "(2::nat) ^ 1 \<le> 2 ^ m" using m(2) by (intro power_increasing) simp_all
  ultimately show ?thesis using m(1,4) least by (auto simp: new_bring_def kMaxCapacity_def)
qed

theorem bounded_construct_witness:
  "new_bring (2 ^ 31) True True False False = (None :: nat bring option) \<and>
   rsize (the (new_bring 3 True True False False) :: nat bring) \<le> 4"
proof -
  have "new_bring (2 ^ 31) True True False False = (None :: nat bring option)"
    using bounded_construct [where 'a = nat, of "2 ^ 31" True True False False] by simp
  moreover obtain b :: "nat bring" where b: "new_bring 3 True True False False = Some b"
    using bounded_construct [where 'a = nat, of 3 True True False False] by fastforce
  moreover have "rsize b \<le> 4"
    using bounded_construct [THEN conjunct2, rule_format, OF b, THEN conjunct2, THEN conjunct2, THEN conjunct2,
        THEN conjunct2, THEN conjunct1, rule_format, of 2] by simp
  ultimately show ?thesis by simp
qed

text \<open>
  C28. The packed word and its two halves determine each other, so a swap of the word that succeeds
  saw both counters unchanged.
\<close>

theorem pack_roundtrip:
  "headOf (pack h t) = h \<and> tailOf (pack h t) = t \<and> pack (headOf w) (tailOf w) = w"
proof -
  have "pack (headOf w) (tailOf w) = w"
    by (rule bit_word_eqI) (auto simp: headOf_def tailOf_def pack_def bit_simps)
  then show ?thesis by simp
qed

end
