(* ===== verification/Cir.thy ===== *)
theory Cir
  imports Main
begin

text \<open>
  The compiler's intermediate representation as the analyses of \<open>src/mlir\<close> read it: operations
  with operands, result types and nested regions, functions with their annotations and linkage,
  and the operations of the wtc dialect with the attributes they carry. A region is a list of
  blocks and a block a list of operations; an operation has a number of its own, and a value is
  named by the operation that defines it, or by the parameter it is.
\<close>

section \<open>Strings\<close>

fun starts_with :: "string \<Rightarrow> string \<Rightarrow> bool" where
  "starts_with s [] = True"
| "starts_with [] (c # p) = False"
| "starts_with (d # s) (c # p) \<longleftrightarrow> c = d \<and> starts_with s p"

definition ends_with :: "string \<Rightarrow> string \<Rightarrow> bool" where
  "ends_with s p = starts_with (rev s) (rev p)"

fun contains_str :: "string \<Rightarrow> string \<Rightarrow> bool" where
  "contains_str [] p = starts_with [] p"
| "contains_str (c # s) p \<longleftrightarrow> starts_with (c # s) p \<or> contains_str s p"

lemma starts_with_iff: "starts_with s p \<longleftrightarrow> (\<exists>r. s = p @ r)"
  by (induction s p rule: starts_with.induct) auto

lemma ends_with_iff: "ends_with s p \<longleftrightarrow> (\<exists>r. s = r @ p)"
  by (metis ends_with_def rev_append rev_rev_ident starts_with_iff)

lemma contains_str_iff: "contains_str s p \<longleftrightarrow> (\<exists>a b. s = a @ p @ b)"
proof (induction s)
  case Nil
  then show ?case by (cases p) auto
next
  case (Cons c s)
  note IH = Cons
  show ?case
  proof
    assume "contains_str (c # s) p"
    then show "\<exists>a b. c # s = a @ p @ b"
      using Cons by (metis append_Cons append_Nil contains_str.simps(2) starts_with_iff)
  next
    assume "\<exists>a b. c # s = a @ p @ b"
    then obtain a b where eq: "c # s = a @ p @ b" by blast
    show "contains_str (c # s) p"
    proof (cases a)
      case Nil
      then have "starts_with (c # s) p" using eq by (auto simp: starts_with_iff)
      then show ?thesis by simp
    next
      case (Cons d a')
      then have "s = a' @ p @ b" using eq by simp
      then have "contains_str s p" using IH by blast
      then show ?thesis by simp
    qed
  qed
qed

section \<open>Types and values\<close>

datatype cty = PtrT cty | IntT bool nat | BoolT | RecT string | ArrT cty nat | VoidT | FuncT
  | QueueT cty | MutexT | OtherT string

text \<open>
  \<open>Res n i\<close>: result \<open>i\<close> of operation \<open>n\<close>; \<open>Param f i\<close>: parameter \<open>i\<close> of function \<open>f\<close>;
  \<open>InnerArg n i\<close>: an argument of a block inside operation \<open>n\<close>; \<open>UCast t v\<close>: the result of the
  unrealized conversion of \<open>v\<close> to type \<open>t\<close> that a dialect conversion inserts.
\<close>

datatype val = Res nat nat | Param string nat | InnerArg nat nat | UCast cty val

section \<open>The wtc dialect\<close>

datatype impl = generic | spsc | spsc_inline | mpsc | spmc

datatype topology = unknownT | spscT | mpscT | spmcT | mpmcT

datatype progress = blocking | lock_free | wait_free

datatype wkind = WLock | WUnlock | WLockBatchBegin | WLockBatchStep | WLockBatchEnd
  | WPush | WPop | WBatchBegin | WPushDeferred | WBatchEnd

text \<open>
  An operation of the dialect: the handle and its type, the operands after it (a push's value and
  what follows, a pop's \<open>args\<close>, a batch operation's batch and value), its optional result, what
  lifting recorded of the call, and the unit attributes.
\<close>

record wop =
  wk :: wkind
  whandle :: val
  whandle_ty :: cty
  wargs :: "val list"
  wresult :: "cty option"
  fallback_impl :: "string option"
  source_type :: "cty option"
  source_arg_attrs :: "string list list option"
  wtopology :: "topology option"
  wqueue_id :: "int option"
  wimpl :: "impl option"
  w_bounded :: bool
  w_wait :: bool
  w_overrun :: bool
  w_batch :: bool
  w_borrowed :: bool
  w_transfer :: bool

section \<open>Operations\<close>

datatype cast_kind = bitcast | array_to_ptrdecay | integral | int_to_float | float_to_int
  | floating | bool_to_float | other_cast

datatype cmp_kind = Clt | Cle | Cgt | Cge | Ceq | Cne

text \<open>A constant's attribute: an integer with its signedness and width, a pointer, a symbol's address.\<close>

datatype cattr = CInt bool nat int | CPtr nat | CSym string | COther

record callinfo =
  callee :: "string option"
  indirect :: "val option"
  carg_attrs :: "string list list option"
  cnothrow :: bool

datatype opkind = KCall callinfo | KWtc wop | KConst cattr | KCast cast_kind | KUcc
  | KLoad bool | KStore | KAlloca | KGetGlobal string | KLifetimeStart | KLifetimeEnd
  | KGetMember | KGetElement | KPtrStride | KBaseClassAddr
  | KCmp cmp_kind | KInc | KDec | KAdd | KSub
  | KFor | KLoop | KIf | KTernary | KScope | KCleanupScope | KCondition | KReturn
  | KIntrinsic string | KAsm string | KThrow | KAllocException | KCopy nat
  | KAtomicFetch | KAtomicXchg | KAtomicCmpXchg | KAtomicTestAndSet | KAtomicClear
  | KSetBitfield | KGetBitfield | KMemSet | KMemCpy | KMemMove
  | KOther string

datatype irop = IrOp (oid: nat) (okind: opkind) (oargs: "val list") (otys: "cty list")
    (regs: "irop list list list")

text \<open>
  An operation and what it holds, in the order of the source. \<open>Operation::walk\<close> visits an operation
  after what it holds instead; the operations the walks look for hold no regions, and among those the
  two orders agree.
\<close>

fun walk :: "irop \<Rightarrow> irop list" where
  "walk (IrOp n k vs ts rs) = IrOp n k vs ts rs # concat (map (\<lambda>r. concat (map (\<lambda>b. concat (map walk b)) r)) rs)"

definition walk_region :: "irop list list \<Rightarrow> irop list" where
  "walk_region r = concat (map (\<lambda>b. concat (map walk b)) r)"

lemma find_SomeE:
  assumes "find P xs = Some x"
  shows "x \<in> set xs \<and> P x"
  using assms by (auto simp: find_Some_iff)

section \<open>Functions and modules\<close>

datatype annot = Annot string | OtherAttr

datatype linkage = External | Internal | Interposable | LinkonceODR

record cfunc =
  sym :: string
  annots :: "annot list option"
  body :: "irop list list"
  link :: linkage
  aliasee :: "string option"
  params :: nat
  fn_arg_attrs :: "string list list option"

record cglobal =
  gsym :: string
  gconst :: bool
  ginit :: "cattr option"

record cmodule =
  funcs :: "cfunc list"
  globals :: "cglobal list"

definition find_func :: "cmodule \<Rightarrow> string \<Rightarrow> cfunc option" where
  "find_func m s = find (\<lambda>f. sym f = s) (funcs m)"

definition find_global :: "cmodule \<Rightarrow> string \<Rightarrow> cglobal option" where
  "find_global m s = find (\<lambda>g. gsym g = s) (globals m)"

definition all_ops :: "cmodule \<Rightarrow> irop list" where
  "all_ops m = concat (map (\<lambda>f. walk_region (body f)) (funcs m))"

text \<open>The operation that defines a value, the operations that use it, and a value's type.\<close>

fun def_op :: "cmodule \<Rightarrow> val \<Rightarrow> irop option" where
  "def_op m (Res n i) = find (\<lambda>x. oid x = n) (all_ops m)"
| "def_op m (UCast t v) = Some (IrOp 0 KUcc [v] [t] [])"
| "def_op m _ = None"

fun ucast_ops :: "val \<Rightarrow> irop list" where
  "ucast_ops (UCast t v) = IrOp 0 KUcc [v] [t] [] # ucast_ops v"
| "ucast_ops v = []"

definition using_ops :: "cmodule \<Rightarrow> irop list" where
  "using_ops m = all_ops m @ concat (map (\<lambda>x. concat (map ucast_ops (oargs x))) (all_ops m))"

definition users :: "cmodule \<Rightarrow> val \<Rightarrow> irop list" where
  "users m v = concat (map (\<lambda>x. map (\<lambda>_. x) (filter ((=) v) (oargs x))) (using_ops m))"

lemma set_users: "set (users m v) = {x \<in> set (using_ops m). v \<in> set (oargs x)}"
  by (auto simp: users_def)

lemma all_ops_using: "x \<in> set (all_ops m) \<Longrightarrow> x \<in> set (using_ops m)"
  by (simp add: using_ops_def)

text \<open>An integer constant's bits read unsigned and signed.\<close>

definition zext :: "nat \<Rightarrow> int \<Rightarrow> int" where
  "zext w i = i mod 2 ^ w"

definition sext :: "nat \<Rightarrow> int \<Rightarrow> int" where
  "sext w i = (let u = i mod 2 ^ w in if w > 0 \<and> u \<ge> 2 ^ (w - 1) then u - 2 ^ w else u)"

fun ty_of :: "cmodule \<Rightarrow> (string \<Rightarrow> nat \<Rightarrow> cty) \<Rightarrow> val \<Rightarrow> cty option" where
  "ty_of m pt (Res n i) = (case def_op m (Res n i) of
     Some x \<Rightarrow> if i < length (otys x) then Some (otys x ! i) else None | None \<Rightarrow> None)"
| "ty_of m pt (UCast t v) = Some t"
| "ty_of m pt (Param f i) = Some (pt f i)"
| "ty_of m pt (InnerArg n i) = None"

end
