(* ===== verification/Cir_Names.thy ===== *)
theory Cir_Names
  imports Cir
begin

text \<open>
  What a function means, read from its name and its annotations (Transforms/Utils.cpp): the callee
  of a call, the shim's operations, the models of library queues (DPDK's rings and mempools, the
  single-producer single-consumer classes), allocators, and the operands of a call as the source
  wrote them. The demangler is a library's: it is an argument, from a mangled name to the context,
  the base name and whether the member is a constructor or destructor.
\<close>

section \<open>Callees and annotations\<close>

text \<open>A call of an alias is a call of its aliasee, up to eight hops, unless the link may replace it.\<close>

fun follow_alias :: "nat \<Rightarrow> cmodule \<Rightarrow> cfunc option \<Rightarrow> cfunc option" where
  "follow_alias 0 m f = f"
| "follow_alias (Suc n) m f = (case f of None \<Rightarrow> None | Some g \<Rightarrow>
     (case aliasee g of None \<Rightarrow> Some g | Some a \<Rightarrow>
        if link g = Interposable then Some g else follow_alias n m (find_func m a)))"

definition lookupCallee :: "cmodule \<Rightarrow> callinfo \<Rightarrow> cfunc option" where
  "lookupCallee m c = (case callee c of None \<Rightarrow> None | Some s \<Rightarrow> follow_alias 8 m (find_func m s))"

definition annot_names :: "cfunc \<Rightarrow> string list" where
  "annot_names f = (case annots f of None \<Rightarrow> []
     | Some as \<Rightarrow> concat (map (\<lambda>a. case a of Annot s \<Rightarrow> [s] | OtherAttr \<Rightarrow> []) as))"

definition liftedRuntimeFunction :: "cfunc option \<Rightarrow> bool" where
  "liftedRuntimeFunction f = (case f of None \<Rightarrow> False
     | Some g \<Rightarrow> list_ex (\<lambda>s. starts_with s ''wtc_lifted_'') (annot_names g))"

definition insideLiftedRuntime :: "cmodule \<Rightarrow> cfunc option \<Rightarrow> callinfo \<Rightarrow> bool" where
  "insideLiftedRuntime m parent c \<longleftrightarrow> liftedRuntimeFunction parent \<and> \<not> liftedRuntimeFunction (lookupCallee m c)"

definition hasAnnotation :: "cfunc option \<Rightarrow> string \<Rightarrow> bool" where
  "hasAnnotation f a = (case f of None \<Rightarrow> False | Some g \<Rightarrow> List.member (annot_names g) a)"

definition isWTCAnnotatedCall :: "cmodule \<Rightarrow> callinfo \<Rightarrow> string \<Rightarrow> bool" where
  "isWTCAnnotatedCall m c a = hasAnnotation (lookupCallee m c) a"

section \<open>The shim's operations\<close>

datatype semkind = Unknown | ThreadSpawn | QueueConstruction | QueuePush | QueuePushWait | QueueTryPush
  | QueuePushOverrun | QueuePushBatch | QueuePopBatch | QueueTryPop | QueueTryPopInto | QueuePopWait
  | QueuePopWaitFor | QueueBatchBegin | QueuePushDeferred | QueueBatchEnd | MutexLock | MutexUnlock
  | MutexBatchBegin | MutexBatchStep | MutexBatchEnd

definition kindByName :: "string \<Rightarrow> semkind" where
  "kindByName n =
     (if n = ''pthread_create'' \<or> n = ''thrd_create'' then ThreadSpawn
      else if n = ''rte_eal_remote_launch'' then ThreadSpawn
      else if n = ''rte_eal_mp_remote_launch'' then ThreadSpawn
      else if contains_str n ''6thread15_M_start_thread'' then ThreadSpawn else Unknown)"

definition annotation_kinds :: "(string \<times> semkind) list" where
  "annotation_kinds =
    [(''wtc_thread_spawn'', ThreadSpawn),
     (''wtc_queue_construction'', QueueConstruction),
     (''wtc_queue_push'', QueuePush),
     (''wtc_queue_push_wait'', QueuePushWait),
     (''wtc_queue_try_push'', QueueTryPush),
     (''wtc_queue_push_overrun'', QueuePushOverrun),
     (''wtc_queue_push_batch'', QueuePushBatch),
     (''wtc_queue_pop_batch'', QueuePopBatch),
     (''wtc_queue_try_pop'', QueueTryPop),
     (''wtc_queue_try_pop_into'', QueueTryPopInto),
     (''wtc_queue_pop_wait'', QueuePopWait),
     (''wtc_queue_pop_wait_for'', QueuePopWaitFor),
     (''wtc_queue_batch_begin'', QueueBatchBegin),
     (''wtc_queue_push_deferred'', QueuePushDeferred),
     (''wtc_queue_batch_end'', QueueBatchEnd),
     (''wtc_mutex_lock'', MutexLock),
     (''wtc_mutex_unlock'', MutexUnlock),
     (''wtc_mutex_batch_begin'', MutexBatchBegin),
     (''wtc_mutex_batch_step'', MutexBatchStep),
     (''wtc_mutex_batch_end'', MutexBatchEnd)]"

fun kind_of_annotations :: "string list \<Rightarrow> semkind" where
  "kind_of_annotations [] = Unknown"
| "kind_of_annotations (a # as) =
     (case map_of annotation_kinds a of Some k \<Rightarrow> k | None \<Rightarrow> kind_of_annotations as)"

definition getSemanticKind :: "cfunc option \<Rightarrow> semkind" where
  "getSemanticKind f = (case f of None \<Rightarrow> Unknown | Some g \<Rightarrow>
     (if kindByName (sym g) \<noteq> Unknown then kindByName (sym g) else kind_of_annotations (annot_names g)))"

section \<open>Library queues\<close>

datatype lib_role = RNone | RCreate | RConstruct | RPush | RPop

datatype lib_sync = ByType | ByFlags | Single | Multi

datatype lib_kind = Class | Ring | Mempool

datatype mbuf_free = FNone | FOwn | FChain | FAttached

record lib_fn =
  role :: lib_role
  sync :: lib_sync
  kind :: lib_kind
  queueArg :: nat
  flagsArg :: "nat option"
  opsArg :: "nat option"
  viaMbuf :: mbuf_free
  returnsMbuf :: bool
  unmodelled :: bool
  member :: bool

definition no_lib_fn :: lib_fn where
  "no_lib_fn = \<lparr>role = RNone, sync = ByType, kind = Class, queueArg = 0, flagsArg = None, opsArg = None,
     viaMbuf = FNone, returnsMbuf = False, unmodelled = False, member = False\<rparr>"

text \<open>The classes: how the name appears mangled, the class as demangled, its pushes and its pops.\<close>

record lib_class =
  lc_mangled :: string
  lc_qualified :: string
  lc_pushes :: "string list"
  lc_pops :: "string list"

definition kLibraryClasses :: "lib_class list" where
  "kLibraryClasses =
    [\<lparr>lc_mangled = ''7rigtorp9SPSCQueue'', lc_qualified = ''rigtorp::SPSCQueue'',
      lc_pushes = [''emplace'', ''try_emplace'', ''push'', ''try_push''],
      lc_pops = [''front'', ''pop'']\<rparr>,
     \<lparr>lc_mangled = ''5folly21ProducerConsumerQueue'', lc_qualified = ''folly::ProducerConsumerQueue'',
      lc_pushes = [''write''],
      lc_pops = [''read'', ''frontPtr'', ''popFront'']\<rparr>,
     \<lparr>lc_mangled = ''5boost8lockfree10spsc_queue'', lc_qualified = ''boost::lockfree::spsc_queue'',
      lc_pushes = [''push''],
      lc_pops = [''pop'', ''consume_one'', ''consume_all'', ''front'']\<rparr>,
     \<lparr>lc_mangled = ''10moodycamel17ReaderWriterQueue'', lc_qualified = ''moodycamel::ReaderWriterQueue'',
      lc_pushes = [''enqueue'', ''try_enqueue'', ''emplace'', ''try_emplace''],
      lc_pops = [''try_dequeue'', ''peek'', ''pop'', ''wait_dequeue'', ''wait_dequeue_timed'']\<rparr>,
     \<lparr>lc_mangled = ''10moodycamel25BlockingReaderWriterQueue'', lc_qualified = ''moodycamel::BlockingReaderWriterQueue'',
      lc_pushes = [''enqueue'', ''try_enqueue'', ''emplace'', ''try_emplace''],
      lc_pops = [''try_dequeue'', ''peek'', ''pop'', ''wait_dequeue'', ''wait_dequeue_timed'']\<rparr>]"

text \<open>The class a member belongs to is the last of the table its context starts with.\<close>

definition libraryClassOf ::
    "(string \<Rightarrow> (string \<times> string \<times> bool) option) \<Rightarrow> string \<Rightarrow> (lib_class \<times> string \<times> bool) option" where
  "libraryClassOf demangle mangled =
     (if \<not> starts_with mangled ''_Z'' then None
      else if \<not> list_ex (\<lambda>c. contains_str mangled (lc_mangled c)) kLibraryClasses then None
      else case demangle mangled of None \<Rightarrow> None | Some (cx, base, ctor_dtor) \<Rightarrow>
        (case filter (\<lambda>k. contains_str mangled (lc_mangled k) \<and> starts_with cx (lc_qualified k @ ''<''))
           kLibraryClasses of
         [] \<Rightarrow> None | ks \<Rightarrow> Some (last ks, base, ctor_dtor \<and> \<not> starts_with base ''~'')))"

definition isDpdkRingFunction :: "string \<Rightarrow> bool" where
  "isDpdkRingFunction n \<longleftrightarrow> starts_with n ''rte_ring_'' \<or> starts_with n ''__rte_ring''"

definition isDpdkMempoolFunction :: "string \<Rightarrow> bool" where
  "isDpdkMempoolFunction n \<longleftrightarrow> list_ex (starts_with n)
     [''rte_mempool_'', ''__rte_mempool'', ''__mempool_'', ''rte_pktmbuf_'', ''__rte_pktmbuf'', ''rte_mbuf_'',
      ''__rte_mbuf'']"

definition inert_mempool_names :: "string list" where
  "inert_mempool_names =
    [''rte_mempool_avail_count'', ''rte_mempool_in_use_count'', ''rte_mempool_full'',
     ''rte_mempool_empty'', ''rte_mempool_count'', ''rte_mempool_free_count'', ''rte_mempool_get_priv'',
     ''rte_mempool_get_ops'', ''rte_mempool_get_header'', ''rte_mempool_get_trailer'',
     ''rte_mempool_from_obj'', ''rte_mempool_virt2iova'', ''rte_mempool_get_page_size'',
     ''rte_mempool_get_mem_range'', ''rte_mempool_get_obj_alignment'', ''rte_mempool_calc_obj_size'',
     ''rte_mempool_dump'', ''rte_mempool_list_dump'', ''rte_mempool_audit'', ''rte_mempool_walk'',
     ''rte_mempool_lookup'', ''rte_mempool_free'', ''rte_mempool_obj_iter'', ''rte_mempool_mem_iter'',
     ''rte_mempool_cache_create'', ''rte_mempool_cache_free'', ''rte_mempool_default_cache'',
     ''rte_mempool_check_cookies'', ''rte_mempool_contig_blocks_check_cookies'',
     ''rte_mempool_stats_reset'', ''rte_mempool_register_ops'', ''rte_mempool_ops_get_info'',
     ''rte_mempool_ops_get_count'', ''rte_mempool_ops_alloc'', ''rte_mempool_ops_free'',
     ''rte_mempool_ops_calc_mem_size'', ''rte_mempool_op_calc_mem_size_default'',
     ''rte_mempool_op_calc_mem_size_helper'', ''rte_mempool_event_callback_register'',
     ''rte_mempool_event_callback_unregister'', ''rte_mempool_trace_ops_alloc'',
     ''__mempool_check_cookies'', ''__mempool_contig_blocks_check_cookies'', ''rte_mbuf_refcnt_read'',
     ''rte_mbuf_refcnt_set'', ''rte_mbuf_refcnt_update'', ''__rte_mbuf_refcnt_update'',
     ''rte_mbuf_ext_refcnt_read'', ''rte_mbuf_ext_refcnt_set'', ''rte_mbuf_ext_refcnt_update'',
     ''rte_mbuf_buf_addr'', ''rte_mbuf_data_addr_default'', ''rte_mbuf_data_iova'',
     ''rte_mbuf_data_iova_default'', ''rte_mbuf_iova_get'', ''rte_mbuf_iova_set'', ''rte_mbuf_to_baddr'',
     ''rte_mbuf_to_priv'', ''rte_mbuf_from_indirect'', ''rte_mbuf_prefetch_part1'',
     ''rte_mbuf_prefetch_part2'', ''rte_mbuf_sanity_check'', ''rte_mbuf_raw_sanity_check'',
     ''__rte_mbuf_sanity_check'', ''__rte_mbuf_raw_sanity_check'', ''rte_mbuf_check'',
     ''rte_mbuf_raw_check'', ''rte_mbuf_raw_reset_bulk'', ''rte_mbuf_sched_get'', ''rte_mbuf_sched_set'',
     ''rte_mbuf_sched_queue_get'', ''rte_mbuf_sched_queue_set'', ''rte_mbuf_sched_color_get'',
     ''rte_mbuf_sched_color_set'', ''rte_mbuf_sched_traffic_class_get'',
     ''rte_mbuf_sched_traffic_class_set'', ''rte_mbuf_tx_offload'', ''rte_mbuf_dynfield_copy'',
     ''rte_mbuf_dynfield_lookup'', ''rte_mbuf_dynfield_register'', ''rte_mbuf_dynfield_register_offset'',
     ''rte_mbuf_dynflag_lookup'', ''rte_mbuf_dynflag_register'', ''rte_mbuf_dynflag_register_bitnum'',
     ''rte_mbuf_dyn_dump'', ''rte_mbuf_dyn_rx_timestamp_register'', ''rte_mbuf_dyn_tx_timestamp_register'',
     ''rte_mbuf_history_dump'', ''rte_mbuf_history_dump_all'', ''rte_mbuf_history_dump_mempool'',
     ''rte_mbuf_history_init'', ''rte_mbuf_history_mark'', ''rte_mbuf_history_mark_bulk'',
     ''rte_mbuf_best_mempool_ops'', ''rte_mbuf_platform_mempool_ops'', ''rte_mbuf_user_mempool_ops'',
     ''rte_mbuf_set_platform_mempool_ops'', ''rte_mbuf_set_user_mempool_ops'', ''rte_pktmbuf_adj'',
     ''rte_pktmbuf_append'', ''rte_pktmbuf_prepend'', ''rte_pktmbuf_trim'', ''rte_pktmbuf_data_len'',
     ''rte_pktmbuf_pkt_len'', ''rte_pktmbuf_headroom'', ''rte_pktmbuf_tailroom'', ''rte_pktmbuf_lastseg'',
     ''rte_pktmbuf_reset'', ''rte_pktmbuf_reset_headroom'', ''rte_pktmbuf_read'', ''__rte_pktmbuf_read'',
     ''rte_pktmbuf_dump'', ''rte_pktmbuf_is_contiguous'', ''rte_pktmbuf_iova'',
     ''rte_pktmbuf_iova_offset'', ''rte_pktmbuf_priv_size'', ''rte_pktmbuf_priv_flags'',
     ''rte_pktmbuf_data_room_size'', ''rte_pktmbuf_ext_shinfo_init_helper'', ''rte_pktmbuf_refcnt_update'',
     ''rte_pktmbuf_pool_init'', ''rte_pktmbuf_init'', ''__rte_pktmbuf_copy_hdr'', ''rte_pktmbuf_chain'',
     ''rte_pktmbuf_attach'', ''rte_pktmbuf_attach_extbuf'']"

definition isInertMempoolFunction :: "string \<Rightarrow> bool" where
  "isInertMempoolFunction n = List.member inert_mempool_names n"

text \<open>
  The modelled functions of the mempool and mbuf libraries, in the order the code tests them: the
  names, and what each makes of the function read so far.
\<close>

definition lib_create :: "nat option \<Rightarrow> nat option \<Rightarrow> lib_fn \<Rightarrow> lib_fn" where
  "lib_create flags ops r = r\<lparr>role := RCreate, flagsArg := flags, opsArg := ops\<rparr>"

definition lib_op :: "lib_role \<Rightarrow> nat \<Rightarrow> lib_fn \<Rightarrow> lib_fn" where
  "lib_op ro arg r = r\<lparr>role := ro, queueArg := arg\<rparr>"

definition mempool_table :: "(string list \<times> (lib_fn \<Rightarrow> lib_fn)) list" where
  "mempool_table =
    [([''rte_mempool_create''],
       lib_create (Some 10) None),
     ([''rte_mempool_create_empty''],
       lib_create (Some 6) None),
     ([''rte_pktmbuf_pool_create_by_ops''],
       lib_create None (Some 6)),
     ([''rte_pktmbuf_pool_create'', ''rte_pktmbuf_pool_create_extbuf''],
       lib_create None None),
     ([''rte_mempool_set_ops_byname''],
       (\<lambda>r. (lib_op RConstruct 0 r)\<lparr>opsArg := Some 1\<rparr>)),
     ([''rte_mempool_populate_default'', ''rte_mempool_populate_anon'', ''rte_mempool_populate_iova'',
       ''rte_mempool_populate_virt'', ''rte_mempool_ops_populate'', ''rte_mempool_op_populate_default'',
       ''rte_mempool_op_populate_helper''],
       lib_op RConstruct 0),
     ([''rte_mempool_put'', ''rte_mempool_put_bulk'', ''rte_mempool_generic_put'',
       ''rte_mempool_do_generic_put'', ''__mempool_generic_put'', ''rte_mempool_ops_enqueue_bulk'',
       ''rte_mbuf_raw_free_bulk'', ''rte_mempool_mp_put'', ''rte_mempool_mp_put_bulk''],
       lib_op RPush 0),
     ([''rte_mempool_cache_flush'', ''rte_mempool_cache_zc_put_bulk''],
       lib_op RPush 1),
     ([''rte_mempool_cache_zc_get_bulk''],
       lib_op RPop 1),
     ([''rte_mempool_get'', ''rte_mempool_get_bulk'', ''rte_mempool_generic_get'',
       ''rte_mempool_do_generic_get'', ''__mempool_generic_get'', ''rte_mempool_get_contig_blocks'',
       ''rte_mempool_ops_dequeue_bulk'', ''rte_mempool_ops_dequeue_contig_blocks'',
       ''rte_pktmbuf_alloc_bulk'', ''rte_mbuf_raw_alloc_bulk'', ''rte_mempool_mc_get'',
       ''rte_mempool_mc_get_bulk''],
       lib_op RPop 0),
     ([''rte_mempool_sp_put'', ''rte_mempool_sp_put_bulk''],
       (\<lambda>r. (lib_op RPush 0 r)\<lparr>sync := Single\<rparr>)),
     ([''rte_mempool_sc_get'', ''rte_mempool_sc_get_bulk''],
       (\<lambda>r. (lib_op RPop 0 r)\<lparr>sync := Single\<rparr>)),
     ([''rte_pktmbuf_alloc'', ''rte_mbuf_raw_alloc''],
       (\<lambda>r. (lib_op RPop 0 r)\<lparr>returnsMbuf := True\<rparr>)),
     ([''rte_pktmbuf_copy'', ''rte_pktmbuf_clone''],
       (\<lambda>r. (lib_op RPop 1 r)\<lparr>returnsMbuf := True\<rparr>)),
     ([''rte_mbuf_raw_free''],
       (\<lambda>r. (lib_op RPush 0 r)\<lparr>viaMbuf := FOwn\<rparr>)),
     ([''rte_pktmbuf_free'', ''rte_pktmbuf_free_seg'', ''rte_pktmbuf_free_bulk'',
       ''rte_pktmbuf_linearize'', ''__rte_pktmbuf_linearize''],
       (\<lambda>r. (lib_op RPush 0 r)\<lparr>viaMbuf := FChain\<rparr>)),
     ([''rte_pktmbuf_detach'', ''rte_pktmbuf_prefree_seg'', ''__rte_pktmbuf_free_direct''],
       (\<lambda>r. (lib_op RPush 0 r)\<lparr>viaMbuf := FAttached\<rparr>))]"

definition classifyMempool :: "string \<Rightarrow> lib_fn" where
  "classifyMempool n =
     (let r = no_lib_fn\<lparr>member := True, kind := Mempool, sync := ByFlags\<rparr>
      in case find (\<lambda>(names, _). List.member names n) mempool_table of
        Some (_, act) \<Rightarrow> act r
      | None \<Rightarrow> r\<lparr>unmodelled := \<not> isInertMempoolFunction n\<rparr>)"

definition classifyRing :: "string \<Rightarrow> lib_fn" where
  "classifyRing n =
     (let r = no_lib_fn\<lparr>member := True, kind := Ring, sync := ByFlags\<rparr>
      in if n = ''rte_ring_create'' then r\<lparr>role := RCreate, flagsArg := Some 3\<rparr>
         else if n = ''rte_ring_create_elem'' then r\<lparr>role := RCreate, flagsArg := Some 4\<rparr>
         else if n = ''rte_ring_init'' then r\<lparr>role := RConstruct, flagsArg := Some 3\<rparr>
         else if contains_str n ''enqueue'' \<or> contains_str n ''dequeue'' then
           let push = contains_str n ''enqueue'';
               r = r\<lparr>role := (if push then RPush else RPop)\<rparr>
           in if contains_str n (if push then ''_sp_'' else ''_sc_'') then r\<lparr>sync := Single\<rparr>
              else if contains_str n (if push then ''_mp_'' else ''_mc_'') then r\<lparr>sync := Multi\<rparr>
              else r
         else r)"

definition classify :: "(string \<Rightarrow> (string \<times> string \<times> bool) option) \<Rightarrow> string \<Rightarrow> lib_fn" where
  "classify demangle n =
     (if isDpdkMempoolFunction n then classifyMempool n
      else if isDpdkRingFunction n then classifyRing n
      else case libraryClassOf demangle n of None \<Rightarrow> no_lib_fn
        | Some (cls, base, ctor) \<Rightarrow>
            no_lib_fn\<lparr>member := True, sync := ByType,
              role := (if ctor then RConstruct else if List.member (lc_pushes cls) base then RPush
                       else if List.member (lc_pops cls) base then RPop else RNone)\<rparr>)"

definition libraryQueueFunction ::
    "(string \<Rightarrow> (string \<times> string \<times> bool) option) \<Rightarrow> cfunc option \<Rightarrow> lib_fn" where
  "libraryQueueFunction demangle f = (case f of None \<Rightarrow> no_lib_fn | Some g \<Rightarrow> classify demangle (sym g))"

definition isLibraryQueueFunction ::
    "(string \<Rightarrow> (string \<times> string \<times> bool) option) \<Rightarrow> cfunc option \<Rightarrow> bool" where
  "isLibraryQueueFunction demangle f = member (libraryQueueFunction demangle f)"

definition isMbufLinkFunction :: "string \<Rightarrow> bool" where
  "isMbufLinkFunction n = List.member
     [''rte_pktmbuf_chain'', ''rte_pktmbuf_attach'', ''rte_pktmbuf_attach_extbuf'', ''rte_pktmbuf_clone''] n"

section \<open>The operands of a call\<close>

definition dictHasSret :: "string list list option \<Rightarrow> nat \<Rightarrow> bool" where
  "dictHasSret attrs idx = (case attrs of None \<Rightarrow> False
     | Some as \<Rightarrow> idx < length as \<and> List.member (as ! idx) ''llvm.sret'')"

definition hasSretArg :: "cmodule \<Rightarrow> callinfo \<Rightarrow> nat \<Rightarrow> bool" where
  "hasSretArg m c idx \<longleftrightarrow> dictHasSret (carg_attrs c) idx \<or>
     (case lookupCallee m c of None \<Rightarrow> False | Some f \<Rightarrow> dictHasSret (fn_arg_attrs f) idx)"

definition firstRealOperand :: "cmodule \<Rightarrow> callinfo \<Rightarrow> val list \<Rightarrow> nat" where
  "firstRealOperand m c vs = (if vs \<noteq> [] \<and> hasSretArg m c 0 then 1 else 0)"

definition spawnEntryOperand :: "cmodule \<Rightarrow> callinfo \<Rightarrow> val list \<Rightarrow> nat" where
  "spawnEntryOperand m c vs = firstRealOperand m c vs +
     (case lookupCallee m c of None \<Rightarrow> 0
      | Some f \<Rightarrow> if sym f = ''pthread_create'' then 2 else if sym f = ''thrd_create'' then 1 else 0)"

definition spawnFirstArgOperand :: "cmodule \<Rightarrow> callinfo \<Rightarrow> val list \<Rightarrow> nat" where
  "spawnFirstArgOperand m c vs = spawnEntryOperand m c vs + 1"

record lib_call =
  lrole :: lib_role
  lsync :: lib_sync
  lkind :: lib_kind
  queueOperand :: nat
  flagsOperand :: "nat option"
  opsOperand :: "nat option"
  lviaMbuf :: mbuf_free
  lreturnsMbuf :: bool

definition no_lib_call :: lib_call where
  "no_lib_call = \<lparr>lrole = RNone, lsync = ByType, lkind = Class, queueOperand = 0, flagsOperand = None,
     opsOperand = None, lviaMbuf = FNone, lreturnsMbuf = False\<rparr>"

definition libraryQueueCall :: "cmodule \<Rightarrow> callinfo \<Rightarrow> val list \<Rightarrow> lib_fn \<Rightarrow> lib_call" where
  "libraryQueueCall m c vs f =
     (if role f = RNone then no_lib_call
      else let k = firstRealOperand m c vs
        in if role f \<noteq> RCreate \<and> k + queueArg f \<ge> length vs then no_lib_call
           else \<lparr>lrole = role f, lsync = sync f, lkind = kind f, queueOperand = k + queueArg f,
             flagsOperand = map_option ((+) k) (flagsArg f), opsOperand = map_option ((+) k) (opsArg f),
             lviaMbuf = viaMbuf f, lreturnsMbuf = returnsMbuf f\<rparr>)"

section \<open>Allocators and functions that touch only their arguments\<close>

definition isCQueueRuntime :: "cfunc option \<Rightarrow> bool" where
  "isCQueueRuntime f = (case f of None \<Rightarrow> False | Some g \<Rightarrow> starts_with (sym g) ''wtc_c_queue_'')"

definition touchesOnlyItsArguments :: "cfunc option \<Rightarrow> bool" where
  "touchesOnlyItsArguments f = (case f of None \<Rightarrow> False
     | Some g \<Rightarrow> body g = [] \<and> List.member
     [''memcpy'', ''memmove'', ''memset'', ''memcmp'', ''memchr'', ''strlen'', ''strcmp'', ''strncmp'',
      ''abs'', ''labs'', ''llabs'', ''sqrt'', ''sqrtf'', ''fabs'', ''fabsf''] (sym g))"

definition isAllocator :: "cfunc option \<Rightarrow> bool" where
  "isAllocator f = (case f of None \<Rightarrow> False
     | Some g \<Rightarrow> List.member
     [''malloc'', ''calloc'', ''aligned_alloc'', ''memalign'', ''posix_memalign'', ''_Znwm'', ''_Znam'',
      ''_ZnwmSt11align_val_t'', ''_ZnamSt11align_val_t'', ''rte_malloc'', ''rte_zmalloc'', ''rte_calloc'',
      ''rte_malloc_socket'', ''rte_zmalloc_socket'', ''rte_calloc_socket'', ''rte_ring_create'',
      ''rte_ring_create_elem'', ''rte_stack_create'', ''rte_mempool_create'', ''rte_mempool_create_empty'',
      ''rte_pktmbuf_pool_create'', ''rte_pktmbuf_pool_create_by_ops'', ''rte_pktmbuf_pool_create_extbuf''] (sym g))"

section \<open>The readings agree with one another\<close>

definition mempool_names :: "string list" where
  "mempool_names = concat (map fst mempool_table)"

fun apart :: "'a list \<Rightarrow> 'a list \<Rightarrow> bool" where
  "apart [] ys = True"
| "apart (x # xs) ys \<longleftrightarrow> \<not> List.member ys x \<and> apart xs ys"

lemma apart_iff: "apart xs ys \<longleftrightarrow> set xs \<inter> set ys = {}"
  by (induction xs) auto

lemma mempool_names_inert: "apart (map rev inert_mempool_names) (map rev mempool_names)"
  by code_simp

lemma find_names:
  "find (\<lambda>(names, _). List.member names n) t = None \<longleftrightarrow> \<not> List.member (concat (map fst t)) n"
  by (induction t) (auto simp: List.member_iff)

lemma mempool_roles: "list_all (\<lambda>(names, act). let r = act (no_lib_fn\<lparr>member := True, kind := Mempool, sync := ByFlags\<rparr>)
    in role r \<noteq> RNone \<and> \<not> unmodelled r \<and> member r \<and> kind r = Mempool
     \<and> (role r = RCreate \<longrightarrow> list_all (\<lambda>n. isAllocator (Some \<lparr>sym = n, annots = None, body = [],
          link = External, aliasee = None, params = 0, fn_arg_attrs = None\<rparr>)) names)
     \<and> (sync r = ByFlags \<or> role r = RPush \<or> role r = RPop)) mempool_table"
  by code_simp

lemma classifyMempool_row:
  assumes "find (\<lambda>(names, _). List.member names n) mempool_table = Some (names, act)"
  shows "(names, act) \<in> set mempool_table \<and> n \<in> set names
    \<and> classifyMempool n = act (no_lib_fn\<lparr>member := True, kind := Mempool, sync := ByFlags\<rparr>)"
proof -
  have "classifyMempool n = act (no_lib_fn\<lparr>member := True, kind := Mempool, sync := ByFlags\<rparr>)"
    unfolding classifyMempool_def assms by (simp add: Let_def)
  then show ?thesis using find_SomeE [OF assms] by simp
qed

lemma isAllocator_sym: "isAllocator (Some f) = isAllocator (Some g)" if "sym f = sym g"
  using that by (simp add: isAllocator_def)

lemma classify_mempool: "isDpdkMempoolFunction n \<Longrightarrow> classify d n = classifyMempool n"
  by (simp add: classify_def)

text \<open>
  C35: of the functions of DPDK's mempool and mbuf libraries, the modelled, the inert and the
  unmodelled are apart: each function is exactly one of the three, and none of them is read as a
  ring's or a class's.
\<close>

theorem mempool_readings_apart:
  assumes "isDpdkMempoolFunction n"
  shows "member (classify d n) \<and> kind (classify d n) = Mempool
    \<and> (unmodelled (classify d n) \<longleftrightarrow> role (classify d n) = RNone \<and> \<not> isInertMempoolFunction n)
    \<and> (isInertMempoolFunction n \<longrightarrow> role (classify d n) = RNone)"
proof (cases "find (\<lambda>(names, _). List.member names n) mempool_table")
  case None
  then have "classify d n = no_lib_fn\<lparr>member := True, kind := Mempool, sync := ByFlags,
      unmodelled := \<not> isInertMempoolFunction n\<rparr>"
    by (simp add: classify_mempool assms classifyMempool_def)
  then show ?thesis by (simp add: no_lib_fn_def)
next
  case (Some row)
  obtain names act where row: "row = (names, act)" by (cases row)
  note r = classifyMempool_row [OF Some [unfolded row]]
  then have "List.member mempool_names n" by (force simp: mempool_names_def)
  then have "\<not> isInertMempoolFunction n"
    using mempool_names_inert by (auto simp: isInertMempoolFunction_def apart_iff)
  moreover have "role (classify d n) \<noteq> RNone \<and> \<not> unmodelled (classify d n) \<and> member (classify d n)
      \<and> kind (classify d n) = Mempool"
    using mempool_roles r by (simp add: classify_mempool assms list_all_iff Let_def) fastforce
  ultimately show ?thesis by blast
qed

theorem mempool_readings_apart_witness:
  "role (classify (\<lambda>_. None) ''rte_mempool_put'') = RPush \<and> \<not> unmodelled (classify (\<lambda>_. None) ''rte_mempool_put'')
   \<and> unmodelled (classify (\<lambda>_. None) ''rte_mempool_new_in_27'')"
proof -
  have "isDpdkMempoolFunction ''rte_mempool_put''" "isDpdkMempoolFunction ''rte_mempool_new_in_27''"
    "\<not> isInertMempoolFunction ''rte_mempool_new_in_27''"
    "role (classify (\<lambda>_. None) ''rte_mempool_put'') = RPush" "role (classify (\<lambda>_. None) ''rte_mempool_new_in_27'') = RNone"
    by code_simp+
  then show ?thesis using mempool_readings_apart [of "''rte_mempool_put''" "\<lambda>_. None"]
      mempool_readings_apart [of "''rte_mempool_new_in_27''" "\<lambda>_. None"] by simp
qed

lemma classifyRing_facts:
  "role (classifyRing n) = RCreate \<Longrightarrow> n = ''rte_ring_create'' \<or> n = ''rte_ring_create_elem''"
  "sync (classifyRing n) = ByFlags \<or> role (classifyRing n) = RPush \<or> role (classifyRing n) = RPop"
  by (auto simp: classifyRing_def no_lib_fn_def Let_def split: if_splits)

lemma classifyMempool_facts:
  "role (classifyMempool n) = RCreate \<Longrightarrow> sym f = n \<Longrightarrow> isAllocator (Some f)"
  "sync (classifyMempool n) = ByFlags \<or> role (classifyMempool n) = RPush \<or> role (classifyMempool n) = RPop"
proof -
  have "(role (classifyMempool n) = RCreate \<longrightarrow> sym f = n \<longrightarrow> isAllocator (Some f)) \<and>
    (sync (classifyMempool n) = ByFlags \<or> role (classifyMempool n) = RPush \<or> role (classifyMempool n) = RPop)"
  proof (cases "find (\<lambda>(names, _). List.member names n) mempool_table")
    case None
    then show ?thesis by (simp add: classifyMempool_def no_lib_fn_def)
  next
    case (Some row)
    obtain names act where row: "row = (names, act)" by (cases row)
    note r = classifyMempool_row [OF Some [unfolded row]]
    let ?g = "\<lparr>sym = n, annots = None, body = [], link = External, aliasee = None, params = 0, fn_arg_attrs = None\<rparr>"
    have "role (classifyMempool n) = RCreate \<longrightarrow> isAllocator (Some ?g)"
      using mempool_roles r by (simp add: list_all_iff Let_def) fastforce
    moreover have "sync (classifyMempool n) = ByFlags \<or> role (classifyMempool n) = RPush \<or> role (classifyMempool n) = RPop"
      using mempool_roles r by (simp add: list_all_iff Let_def) fastforce
    ultimately show ?thesis using isAllocator_sym [of f ?g] by simp
  qed
  then show "role (classifyMempool n) = RCreate \<Longrightarrow> sym f = n \<Longrightarrow> isAllocator (Some f)"
    "sync (classifyMempool n) = ByFlags \<or> role (classifyMempool n) = RPush \<or> role (classifyMempool n) = RPop"
    by blast+
qed

text \<open>
  C36: a library function read as creating a queue is one of the allocators, so that its result is
  the root of the queue; and a function read as promising one thread on its side, or allowing
  several, is a push or a pop.
\<close>

theorem creates_are_allocators:
  assumes "role (libraryQueueFunction d (Some f)) = RCreate"
  shows "isAllocator (Some f) \<and> sync (libraryQueueFunction d (Some f)) = ByFlags"
proof -
  consider "isDpdkMempoolFunction (sym f)" | "\<not> isDpdkMempoolFunction (sym f)" "isDpdkRingFunction (sym f)"
    | "\<not> isDpdkMempoolFunction (sym f)" "\<not> isDpdkRingFunction (sym f)" by blast
  then show ?thesis
  proof cases
    case 1
    then have eq: "libraryQueueFunction d (Some f) = classifyMempool (sym f)"
      by (simp add: libraryQueueFunction_def classify_def)
    then show ?thesis using assms classifyMempool_facts [of "sym f"] by auto
  next
    case 2
    then have eq: "libraryQueueFunction d (Some f) = classifyRing (sym f)"
      by (simp add: libraryQueueFunction_def classify_def)
    then have "sym f = ''rte_ring_create'' \<or> sym f = ''rte_ring_create_elem''"
      using assms classifyRing_facts(1) by simp
    then have "isAllocator (Some f)" by (auto simp: isAllocator_def)
    then show ?thesis using assms eq classifyRing_facts(2) [of "sym f"] by auto
  next
    case 3
    then show ?thesis using assms
      by (auto simp: libraryQueueFunction_def classify_def no_lib_fn_def split: option.splits if_splits)
  qed
qed

definition ring_create_demo :: cfunc where
  "ring_create_demo = \<lparr>sym = ''rte_ring_create'', annots = None, body = [], link = External, aliasee = None,
     params = 4, fn_arg_attrs = None\<rparr>"

theorem creates_are_allocators_witness: "isAllocator (Some ring_create_demo)"
proof -
  have "role (libraryQueueFunction (\<lambda>_. None) (Some ring_create_demo)) = RCreate" by code_simp
  then show ?thesis using creates_are_allocators [of "\<lambda>_. None" ring_create_demo] by blast
qed

end
