(* ===== verification/Cir_Trace.thy ===== *)
theory Cir_Trace
  imports Cir_Names "HOL-Library.While_Combinator"
begin

text \<open>
  Following values through a module (Transforms/Utils.cpp): through casts to the value they name,
  through a stack slot stored once to the value stored, to the functions an indirect call may
  reach and the allocations a call may hand back; whether a slot's address escapes; the addresses
  an operation touches; loops whose bound is a variable.

  The operands of an operation stand in one order throughout: a load has the address, a store the
  value and the address, an atomic operation the pointer and the value, a copy the source and the
  destination, a memset the destination, the value and the length, a memcpy and a memmove the
  destination, the source and the length.
\<close>

section \<open>Casts\<close>

text \<open>One turn of the loop: the operand of a cast under which the value still names the object.\<close>

definition local_step :: "cmodule \<Rightarrow> val \<Rightarrow> val option" where
  "local_step m v = (case def_op m v of None \<Rightarrow> None
     | Some x \<Rightarrow> (case okind x of
         KCast k \<Rightarrow> (if k \<noteq> bitcast \<and> k \<noteq> array_to_ptrdecay then None
                     else case oargs x of [] \<Rightarrow> None | w # _ \<Rightarrow> Some w)
       | KUcc \<Rightarrow> (case oargs x of [w] \<Rightarrow> Some w | _ \<Rightarrow> None)
       | _ \<Rightarrow> None))"

definition trace_local :: "cmodule \<Rightarrow> val \<Rightarrow> val option" where
  "trace_local m v = while_option (\<lambda>v. local_step m v \<noteq> None) (\<lambda>v. the (local_step m v)) v"

definition traceToLocalRoot :: "cmodule \<Rightarrow> val \<Rightarrow> val" where
  "traceToLocalRoot m v = (case trace_local m v of Some r \<Rightarrow> r | None \<Rightarrow> v)"

definition get_global :: "cmodule \<Rightarrow> val \<Rightarrow> string option" where
  "get_global m v = (case def_op m v of Some x \<Rightarrow> (case okind x of KGetGlobal s \<Rightarrow> Some s | _ \<Rightarrow> None) | None \<Rightarrow> None)"

definition resolveFunctionOperand :: "cmodule \<Rightarrow> val \<Rightarrow> cfunc option" where
  "resolveFunctionOperand m v = Option.bind (get_global m (traceToLocalRoot m v)) (find_func m)"

section \<open>Blocks and their order\<close>

definition all_blocks :: "cmodule \<Rightarrow> irop list list" where
  "all_blocks m = concat (map body (funcs m)) @ concat (map (\<lambda>x. concat (regs x)) (all_ops m))"

definition getBlock :: "cmodule \<Rightarrow> nat \<Rightarrow> irop list option" where
  "getBlock m n = find (\<lambda>b. n \<in> set (map oid b)) (all_blocks m)"

definition getParentOp :: "cmodule \<Rightarrow> nat \<Rightarrow> irop option" where
  "getParentOp m n = find (\<lambda>x. list_ex (\<lambda>b. n \<in> set (map oid b)) (concat (regs x))) (all_ops m)"

definition findAncestorOpInBlock :: "irop list \<Rightarrow> irop \<Rightarrow> irop option" where
  "findAncestorOpInBlock b x = find (\<lambda>y. oid x \<in> set (map oid (walk y))) b"

definition isBeforeInBlock :: "irop list \<Rightarrow> irop \<Rightarrow> irop \<Rightarrow> bool" where
  "isBeforeInBlock b x y \<longleftrightarrow> oid y \<in> set (map oid (tl (dropWhile (\<lambda>z. oid z \<noteq> oid x) b)))"

definition is_scope :: "irop \<Rightarrow> bool" where
  "is_scope x \<longleftrightarrow> okind x = KScope \<or> okind x = KCleanupScope"

text \<open>
  The store and the scopes around it up to the block \<open>topb\<close>, innermost first; \<open>None\<close> once a
  parent is no scope.
\<close>

type_synonym chain = "(irop \<times> irop list) option"

definition chain_on :: "cmodule \<Rightarrow> irop list option \<Rightarrow> chain \<Rightarrow> bool" where
  "chain_on m topb s = (case s of None \<Rightarrow> False | Some (x, ch) \<Rightarrow> getBlock m (oid x) \<noteq> topb)"

definition chain_up :: "cmodule \<Rightarrow> chain \<Rightarrow> chain" where
  "chain_up m s = (case s of None \<Rightarrow> None | Some (x, ch) \<Rightarrow>
     (case getParentOp m (oid x) of None \<Rightarrow> None
      | Some p \<Rightarrow> if is_scope p then Some (p, ch @ [x]) else None))"

fun dominates_in :: "cmodule \<Rightarrow> irop \<Rightarrow> irop list \<Rightarrow> bool" where
  "dominates_in m ld [] = False"
| "dominates_in m ld (c # cs) = (case getBlock m (oid c) of None \<Rightarrow> False
     | Some b \<Rightarrow> (case findAncestorOpInBlock b ld of None \<Rightarrow> False
         | Some anc \<Rightarrow> if oid anc \<noteq> oid c then isBeforeInBlock b c anc else dominates_in m ld cs))"

definition storeDominatesLoad :: "cmodule \<Rightarrow> irop \<Rightarrow> irop \<Rightarrow> irop list option \<Rightarrow> bool" where
  "storeDominatesLoad m st ld topb =
     (case while_option (chain_on m topb) (chain_up m) (Some (st, [])) of
        Some (Some (x, ch)) \<Rightarrow> dominates_in m ld (rev (ch @ [x]))
      | _ \<Rightarrow> False)"

section \<open>Slots stored once\<close>

fun store_value :: "irop \<Rightarrow> val option" where
  "store_value (IrOp n KStore [v, a] ts rs) = Some v"
| "store_value _ = None"

fun store_addr :: "irop \<Rightarrow> val option" where
  "store_addr (IrOp n KStore [v, a] ts rs) = Some a"
| "store_addr _ = None"

definition const_of :: "cmodule \<Rightarrow> val \<Rightarrow> cattr option" where
  "const_of m v = (case def_op m v of Some x \<Rightarrow> (case okind x of KConst c \<Rightarrow> Some c | _ \<Rightarrow> None) | None \<Rightarrow> None)"

definition is_null :: "cmodule \<Rightarrow> val \<Rightarrow> bool" where
  "is_null m v \<longleftrightarrow> const_of m v = Some (CPtr 0)"

definition load_addr :: "cmodule \<Rightarrow> val \<Rightarrow> val option" where
  "load_addr m v = (case def_op m v of
     Some x \<Rightarrow> (case okind x of KLoad _ \<Rightarrow> (case oargs x of [a] \<Rightarrow> Some a | _ \<Rightarrow> None) | _ \<Rightarrow> None)
   | None \<Rightarrow> None)"

definition is_alloca :: "cmodule \<Rightarrow> val \<Rightarrow> bool" where
  "is_alloca m v \<longleftrightarrow> (case def_op m v of Some x \<Rightarrow> okind x = KAlloca | None \<Rightarrow> False)"

text \<open>The users of a slot, sorted into the one store and the loads; \<open>None\<close> where the slot is given up.\<close>

fun scan_slot :: "cmodule \<Rightarrow> val \<Rightarrow> irop option \<Rightarrow> irop list \<Rightarrow> irop list \<Rightarrow> (irop option \<times> irop list) option" where
  "scan_slot m a st lds [] = Some (st, lds)"
| "scan_slot m a st lds (u # us) = (case okind u of
     KLifetimeStart \<Rightarrow> scan_slot m a st lds us
   | KLifetimeEnd \<Rightarrow> scan_slot m a st lds us
   | KStore \<Rightarrow>
       (if store_addr u \<noteq> Some a then None
        else if (case store_value u of Some w \<Rightarrow> is_null m w | None \<Rightarrow> False) then scan_slot m a st lds us
        else if st \<noteq> None then None
        else scan_slot m a (Some u) lds us)
   | KLoad _ \<Rightarrow> scan_slot m a st (lds @ [u]) us
   | _ \<Rightarrow> None)"

definition defining_block :: "cmodule \<Rightarrow> val \<Rightarrow> irop list option" where
  "defining_block m v = (case def_op m v of Some x \<Rightarrow> getBlock m (oid x) | None \<Rightarrow> None)"

definition singleStoredValue :: "cmodule \<Rightarrow> val \<Rightarrow> val option" where
  "singleStoredValue m a = (case scan_slot m a None [] (users m a) of
     Some (Some st, lds) \<Rightarrow>
       if list_all (\<lambda>ld. storeDominatesLoad m st ld (defining_block m a)) lds then store_value st else None
   | _ \<Rightarrow> None)"

definition root_step :: "cmodule \<Rightarrow> val \<Rightarrow> val option" where
  "root_step m v = (case load_addr m (traceToLocalRoot m v) of None \<Rightarrow> None
     | Some a \<Rightarrow> if is_alloca m a then singleStoredValue m a else None)"

definition trace_root :: "cmodule \<Rightarrow> val \<Rightarrow> val option" where
  "trace_root m v = while_option (\<lambda>v. root_step m v \<noteq> None) (\<lambda>v. the (root_step m v)) v"

definition traceToRoot :: "cmodule \<Rightarrow> val \<Rightarrow> val" where
  "traceToRoot m v = (case trace_root m v of Some r \<Rightarrow> traceToLocalRoot m r | None \<Rightarrow> v)"

section \<open>Escaping addresses\<close>

definition is_step :: "irop \<Rightarrow> bool" where
  "is_step u = (case okind u of KCast _ \<Rightarrow> True | KGetMember \<Rightarrow> True | KGetElement \<Rightarrow> True
     | KPtrStride \<Rightarrow> True | _ \<Rightarrow> False)"

definition is_read :: "irop \<Rightarrow> bool" where
  "is_read u = (case okind u of KLoad _ \<Rightarrow> True | KLifetimeStart \<Rightarrow> True | KLifetimeEnd \<Rightarrow> True | _ \<Rightarrow> False)"

text \<open>The users of one value; \<open>None\<close> when one of them publishes it. The stack's top is its head.\<close>

fun scan_uses :: "val \<Rightarrow> irop list \<Rightarrow> val list \<Rightarrow> irop list \<Rightarrow> (val list \<times> irop list) option" where
  "scan_uses v [] work seen = Some (work, seen)"
| "scan_uses v (u # us) work seen =
     (if okind u = KStore then (if store_value u = Some v then None else scan_uses v us work seen)
      else if u \<in> set seen then scan_uses v us work seen
      else if is_read u then scan_uses v us work (u # seen)
      else if is_step u then scan_uses v us (Res (oid u) 0 # work) (u # seen)
      else None)"

fun escapes_loop :: "cmodule \<Rightarrow> nat \<Rightarrow> val list \<Rightarrow> irop list \<Rightarrow> bool" where
  "escapes_loop m g [] seen = False"
| "escapes_loop m 0 (v # work) seen = True"
| "escapes_loop m (Suc g) (v # work) seen = (case scan_uses v (users m v) work seen of
     None \<Rightarrow> True | Some (work', seen') \<Rightarrow> escapes_loop m g work' seen')"

definition addressEscapes :: "cmodule \<Rightarrow> val \<Rightarrow> bool" where
  "addressEscapes m a = escapes_loop m 512 [a] []"

section \<open>Indirect calls\<close>

datatype sym_use = UseOp irop | UseAlias cfunc | UseGlobal cglobal

definition names_sym :: "string \<Rightarrow> irop \<Rightarrow> bool" where
  "names_sym s x = (case okind x of
     KCall c \<Rightarrow> callee c = Some s | KGetGlobal g \<Rightarrow> g = s | KConst c \<Rightarrow> c = CSym s
   | KWtc w \<Rightarrow> fallback_impl w = Some s | _ \<Rightarrow> False)"

definition getSymbolUses :: "cmodule \<Rightarrow> string \<Rightarrow> sym_use list" where
  "getSymbolUses m s = map UseOp (filter (names_sym s) (all_ops m))
     @ map UseAlias (filter (\<lambda>f. aliasee f = Some s) (funcs m))
     @ map UseGlobal (filter (\<lambda>g. ginit g = Some (CSym s)) (globals m))"

fun callees_through :: "cmodule \<Rightarrow> nat \<Rightarrow> sym_use list \<Rightarrow> cfunc list \<Rightarrow> cfunc list" where
  "callees_through m idx [] out = out"
| "callees_through m idx (UseOp x # us) out = (case okind x of
     KCall c \<Rightarrow>
       (if indirect c \<noteq> None then []
        else let k = firstRealOperand m c (oargs x) + idx in
          if k \<ge> length (oargs x) then []
          else case Option.bind (get_global m (traceToRoot m (oargs x ! k))) (find_func m) of
            None \<Rightarrow> []
          | Some f \<Rightarrow> callees_through m idx us (if f \<in> set out then out else out @ [f]))
   | _ \<Rightarrow> [])"
| "callees_through m idx (UseAlias f # us) out = []"
| "callees_through m idx (UseGlobal g # us) out = []"

definition indirectCallees :: "cmodule \<Rightarrow> callinfo \<Rightarrow> cfunc list" where
  "indirectCallees m c = (case indirect c of None \<Rightarrow> []
     | Some p \<Rightarrow> (let fnv = traceToRoot m p in
         case get_global m fnv of
           Some s \<Rightarrow> (case find_func m s of Some f \<Rightarrow> [f] | None \<Rightarrow> [])
         | None \<Rightarrow> (case fnv of
             Param own idx \<Rightarrow> (case find_func m own of None \<Rightarrow> []
               | Some f \<Rightarrow> if body f = [] then [] else if link f \<noteq> Internal then []
                           else callees_through m idx (getSymbolUses m own) [])
           | _ \<Rightarrow> [])))"

section \<open>Allocations\<close>

definition call_of :: "cmodule \<Rightarrow> val \<Rightarrow> irop option" where
  "call_of m v = (case def_op m v of Some x \<Rightarrow> (case okind x of KCall c \<Rightarrow> Some x | _ \<Rightarrow> None) | None \<Rightarrow> None)"

definition callee_of :: "cmodule \<Rightarrow> irop \<Rightarrow> cfunc option" where
  "callee_of m x = (case okind x of KCall c \<Rightarrow> lookupCallee m c | _ \<Rightarrow> None)"

definition returns_of :: "cfunc \<Rightarrow> irop list" where
  "returns_of f = filter (\<lambda>x. okind x = KReturn) (walk_region (body f))"

definition stores_to :: "cmodule \<Rightarrow> val \<Rightarrow> val list" where
  "stores_to m a = List.map_filter (\<lambda>u. if store_addr u = Some a then store_value u else None) (users m a)"

text \<open>The state of the walk: the sites found, and whether a return hands back anything else.\<close>

type_synonym sites = "irop list \<times> bool"

function (sequential) returnedValue :: "cmodule \<Rightarrow> val \<Rightarrow> nat \<Rightarrow> sites \<Rightarrow> sites"
    and allocationsBehindImpl :: "cmodule \<Rightarrow> irop \<Rightarrow> nat \<Rightarrow> sites \<Rightarrow> sites" where
  "returnedValue m v depth (sites, bad) =
     (if bad then (sites, bad)
      else if depth > 8 then (sites, True)
      else let r = traceToRoot m v in
        if is_null m r then (sites, bad)
        else case call_of m r of
          Some c \<Rightarrow> allocationsBehindImpl m c (depth + 1) (sites, bad)
        | None \<Rightarrow> (case load_addr m r of None \<Rightarrow> (sites, True)
            | Some a \<Rightarrow>
                if is_alloca m a \<and> \<not> addressEscapes m a \<and> stores_to m a \<noteq> []
                then fold (\<lambda>w s. returnedValue m w (depth + 1) s) (stores_to m a) (sites, bad)
                else (sites, True)))"
| "allocationsBehindImpl m call depth (sites, bad) =
     (case callee_of m call of None \<Rightarrow> (sites, True)
      | Some f \<Rightarrow>
          if isAllocator (Some f) then ((if call \<in> set sites then sites else sites @ [call]), bad)
          else if body f = [] \<or> depth > 4 then (sites, True)
          else fold (\<lambda>ret s. if snd s then s
                 else case oargs ret of [w] \<Rightarrow> returnedValue m w depth s | _ \<Rightarrow> (fst s, True))
               (returns_of f) (sites, bad))"
  by pat_completeness auto

termination
  by (relation "measure (\<lambda>x. case x of Inl (m, v, d, s) \<Rightarrow> 2 * (10 - d) | Inr (m, c, d, s) \<Rightarrow> 2 * (10 - d) + 1)")
    auto

definition allocationsBehind :: "cmodule \<Rightarrow> irop \<Rightarrow> irop list" where
  "allocationsBehind m call = (case allocationsBehindImpl m call 0 ([], False) of (sites, bad) \<Rightarrow> if bad then [] else sites)"

definition allocationBehind :: "cmodule \<Rightarrow> irop \<Rightarrow> irop option" where
  "allocationBehind m call = (case allocationsBehind m call of [s] \<Rightarrow> Some s | _ \<Rightarrow> None)"

definition align_index :: "string \<Rightarrow> nat option" where
  "align_index n =
     (if List.member [''aligned_alloc'', ''memalign''] n then Some 0
      else if n = ''posix_memalign'' then Some 1
      else if List.member [''_ZnwmSt11align_val_t'', ''_ZnamSt11align_val_t''] n then Some 1
      else if List.member [''rte_malloc'', ''rte_zmalloc''] n then Some 2
      else if n = ''rte_calloc'' then Some 3
      else if List.member [''rte_malloc_socket'', ''rte_zmalloc_socket''] n then Some 2
      else if n = ''rte_calloc_socket'' then Some 3
      else None)"

definition small_const :: "cmodule \<Rightarrow> val \<Rightarrow> nat option" where
  "small_const m v = (case const_of m v of
     Some (CInt s w i) \<Rightarrow> if zext w i < 2 ^ 32 \<and> zext w i > 0 then Some (nat (zext w i)) else None
   | _ \<Rightarrow> None)"

definition allocationAlignment :: "cmodule \<Rightarrow> irop \<Rightarrow> nat option" where
  "allocationAlignment m call = (case allocationBehind m call of None \<Rightarrow> None
     | Some x \<Rightarrow> (case okind x of KCall c \<Rightarrow> (case lookupCallee m c of None \<Rightarrow> None
         | Some f \<Rightarrow> (case align_index (sym f) of None \<Rightarrow> None
             | Some k \<Rightarrow> let idx = firstRealOperand m c (oargs x) + k in
                 if idx \<ge> length (oargs x) then None else small_const m (oargs x ! idx)))
       | _ \<Rightarrow> None))"

section \<open>Memory accesses\<close>

record memory_access =
  addr :: val
  acc_type :: "cty option"
  isWrite :: bool

type_synonym param_types = "string \<Rightarrow> nat \<Rightarrow> cty"

definition pointee :: "cmodule \<Rightarrow> param_types \<Rightarrow> val \<Rightarrow> cty option" where
  "pointee m pt v = (case ty_of m pt v of Some (PtrT t) \<Rightarrow> Some t | _ \<Rightarrow> None)"

definition lengthType :: "cmodule \<Rightarrow> param_types \<Rightarrow> val \<Rightarrow> val \<Rightarrow> cty" where
  "lengthType m pt len p = (case small_const m len of
     Some n \<Rightarrow> ArrT (IntT False 8) n
   | None \<Rightarrow> (case pointee m pt (traceToLocalRoot m p) of
       None \<Rightarrow> IntT False 8
     | Some t \<Rightarrow> if t = VoidT \<or> t = FuncT then IntT False 8 else t))"

definition memoryAccesses :: "cmodule \<Rightarrow> param_types \<Rightarrow> irop \<Rightarrow> memory_access list" where
  "memoryAccesses m pt x = (case (okind x, oargs x) of
     (KLoad _, [a]) \<Rightarrow> [\<lparr>addr = a, acc_type = (case otys x of t # _ \<Rightarrow> Some t | [] \<Rightarrow> None), isWrite = False\<rparr>]
   | (KStore, [v, a]) \<Rightarrow> [\<lparr>addr = a, acc_type = ty_of m pt v, isWrite = True\<rparr>]
   | (KAtomicFetch, p # v # _) \<Rightarrow> [\<lparr>addr = p, acc_type = ty_of m pt v, isWrite = True\<rparr>]
   | (KAtomicXchg, p # v # _) \<Rightarrow> [\<lparr>addr = p, acc_type = ty_of m pt v, isWrite = True\<rparr>]
   | (KAtomicCmpXchg, [p, expected, desired]) \<Rightarrow> [\<lparr>addr = p, acc_type = ty_of m pt desired, isWrite = True\<rparr>]
   | (KAtomicTestAndSet, p # _) \<Rightarrow> [\<lparr>addr = p, acc_type = pointee m pt p, isWrite = True\<rparr>]
   | (KAtomicClear, p # _) \<Rightarrow> [\<lparr>addr = p, acc_type = pointee m pt p, isWrite = True\<rparr>]
   | (KSetBitfield, a # _) \<Rightarrow> [\<lparr>addr = a, acc_type = pointee m pt a, isWrite = True\<rparr>]
   | (KGetBitfield, a # _) \<Rightarrow> [\<lparr>addr = a, acc_type = pointee m pt a, isWrite = False\<rparr>]
   | (KCopy _, [s, d]) \<Rightarrow> [\<lparr>addr = s, acc_type = pointee m pt s, isWrite = False\<rparr>,
                          \<lparr>addr = d, acc_type = pointee m pt d, isWrite = True\<rparr>]
   | (KMemSet, [d, v, len]) \<Rightarrow> [\<lparr>addr = d, acc_type = Some (lengthType m pt len d), isWrite = True\<rparr>]
   | (KMemCpy, [d, s, len]) \<Rightarrow> [\<lparr>addr = s, acc_type = Some (lengthType m pt len s), isWrite = False\<rparr>,
                              \<lparr>addr = d, acc_type = Some (lengthType m pt len d), isWrite = True\<rparr>]
   | (KMemMove, [d, s, len]) \<Rightarrow> [\<lparr>addr = s, acc_type = Some (lengthType m pt len s), isWrite = False\<rparr>,
                               \<lparr>addr = d, acc_type = Some (lengthType m pt len d), isWrite = True\<rparr>]
   | _ \<Rightarrow> [])"

section \<open>Queue constructors\<close>

datatype root = RGlobal string | RSlot val

definition object_root :: "cmodule \<Rightarrow> val \<Rightarrow> root option" where
  "object_root m t = (case get_global m t of
     Some s \<Rightarrow> map_option (\<lambda>_. RGlobal s) (find_global m s)
   | None \<Rightarrow> if is_alloca m t then Some (RSlot t) else None)"

definition constructs :: "cmodule \<Rightarrow> cfunc \<Rightarrow> irop \<Rightarrow> root option" where
  "constructs m f x = (case okind x of
     KCall c \<Rightarrow>
       (if getSemanticKind (lookupCallee m c) \<noteq> QueueConstruction then None
        else if oargs x = [] \<or> firstRealOperand m c (oargs x) \<noteq> 0 then None
        else if insideLiftedRuntime m (Some f) c then None
        else object_root m (traceToRoot m (hd (oargs x))))
   | _ \<Rightarrow> None)"

definition add_ctor :: "root \<Rightarrow> irop \<Rightarrow> (root \<Rightarrow> irop list) \<Rightarrow> root \<Rightarrow> irop list" where
  "add_ctor r x t = t(r := t r @ [x])"

definition collectQueueConstructors :: "cmodule \<Rightarrow> root \<Rightarrow> irop list" where
  "collectQueueConstructors m =
     fold (\<lambda>f. fold (\<lambda>x t. case constructs m f x of Some r \<Rightarrow> add_ctor r x t | None \<Rightarrow> t) (walk_region (body f)))
       (funcs m) (\<lambda>_. [])"

definition is_int_ty :: "cty option \<Rightarrow> bool" where
  "is_int_ty t = (case t of Some (IntT _ _) \<Rightarrow> True | _ \<Rightarrow> False)"

definition takesTopologyTag :: "cmodule \<Rightarrow> param_types \<Rightarrow> irop \<Rightarrow> bool" where
  "takesTopologyTag m pt x \<longleftrightarrow> length (oargs x) \<ge> 2 \<and> length (oargs x) \<le> 5 \<and> is_int_ty (ty_of m pt (oargs x ! 1))"

definition constructorTag :: "cmodule \<Rightarrow> param_types \<Rightarrow> irop list \<Rightarrow> int option" where
  "constructorTag m pt ctors = (case ctors of
     [x] \<Rightarrow> if \<not> takesTopologyTag m pt x then None
            else (case const_of m (oargs x ! 1) of Some (CInt s w i) \<Rightarrow> Some (sext w i) | _ \<Rightarrow> None)
   | _ \<Rightarrow> None)"

section \<open>Counted loops\<close>

record counted_loop =
  cl_loop :: irop
  cl_bound :: val
  cl_first :: int
  cl_inclusive :: bool

definition last_op :: "irop list list \<Rightarrow> irop option" where
  "last_op r = (case r of [b] \<Rightarrow> (if b = [] then None else Some (last b)) | _ \<Rightarrow> None)"

definition is_load :: "cmodule \<Rightarrow> val \<Rightarrow> bool" where
  "is_load m v \<longleftrightarrow> load_addr m v \<noteq> None"

text \<open>The loaded counter, the loaded bound and whether the bound counts, of the loop's condition.\<close>

definition loop_cmp :: "cmodule \<Rightarrow> param_types \<Rightarrow> irop list list \<Rightarrow> (val \<times> val \<times> bool) option" where
  "loop_cmp m pt cond = (case last_op cond of None \<Rightarrow> None
     | Some t \<Rightarrow> if okind t \<noteq> KCondition then None
       else (case oargs t of [c] \<Rightarrow> (case def_op m c of None \<Rightarrow> None
           | Some x \<Rightarrow> (case (okind x, oargs x) of
               (KCmp k, [l, r]) \<Rightarrow>
                 (if \<not> is_int_ty (ty_of m pt l) then None
                  else if \<not> is_load m l \<or> \<not> is_load m r then None
                  else case k of Cle \<Rightarrow> Some (l, r, True) | Clt \<Rightarrow> Some (l, r, False)
                    | Cge \<Rightarrow> Some (r, l, True) | Cgt \<Rightarrow> Some (r, l, False) | _ \<Rightarrow> None)
             | _ \<Rightarrow> None))
         | _ \<Rightarrow> None))"

definition adds_one :: "cmodule \<Rightarrow> val \<Rightarrow> val \<Rightarrow> bool" where
  "adds_one m slot v = (case def_op m v of None \<Rightarrow> False
     | Some x \<Rightarrow> (case (okind x, oargs x) of
         (KInc, [i]) \<Rightarrow> load_addr m i = Some slot
       | (KAdd, [l, r]) \<Rightarrow> (case const_of m r of Some (CInt s w i) \<Rightarrow> sext w i = 1 | _ \<Rightarrow> False) \<and> load_addr m l = Some slot
       | _ \<Rightarrow> False))"

fun count_steps :: "cmodule \<Rightarrow> val \<Rightarrow> irop \<Rightarrow> irop list \<Rightarrow> nat option" where
  "count_steps m slot loop [] = Some 0"
| "count_steps m slot loop (u # us) =
     (if is_read u then count_steps m slot loop us
      else if store_addr u \<noteq> Some slot then None
      else if u \<notin> set (walk loop) then count_steps m slot loop us
      else if u \<notin> set (walk_region (regs loop ! 2)) then None
      else if \<not> (case store_value u of Some v \<Rightarrow> adds_one m slot v | None \<Rightarrow> False) then None
      else map_option Suc (count_steps m slot loop us))"

text \<open>The operations before the loop in its block, nearest first.\<close>

definition prev_nodes :: "cmodule \<Rightarrow> irop \<Rightarrow> irop list" where
  "prev_nodes m x = (case getBlock m (oid x) of None \<Rightarrow> []
     | Some b \<Rightarrow> rev (takeWhile (\<lambda>y. oid y \<noteq> oid x) b))"

fun start_value :: "cmodule \<Rightarrow> val \<Rightarrow> irop list \<Rightarrow> int option" where
  "start_value m slot [] = None"
| "start_value m slot (x # xs) =
     (if store_addr x = Some slot
      then (case Option.bind (store_value x) (const_of m) of Some (CInt s w i) \<Rightarrow> Some (sext w i) | _ \<Rightarrow> None)
      else if list_ex (\<lambda>y. store_addr y = Some slot) (walk x) then None
      else start_value m slot xs)"

definition countedLoop :: "cmodule \<Rightarrow> param_types \<Rightarrow> irop \<Rightarrow> counted_loop option" where
  "countedLoop m pt loop = (case loop_cmp m pt (regs loop ! 0) of None \<Rightarrow> None
     | Some (ind, bound, incl) \<Rightarrow> (case (load_addr m ind, load_addr m bound) of
         (Some slot, Some b) \<Rightarrow>
           (if \<not> is_alloca m slot then None
            else if b = slot \<or> \<not> (get_global m b \<noteq> None \<or> is_alloca m b) then None
            else if count_steps m slot loop (users m slot) \<noteq> Some 1 then None
            else map_option (\<lambda>i. \<lparr>cl_loop = loop, cl_bound = bound, cl_first = i, cl_inclusive = incl\<rparr>)
                   (start_value m slot (prev_nodes m loop)))
       | _ \<Rightarrow> None))"

text \<open>Whether a queue is single on both sides once its counted loops run once, from its root's attributes.\<close>

definition spscWhenLoopsRunOnce :: "topology option \<Rightarrow> bool \<Rightarrow> bool \<Rightarrow> bool" where
  "spscWhenLoopsRunOnce t producers_loop consumers_loop = (case t of None \<Rightarrow> False
     | Some tv \<Rightarrow>
        (let manyProducers = tv = mpscT \<or> tv = mpmcT; manyConsumers = tv = spmcT \<or> tv = mpmcT
         in if tv = unknownT then False
            else (\<not> manyProducers \<or> producers_loop) \<and> (\<not> manyConsumers \<or> consumers_loop)))"

end
