(* ===== verification/Trace_Correct.thy ===== *)
theory Trace_Correct
  imports Cir_Trace
begin

text \<open>
  What the walks of Cir_Trace promise: on a module whose operations are numbered in the order they
  stand in, with operands defined before their uses, the loops that follow casts and slots end, in a
  value neither can follow further; and an address found not to escape is only read, written
  through, and stepped from.
\<close>

section \<open>Modules in order\<close>

fun root_id :: "val \<Rightarrow> nat" where
  "root_id (Res n i) = Suc n"
| "root_id (UCast t v) = root_id v"
| "root_id v = 0"

definition in_order :: "cmodule \<Rightarrow> bool" where
  "in_order m \<longleftrightarrow> sorted_wrt (<) (map oid (all_ops m))
     \<and> list_all (\<lambda>x. list_all (\<lambda>v. root_id v \<le> oid x) (oargs x)) (all_ops m)"

lemma in_order_operand: "in_order m \<Longrightarrow> x \<in> set (all_ops m) \<Longrightarrow> v \<in> set (oargs x) \<Longrightarrow> root_id v \<le> oid x"
  by (auto simp: in_order_def list_all_iff)

lemma in_order_inj: "in_order m \<Longrightarrow> x \<in> set (all_ops m) \<Longrightarrow> y \<in> set (all_ops m) \<Longrightarrow> oid x = oid y \<Longrightarrow> x = y"
proof -
  assume a: "in_order m" "x \<in> set (all_ops m)" "y \<in> set (all_ops m)" "oid x = oid y"
  have "distinct (map oid (all_ops m))"
    using a(1) strict_sorted_iff unfolding in_order_def by blast
  then show "x = y" using a(2-4) by (auto simp: distinct_map inj_on_def)
qed

lemma def_op_Res: "def_op m (Res n i) = Some x \<Longrightarrow> x \<in> set (all_ops m) \<and> oid x = n"
  by (auto dest: find_SomeE)

lemma local_step_def_op:
  assumes "local_step m v = Some w"
  obtains x where "def_op m v = Some x" "w \<in> set (oargs x)"
  using assms by (auto simp: local_step_def split: option.splits opkind.splits list.splits if_splits)

lemma local_step_decreases:
  assumes "in_order m" and "local_step m v = Some w"
  shows "((root_id w, size w), (root_id v, size v)) \<in> less_than <*lex*> less_than"
proof -
  obtain x where x: "def_op m v = Some x" "w \<in> set (oargs x)" using local_step_def_op [OF assms(2)] .
  show ?thesis
  proof (cases v)
    case (Res n i)
    then have "x \<in> set (all_ops m)" "oid x = n" using x(1) def_op_Res by blast+
    then have "root_id w \<le> n" using in_order_operand assms(1) x(2) by blast
    then show ?thesis using Res by simp
  qed (use x in auto)
qed

lemma trace_local_ends:
  assumes "in_order m"
  shows "\<exists>r. trace_local m v = Some r \<and> local_step m r = None \<and> root_id r \<le> root_id v"
proof -
  let ?R = "inv_image (less_than <*lex*> less_than) (\<lambda>v::val. (root_id v, size v))"
  let ?b = "\<lambda>v. local_step m v \<noteq> None" let ?c = "\<lambda>v. the (local_step m v)"
  have dec: "(?c s, s) \<in> ?R" if "?b s" for s
    using that local_step_decreases [OF assms] by (auto simp: in_inv_image)
  have wf: "wf {(t, s). (True \<and> ?b s) \<and> t = ?c s}"
  proof (rule wf_subset)
    show "wf ?R" by (simp add: wf_lex_prod)
    show "{(t, s). (True \<and> ?b s) \<and> t = ?c s} \<subseteq> ?R" using dec by blast
  qed
  obtain r where r: "trace_local m v = Some r"
    using wf_while_option_Some [where P = "\<lambda>_. True" and b = ?b and c = ?c and s = v] wf
    unfolding trace_local_def by auto
  have "\<not> ?b r" using r while_option_stop unfolding trace_local_def by fast
  moreover have "root_id r \<le> root_id v"
  proof -
    have step: "root_id (?c s) \<le> root_id v" if "root_id s \<le> root_id v" "?b s" for s
      using dec [OF that(2)] that(1) by (auto simp: in_inv_image)
    show ?thesis
      by (rule while_option_rule [where P = "\<lambda>s. root_id s \<le> root_id v" and b = ?b and c = ?c and s = v])
        (use step r [unfolded trace_local_def] in auto)
  qed
  ultimately show ?thesis using r by simp
qed

lemma local_root:
  assumes "in_order m"
  shows "local_step m (traceToLocalRoot m v) = None" and "root_id (traceToLocalRoot m v) \<le> root_id v"
  using trace_local_ends [OF assms, of v] by (auto simp: traceToLocalRoot_def)

lemma local_root_fixed: "local_step m v = None \<Longrightarrow> traceToLocalRoot m v = v"
  by (simp add: traceToLocalRoot_def trace_local_def while_option_unfold)

section \<open>Blocks\<close>

lemma walk_self: "x \<in> set (walk x)"
  by (cases x) simp

lemma walk_region_block: "b \<in> set r \<Longrightarrow> \<exists>p q. walk_region r = p @ concat (map walk b) @ q"
proof -
  assume "b \<in> set r"
  then obtain r1 r2 where "r = r1 @ b # r2" by (meson split_list)
  then show ?thesis by (auto simp: walk_region_def)
qed

lemma walk_regs: "walk x = x # concat (map walk_region (regs x))"
  by (cases x) (simp add: walk_region_def [abs_def])

lemma concat_map_part: "x \<in> set xs \<Longrightarrow> \<exists>p q. concat (map f xs) = p @ f x @ q"
proof -
  assume "x \<in> set xs"
  then obtain xs1 xs2 where "xs = xs1 @ x # xs2" by (meson split_list)
  then show ?thesis by auto
qed

lemma walk_block:
  assumes "b \<in> set (concat (regs x))"
  shows "\<exists>p q. walk x = p @ concat (map walk b) @ q"
proof -
  from assms obtain r where r: "r \<in> set (regs x)" "b \<in> set r" by auto
  obtain p q where 1: "concat (map walk_region (regs x)) = p @ walk_region r @ q"
    using concat_map_part [OF r(1), of walk_region] by blast
  obtain p' q' where 2: "walk_region r = p' @ concat (map walk b) @ q'" using walk_region_block [OF r(2)] by blast
  have "walk x = (x # p @ p') @ concat (map walk b) @ (q' @ q)" unfolding walk_regs 1 2 by simp
  then show ?thesis by blast
qed

lemma walk_inside: "y \<in> set (walk x) \<Longrightarrow> \<exists>p q. walk x = p @ walk y @ q"
proof (induction x rule: walk.induct)
  case (1 n k vs ts rs)
  let ?x = "IrOp n k vs ts rs"
  show ?case
  proof (cases "y = ?x")
    case True
    then have "walk ?x = [] @ walk y @ []" by simp
    then show ?thesis by blast
  next
    case False
    then obtain r b z where z: "r \<in> set rs" "b \<in> set r" "z \<in> set b" "y \<in> set (walk z)"
      using 1(2) by auto
    obtain p q where a: "walk z = p @ walk y @ q" using 1(1) [OF z(1-3)] z(4) by blast
    obtain p' q' where b: "concat (map walk b) = p' @ walk z @ q'" using concat_map_part [OF z(3)] by blast
    obtain p'' q'' where c: "walk ?x = p'' @ concat (map walk b) @ q''"
      using walk_block [of b ?x] z by auto
    have "walk ?x = (p'' @ p' @ p) @ walk y @ (q @ q' @ q'')" unfolding c b a by simp
    then show ?thesis by blast
  qed
qed

lemma all_ops_part:
  assumes "x \<in> set (all_ops m)"
  shows "\<exists>p q. all_ops m = p @ walk x @ q"
proof -
  from assms obtain f r z where z: "f \<in> set (funcs m)" "r \<in> set (body f)" "z \<in> set r" "x \<in> set (walk z)"
    unfolding all_ops_def walk_region_def by auto
  obtain p q where a: "walk z = p @ walk x @ q" using walk_inside [OF z(4)] by blast
  obtain p1 q1 where b: "concat (map walk r) = p1 @ walk z @ q1" using concat_map_part [OF z(3)] by blast
  obtain p2 q2 where c: "walk_region (body f) = p2 @ concat (map walk r) @ q2" using walk_region_block [OF z(2)] by blast
  obtain p3 q3 where d: "all_ops m = p3 @ walk_region (body f) @ q3"
    using concat_map_part [OF z(1), of "\<lambda>f. walk_region (body f)"] unfolding all_ops_def by blast
  have "all_ops m = (p3 @ p2 @ p1 @ p) @ walk x @ (q @ q1 @ q2 @ q3)" unfolding d c b a by simp
  then show ?thesis by blast
qed

lemma block_part:
  assumes "b \<in> set (all_blocks m)"
  shows "\<exists>p q. all_ops m = p @ concat (map walk b) @ q"
proof -
  consider f where "f \<in> set (funcs m)" "b \<in> set (body f)" | x where "x \<in> set (all_ops m)" "b \<in> set (concat (regs x))"
    using assms by (auto simp: all_blocks_def)
  then show ?thesis
  proof cases
    case 1
    obtain p q where c: "walk_region (body f) = p @ concat (map walk b) @ q" using walk_region_block [OF 1(2)] by blast
    obtain p3 q3 where d: "all_ops m = p3 @ walk_region (body f) @ q3"
      using concat_map_part [OF 1(1), of "\<lambda>f. walk_region (body f)"] unfolding all_ops_def by blast
    have "all_ops m = (p3 @ p) @ concat (map walk b) @ (q @ q3)" unfolding d c by simp
    then show ?thesis by blast
  next
    case 2
    obtain p q where c: "walk x = p @ concat (map walk b) @ q" using walk_block [OF 2(2)] by blast
    obtain p3 q3 where d: "all_ops m = p3 @ walk x @ q3" using all_ops_part [OF 2(1)] by blast
    have "all_ops m = (p3 @ p) @ concat (map walk b) @ (q @ q3)" unfolding d c by simp
    then show ?thesis by blast
  qed
qed

lemma block_ops: "b \<in> set (all_blocks m) \<Longrightarrow> x \<in> set b \<Longrightarrow> set (walk x) \<subseteq> set (all_ops m)"
  using block_part [of b m] by fastforce

lemma before_in_block:
  assumes o: "in_order m" and b: "b \<in> set (all_blocks m)" and x: "x \<in> set b" and y: "y \<in> set b"
    and bf: "isBeforeInBlock b x y" and s: "s \<in> set (walk x)" and t: "t \<in> set (walk y)"
  shows "oid s < oid t"
proof -
  obtain b1 z b2 where eq: "b = b1 @ z # b2" and z: "oid z = oid x" and n: "\<forall>w\<in>set b1. oid w \<noteq> oid x"
    using x by (metis split_list_first_prop [where P = "\<lambda>w. oid w = oid x"])
  have "tl (dropWhile (\<lambda>w. oid w \<noteq> oid x) b) = b2"
    unfolding eq using z n by (simp add: dropWhile_append2)
  then obtain y' where y': "y' \<in> set b2" "oid y' = oid y" using bf unfolding isBeforeInBlock_def by auto
  have inb: "w \<in> set (all_ops m)" if "w \<in> set b" for w using block_ops [OF b that] walk_self by blast
  have "z = x" using in_order_inj [OF o] inb x z eq by auto
  moreover have "y' = y" using in_order_inj [OF o] inb y y' eq by auto
  ultimately obtain b3 b4 where eq': "b = b1 @ x # b3 @ y # b4" using eq y'(1) by (metis split_list)
  obtain p q where ops: "all_ops m = p @ concat (map walk b) @ q" using block_part [OF b] by blast
  have "sorted_wrt (<) (map oid (p @ concat (map walk b1) @ walk x @ concat (map walk b3) @ walk y @ concat (map walk b4) @ q))"
    using o unfolding in_order_def ops eq' by simp
  then show ?thesis using s t by (auto simp: sorted_wrt_append)
qed

section \<open>The one store runs before the load\<close>

lemma getBlock_Some: "getBlock m n = Some b \<Longrightarrow> b \<in> set (all_blocks m) \<and> (\<exists>x\<in>set b. oid x = n)"
  unfolding getBlock_def by (auto dest!: find_SomeE)

lemma getParentOp_walk:
  assumes o: "in_order m" and x: "x \<in> set (all_ops m)" and p: "getParentOp m (oid x) = Some p"
  shows "p \<in> set (all_ops m) \<and> x \<in> set (walk p) \<and> oid p < oid x"
proof -
  have p1: "p \<in> set (all_ops m)" and "\<exists>b\<in>set (concat (regs p)). oid x \<in> set (map oid b)"
    using find_SomeE [OF p [unfolded getParentOp_def]] by (auto simp: list_ex_iff)
  then obtain b where "b \<in> set (concat (regs p))" "oid x \<in> oid ` set b" by auto
  then obtain y where b: "b \<in> set (concat (regs p))" "y \<in> set b" "oid y = oid x" by (metis imageE)
  obtain p' q' where w: "walk p = p' @ concat (map walk b) @ q'" using walk_block [OF b(1)] by blast
  have yw: "y \<in> set (concat (map walk b))" using b(2) walk_self by auto
  obtain p2 q2 where ao: "all_ops m = p2 @ walk p @ q2" using all_ops_part [OF p1] by blast
  have "y = x" using in_order_inj [OF o _ x] b(3) yw unfolding ao w by auto
  moreover have "y \<in> set (concat (map walk_region (regs p)))"
    using b(1,2) walk_self by (fastforce simp: walk_region_def)
  moreover have "sorted_wrt (<) (map oid (walk p))"
    using o unfolding in_order_def ao by (simp add: sorted_wrt_append)
  ultimately show ?thesis using p1 yw unfolding w [symmetric] by (auto simp: walk_regs [of p])
qed

definition chain_inv :: "cmodule \<Rightarrow> irop \<Rightarrow> chain \<Rightarrow> bool" where
  "chain_inv m st s = (case s of None \<Rightarrow> True
     | Some (x, ch) \<Rightarrow> \<forall>c\<in>set (ch @ [x]). c \<in> set (all_ops m) \<and> st \<in> set (walk c))"

lemma walk_trans: "x \<in> set (walk y) \<Longrightarrow> y \<in> set (walk z) \<Longrightarrow> x \<in> set (walk z)"
  using walk_inside by fastforce

lemma chain_up_inv:
  assumes "in_order m" and "chain_inv m st s" and "chain_on m topb s"
  shows "chain_inv m st (chain_up m s)"
proof -
  obtain x ch where s: "s = Some (x, ch)" using assms(3) by (auto simp: chain_on_def split: option.splits)
  show ?thesis
  proof (cases "getParentOp m (oid x)")
    case (Some p)
    then have "p \<in> set (all_ops m)" "x \<in> set (walk p)"
      using getParentOp_walk [OF assms(1) _ Some] assms(2) s by (auto simp: chain_inv_def)
    then show ?thesis using assms(2) s Some by (auto simp: chain_inv_def chain_up_def intro: walk_trans)
  qed (simp add: s chain_up_def chain_inv_def)
qed

lemma dominates_in_order:
  assumes "in_order m" and "\<forall>c\<in>set cs. c \<in> set (all_ops m) \<and> st \<in> set (walk c)"
    and "dominates_in m ld cs" and "ld \<in> set (all_ops m)"
  shows "oid st < oid ld"
  using assms(2,3)
proof (induction cs)
  case (Cons c cs)
  from Cons(3) obtain b anc where b: "getBlock m (oid c) = Some b" "findAncestorOpInBlock b ld = Some anc"
    and d: "if oid anc \<noteq> oid c then isBeforeInBlock b c anc else dominates_in m ld cs"
    by (auto split: option.splits)
  show ?case
  proof (cases "oid anc = oid c")
    case False
    have bb: "b \<in> set (all_blocks m)" using getBlock_Some [OF b(1)] by blast
    have inb: "w \<in> set (all_ops m)" if "w \<in> set (walk v)" "v \<in> set b" for v w
      using block_ops [OF bb that(2)] that(1) by blast
    have c: "c \<in> set b" using getBlock_Some [OF b(1)] in_order_inj [OF assms(1)] inb walk_self Cons(2)
      by (metis list.set_intros(1))
    have anc: "anc \<in> set b" and "oid ld \<in> oid ` set (walk anc)"
      using find_SomeE [OF b(2) [unfolded findAncestorOpInBlock_def]] by auto
    then have "ld \<in> set (walk anc)" using in_order_inj [OF assms(1) assms(4)] inb by (metis imageE)
    then show ?thesis using before_in_block [OF assms(1) bb c anc _ _ ] d False Cons(2) by auto
  qed (use d Cons in auto)
qed simp

lemma storeDominatesLoad_order:
  assumes "in_order m" and "st \<in> set (all_ops m)" and "ld \<in> set (all_ops m)" and "storeDominatesLoad m st ld topb"
  shows "oid st < oid ld"
proof -
  obtain x ch where w: "while_option (chain_on m topb) (chain_up m) (Some (st, [])) = Some (Some (x, ch))"
    and d: "dominates_in m ld (rev (ch @ [x]))"
    using assms(4) unfolding storeDominatesLoad_def by (auto split: option.splits)
  have "chain_inv m st (Some (x, ch))"
    using while_option_rule [where P = "chain_inv m st", OF chain_up_inv [OF assms(1)] w] assms(2) walk_self
    by (auto simp: chain_inv_def)
  then show ?thesis using dominates_in_order [OF assms(1) _ d assms(3), of st] by (auto simp: chain_inv_def)
qed

section \<open>Slots\<close>

lemma scan_slot_result:
  assumes "scan_slot m a st lds us = Some (Some s, ls)"
  shows "(s \<in> set us \<and> store_addr s = Some a \<or> st = Some s)
    \<and> (\<forall>l\<in>set us. (\<exists>k. okind l = KLoad k) \<longrightarrow> l \<in> set ls) \<and> set lds \<subseteq> set ls"
  using assms
proof (induction m a st lds us rule: scan_slot.induct)
  case (2 m a st lds u us)
  show ?case
  proof (cases "okind u = KStore")
    case True
    then show ?thesis using 2 by (auto split: if_splits option.splits)
  next
    case False
    then show ?thesis using 2 by (cases "okind u") (auto split: if_splits)
  qed
qed auto

lemma store_addr_kind: "store_addr s = Some a \<Longrightarrow> okind s = KStore \<and> a \<in> set (oargs s) \<and> (\<exists>v. store_value s = Some v \<and> v \<in> set (oargs s))"
  by (cases s rule: store_addr.cases) auto

lemma using_ops_real: "x \<in> set (using_ops m) \<Longrightarrow> okind x \<noteq> KUcc \<Longrightarrow> x \<in> set (all_ops m)"
proof -
  have "okind y = KUcc" if "y \<in> set (ucast_ops v)" for y v using that by (induction v) auto
  then show "x \<in> set (using_ops m) \<Longrightarrow> okind x \<noteq> KUcc \<Longrightarrow> x \<in> set (all_ops m)"
    by (auto simp: using_ops_def)
qed

lemma load_addr_op:
  assumes "load_addr m v = Some a"
  obtains x k where "def_op m v = Some x" "okind x = KLoad k" "oargs x = [a]" "x \<in> set (all_ops m)" "root_id v = Suc (oid x)"
proof -
  obtain x where d: "def_op m v = Some x" using assms by (cases "def_op m v") (auto simp: load_addr_def)
  obtain k where k: "okind x = KLoad k" using assms d by (cases "okind x") (auto simp: load_addr_def)
  have "oargs x = [a]" using assms d k by (auto simp: load_addr_def split: list.splits)
  note x = d k this
  have "x \<in> set (all_ops m) \<and> root_id v = Suc (oid x)"
  proof (cases v)
    case (Res n i)
    then have "x \<in> set (all_ops m) \<and> oid x = n" using x(1) def_op_Res by blast
    then show ?thesis using Res by simp
  next
    case (UCast t w)
    then show ?thesis using x(1,2) by auto
  qed (use x(1) in simp_all)
  then show ?thesis using that x by blast
qed

lemma root_step_decreases:
  assumes "in_order m" and "root_step m v = Some w"
  shows "root_id w < root_id v"
proof -
  let ?l = "traceToLocalRoot m v"
  obtain a where a: "load_addr m ?l = Some a" "singleStoredValue m a = Some w"
    using assms(2) by (auto simp: root_step_def split: option.splits if_splits)
  obtain x k where x: "okind x = KLoad k" "oargs x = [a]" "x \<in> set (all_ops m)" "root_id ?l = Suc (oid x)"
    using load_addr_op [OF a(1)] by metis
  obtain st lds where s: "scan_slot m a None [] (users m a) = Some (Some st, lds)"
    and dom: "\<forall>ld\<in>set lds. storeDominatesLoad m st ld (defining_block m a)" and val: "store_value st = Some w"
    using a(2) by (auto simp: singleStoredValue_def list_all_iff split: option.splits prod.splits if_splits)
  have "x \<in> set (users m a)" using x all_ops_using by (auto simp: set_users)
  then have "x \<in> set lds" using scan_slot_result [OF s] x(1) by blast
  moreover have st: "st \<in> set (users m a)" "store_addr st = Some a" using scan_slot_result [OF s] by auto
  moreover have "st \<in> set (all_ops m)"
    using st using_ops_real store_addr_kind [OF st(2)] by (auto simp: set_users)
  ultimately have "oid st < oid x" using storeDominatesLoad_order [OF assms(1) _ x(3)] dom by blast
  moreover have "root_id w \<le> oid st"
    using in_order_operand [OF assms(1) \<open>st \<in> set (all_ops m)\<close>] val store_addr_kind [OF st(2)] by auto
  moreover have "root_id ?l \<le> root_id v" using local_root [OF assms(1)] by blast
  ultimately show ?thesis using x(4) by linarith
qed

lemma trace_root_ends:
  assumes "in_order m"
  shows "\<exists>r. trace_root m v = Some r \<and> root_step m r = None"
proof -
  let ?b = "\<lambda>v. root_step m v \<noteq> None" let ?c = "\<lambda>v. the (root_step m v)"
  obtain r where r: "trace_root m v = Some r"
    using measure_while_option_Some [where P = "\<lambda>_. True" and b = ?b and c = ?c and f = root_id and s = v]
      root_step_decreases [OF assms] unfolding trace_root_def by auto
  moreover have "\<not> ?b r" using r while_option_stop unfolding trace_root_def by fast
  ultimately show ?thesis by simp
qed

lemma root_step_local:
  assumes "in_order m"
  shows "root_step m (traceToLocalRoot m v) = root_step m v"
  using local_root_fixed [OF local_root(1) [OF assms]] by (simp add: root_step_def)

lemma trace_root_fixed: "root_step m v = None \<Longrightarrow> trace_root m v = Some v"
  by (simp add: trace_root_def while_option_unfold)

text \<open>
  C30: on a module in order, following a value through casts and through slots stored once ends; the
  root it ends in is followed no further by either, and tracing a root again gives it back.
\<close>

theorem trace_ends_in_root:
  assumes "in_order m"
  shows "trace_local m v \<noteq> None \<and> trace_root m v \<noteq> None
    \<and> local_step m (traceToRoot m v) = None \<and> root_step m (traceToRoot m v) = None
    \<and> traceToRoot m (traceToRoot m v) = traceToRoot m v"
proof -
  obtain r where r: "trace_root m v = Some r" "root_step m r = None" using trace_root_ends [OF assms] by blast
  have eq: "traceToRoot m v = traceToLocalRoot m r" by (simp add: traceToRoot_def r)
  have ls: "local_step m (traceToRoot m v) = None" unfolding eq using local_root [OF assms] by blast
  moreover have rs: "root_step m (traceToRoot m v) = None" unfolding eq using root_step_local [OF assms] r by simp
  moreover have "traceToRoot m (traceToRoot m v) = traceToRoot m v"
    using local_root_fixed [OF ls] trace_root_fixed [OF rs] by (simp add: traceToRoot_def [of m "traceToRoot m v"])
  ultimately show ?thesis using trace_local_ends [OF assms, of v] r by auto
qed


definition trace_demo :: cmodule where
  "trace_demo =
    \<lparr>funcs = [\<lparr>sym = ''f'', annots = None,
      body = [[IrOp 1 KAlloca [] [PtrT (PtrT MutexT)] [],
        IrOp 2 KScope [] [] [[[IrOp 3 KStore [Param ''f'' 0, Res 1 0] [] []]]],
        IrOp 4 (KLoad False) [Res 1 0] [PtrT MutexT] [],
        IrOp 5 (KCast bitcast) [Res 4 0] [PtrT VoidT] [],
        IrOp 6 KReturn [] [] []]],
      link = External, aliasee = None, params = 1, fn_arg_attrs = None\<rparr>],
     globals = []\<rparr>"

theorem trace_ends_in_root_witness:
  "traceToRoot trace_demo (Res 5 0) = Param ''f'' 0 \<and> root_step trace_demo (traceToRoot trace_demo (Res 5 0)) = None"
proof
  have "in_order trace_demo" by code_simp
  then show "root_step trace_demo (traceToRoot trace_demo (Res 5 0)) = None"
    using trace_ends_in_root [of trace_demo "Res 5 0"] by blast
  show "traceToRoot trace_demo (Res 5 0) = Param ''f'' 0" by code_simp
qed

section \<open>Addresses that do not escape\<close>

text \<open>The values derived from an address by casts, members, elements and strides.\<close>

inductive derived :: "cmodule \<Rightarrow> val \<Rightarrow> val \<Rightarrow> bool" for m a where
  self: "derived m a a"
| step: "derived m a v \<Longrightarrow> u \<in> set (users m v) \<Longrightarrow> is_step u \<Longrightarrow> derived m a (Res (oid u) 0)"

definition harmless :: "val \<Rightarrow> irop \<Rightarrow> bool" where
  "harmless v u \<longleftrightarrow> is_read u \<or> is_step u \<or> okind u = KStore \<and> store_value u \<noteq> Some v"

text \<open>What the worklist has established of the values it is done with (\<open>D\<close>) and the users it has seen.\<close>

definition worked :: "cmodule \<Rightarrow> val set \<Rightarrow> val set \<Rightarrow> irop list \<Rightarrow> bool" where
  "worked m D W seen \<longleftrightarrow> (\<forall>v\<in>D. \<forall>u\<in>set (users m v). harmless v u \<and> (is_step u \<longrightarrow> Res (oid u) 0 \<in> D \<union> W))
     \<and> (\<forall>u\<in>set seen. (is_read u \<or> is_step u) \<and> (is_step u \<longrightarrow> Res (oid u) 0 \<in> D \<union> W))"

definition seen_ok :: "val set \<Rightarrow> irop \<Rightarrow> bool" where
  "seen_ok X u \<longleftrightarrow> (is_read u \<or> is_step u) \<and> (is_step u \<longrightarrow> Res (oid u) 0 \<in> X)"

lemma seen_ok_mono: "seen_ok X u \<Longrightarrow> X \<subseteq> Y \<Longrightarrow> seen_ok Y u"
  by (auto simp: seen_ok_def)

lemma step_not_store: "is_step u \<Longrightarrow> okind u \<noteq> KStore"
  by (auto simp: is_step_def)

lemma read_not_step: "is_read u \<Longrightarrow> \<not> is_step u"
  by (cases "okind u") (simp_all add: is_read_def is_step_def)

definition uses_done :: "val set \<Rightarrow> val \<Rightarrow> irop list \<Rightarrow> val set \<Rightarrow> val set \<Rightarrow> irop list \<Rightarrow> bool" where
  "uses_done D v us W W' seen' \<longleftrightarrow> W \<subseteq> W' \<and> (\<forall>u\<in>set seen'. seen_ok (D \<union> W') u)
    \<and> (\<forall>u\<in>set us. harmless v u \<and> (is_step u \<longrightarrow> Res (oid u) 0 \<in> D \<union> W'))"

lemma uses_done_Cons:
  assumes "uses_done D v us X W' seen'" and "W \<subseteq> X" and "harmless v u" and "is_step u \<Longrightarrow> Res (oid u) 0 \<in> D \<union> X"
  shows "uses_done D v (u # us) W W' seen'"
  using assms unfolding uses_done_def by auto

lemma scan_uses_result:
  assumes "scan_uses v us work seen = Some (work', seen')" and "\<forall>u\<in>set seen. seen_ok (D \<union> set work) u"
  shows "uses_done D v us (set work) (set work') seen'"
  using assms
proof (induction v us work seen rule: scan_uses.induct)
  case (1 v work seen)
  then show ?case by (simp add: uses_done_def)
next
  case (2 v u us work seen)
  note IH = 2(1-4) and eq = 2(5) and ok = 2(6)
  consider (store) "okind u = KStore" | (seen) "okind u \<noteq> KStore" "u \<in> set seen"
    | (read) "okind u \<noteq> KStore" "u \<notin> set seen" "is_read u"
    | (step) "okind u \<noteq> KStore" "u \<notin> set seen" "\<not> is_read u" "is_step u"
    | (bad) "okind u \<noteq> KStore" "u \<notin> set seen" "\<not> is_read u" "\<not> is_step u"
    by blast
  then show ?case
  proof cases
    case store
    then have n: "store_value u \<noteq> Some v" and r: "scan_uses v us work seen = Some (work', seen')"
      using eq by (auto split: if_splits)
    show ?thesis by (rule uses_done_Cons [OF IH(1) [OF store n r ok] order_refl])
        (use store n step_not_store in \<open>auto simp: harmless_def\<close>)
  next
    case seen
    then have r: "scan_uses v us work seen = Some (work', seen')" using eq by simp
    have s: "seen_ok (D \<union> set work) u" using ok seen by blast
    show ?thesis by (rule uses_done_Cons [OF IH(2) [OF seen r ok] order_refl])
        (use s in \<open>auto simp: harmless_def seen_ok_def\<close>)
  next
    case read
    then have r: "scan_uses v us work (u # seen) = Some (work', seen')" using eq by simp
    have s: "\<forall>w\<in>set (u # seen). seen_ok (D \<union> set work) w"
      using ok read read_not_step by (simp add: seen_ok_def)
    show ?thesis by (rule uses_done_Cons [OF IH(3) [OF read r s] order_refl])
        (use read read_not_step in \<open>auto simp: harmless_def\<close>)
  next
    case step
    then have r: "scan_uses v us (Res (oid u) 0 # work) (u # seen) = Some (work', seen')" using eq by simp
    have s: "\<forall>w\<in>set (u # seen). seen_ok (D \<union> set (Res (oid u) 0 # work)) w"
      using ok step by (simp add: seen_ok_def)
    show ?thesis by (rule uses_done_Cons [OF IH(4) [OF step r s]]) (use step in \<open>auto simp: harmless_def\<close>)
  next
    case bad
    then show ?thesis using eq by simp
  qed
qed

lemma escapes_loop_closed:
  assumes "\<not> escapes_loop m g work seen" and "worked m D (set work) seen"
  shows "\<exists>D'. D \<union> set work \<subseteq> D' \<and> worked m D' {} []"
  using assms
proof (induction m g work seen arbitrary: D rule: escapes_loop.induct)
  case (1 m g seen)
  then show ?case by (auto simp: worked_def)
next
  case (3 m g v work seen)
  from 3(2) obtain work' seen' where s: "scan_uses v (users m v) work seen = Some (work', seen')"
    and r: "\<not> escapes_loop m g work' seen'"
    by (auto split: option.splits)
  have "\<forall>u\<in>set seen. seen_ok (insert v D \<union> set work) u" using 3(3) by (auto simp: worked_def seen_ok_def)
  note res = scan_uses_result [OF s this]
  have "worked m (insert v D) (set work') seen'"
    using 3(3) res unfolding worked_def uses_done_def seen_ok_def by (simp add: subset_iff) blast
  then obtain D' where "insert v D \<union> set work' \<subseteq> D'" "worked m D' {} []"
    using 3(1) [OF s refl r] by blast
  then show ?case using res unfolding uses_done_def by (intro exI [of _ D']) auto
qed auto

text \<open>
  C32: when \<open>addressEscapes\<close> answers no, every operation that uses the slot's address, or a value
  derived from it, reads it, marks its lifetime, steps from it, or stores something else through it.
\<close>

theorem addressEscapes_sound:
  assumes "\<not> addressEscapes m a" and "derived m a v" and "u \<in> set (users m v)"
  shows "is_read u \<or> is_step u \<or> okind u = KStore \<and> store_value u \<noteq> Some v"
proof -
  have "worked m {} (set [a]) []" by (simp add: worked_def)
  then obtain D where D: "a \<in> D" "worked m D {} []"
    using escapes_loop_closed assms(1) unfolding addressEscapes_def by (metis Un_upper2 insert_subset list.simps(15) le_sup_iff)
  have "v \<in> D" using assms(2) by induction (use D in \<open>auto simp: worked_def\<close>)
  then show ?thesis using D assms(3) by (auto simp: worked_def harmless_def)
qed

theorem addressEscapes_sound_witness:
  "\<not> addressEscapes trace_demo (Res 1 0) \<and> derived trace_demo (Res 1 0) (Res 1 0)
    \<and> store_value (IrOp 3 KStore [Param ''f'' 0, Res 1 0] [] []) \<noteq> Some (Res 1 0)"
proof -
  let ?st = "IrOp 3 KStore [Param ''f'' 0, Res 1 0] [] []"
  have n: "\<not> addressEscapes trace_demo (Res 1 0)" by code_simp
  have u: "?st \<in> set (users trace_demo (Res 1 0))" by code_simp
  have "\<not> is_read ?st" "\<not> is_step ?st" by (simp_all add: is_read_def is_step_def)
  then have "store_value ?st \<noteq> Some (Res 1 0)" using addressEscapes_sound [OF n derived.self u] by blast
  then show ?thesis using n derived.self by blast
qed

section \<open>Allocation sites\<close>

definition allocs :: "cmodule \<Rightarrow> irop list \<Rightarrow> bool" where
  "allocs m sites \<longleftrightarrow> distinct sites \<and> (\<forall>x\<in>set sites. \<exists>f. callee_of m x = Some f \<and> isAllocator (Some f))"

lemma fold_keeps: "P s \<Longrightarrow> (\<And>x s. x \<in> set xs \<Longrightarrow> P s \<Longrightarrow> P (f x s)) \<Longrightarrow> P (fold f xs s)"
  by (induction xs arbitrary: s) auto

lemma walk_finds_allocs:
  "allocs m (fst s) \<Longrightarrow> allocs m (fst (returnedValue m v d s))"
  "allocs m (fst s) \<Longrightarrow> allocs m (fst (allocationsBehindImpl m c d s))"
proof (induction m v d s and m c d s rule: returnedValue_allocationsBehindImpl.induct)
  case (1 m v depth sites bad)
  have "allocs m (fst (fold (\<lambda>w s. returnedValue m w (depth + 1) s) (stores_to m a) (sites, bad)))"
    if "\<not> bad" "\<not> depth > 8" "\<not> is_null m (traceToRoot m v)" "call_of m (traceToRoot m v) = None"
      "load_addr m (traceToRoot m v) = Some a" "is_alloca m a \<and> \<not> addressEscapes m a \<and> stores_to m a \<noteq> []" for a
    by (rule fold_keeps [where P = "\<lambda>s. allocs m (fst s)"]) (use 1 that in auto)
  then show ?case using 1 by (auto simp: Let_def split: option.splits)
next
  case (2 m call depth sites bad)
  show ?case
  proof (cases "callee_of m call")
    case (Some f)
    have "allocs m (fst (fold (\<lambda>ret s. if snd s then s
             else case oargs ret of [w] \<Rightarrow> returnedValue m w depth s | _ \<Rightarrow> (fst s, True))
           (returns_of f) (sites, bad)))"
      if "\<not> isAllocator (Some f)" "\<not> (body f = [] \<or> depth > 4)"
      by (rule fold_keeps [where P = "\<lambda>s. allocs m (fst s)"]) (use 2 Some that in \<open>auto split: list.splits\<close>)
    then show ?thesis using 2(2) Some by (auto simp: allocs_def)
  qed (use 2(2) in simp)
qed

text \<open>
  C34: every site the walk names is a call of an allocator, named once; and an alignment it reads
  off a site is positive and fits 32 bits.
\<close>

theorem allocation_sites_allocate:
  "distinct (allocationsBehind m call)
    \<and> (\<forall>x. x \<in> set (allocationsBehind m call) \<longrightarrow> (\<exists>f. callee_of m x = Some f \<and> isAllocator (Some f)))
    \<and> (\<forall>k. allocationAlignment m call = Some k \<longrightarrow> 0 < k \<and> k < 2 ^ 32
         \<and> (\<exists>x. allocationBehind m call = Some x \<and> (\<exists>f. callee_of m x = Some f \<and> isAllocator (Some f))))"
proof (intro conjI allI impI)
  have al: "allocs m (allocationsBehind m call)"
  proof (cases "allocationsBehindImpl m call 0 ([], False)")
    case (Pair sites bad)
    then show ?thesis using walk_finds_allocs(2) [of m "([], False)" call 0]
      by (simp only: allocationsBehind_def Pair) (auto simp: allocs_def)
  qed
  then show "distinct (allocationsBehind m call)" by (simp add: allocs_def)
  show "\<exists>f. callee_of m x = Some f \<and> isAllocator (Some f)" if "x \<in> set (allocationsBehind m call)" for x
    using al that by (auto simp: allocs_def)
  fix k assume k: "allocationAlignment m call = Some k"
  then obtain x where x: "allocationBehind m call = Some x" by (auto simp: allocationAlignment_def split: option.splits)
  then have "x \<in> set (allocationsBehind m call)" by (auto simp: allocationBehind_def split: list.splits)
  then show "\<exists>x. allocationBehind m call = Some x \<and> (\<exists>f. callee_of m x = Some f \<and> isAllocator (Some f))"
    using x al by (auto simp: allocs_def)
  obtain v where "small_const m v = Some k"
    using k x by (cases "okind x") (auto simp: allocationAlignment_def Let_def split: option.splits if_splits)
  then show "0 < k" "k < 2 ^ 32" by (auto simp: small_const_def split: option.splits cattr.splits if_splits)
qed

definition alloc_demo :: cmodule where
  "alloc_demo =
    \<lparr>funcs = [\<lparr>sym = ''memalign'', annots = None, body = [], link = External, aliasee = None, params = 2, fn_arg_attrs = None\<rparr>,
      \<lparr>sym = ''make'', annots = None,
       body = [[IrOp 1 (KConst (CInt False 64 64)) [] [IntT False 64] [],
         IrOp 2 (KCall \<lparr>callee = Some ''memalign'', indirect = None, carg_attrs = None, cnothrow = True\<rparr>)
           [Res 1 0, Res 1 0] [PtrT VoidT] [],
         IrOp 3 KReturn [Res 2 0] [] []]],
       link = External, aliasee = None, params = 0, fn_arg_attrs = None\<rparr>],
     globals = []\<rparr>"

definition alloc_call :: irop where
  "alloc_call = IrOp 9 (KCall \<lparr>callee = Some ''make'', indirect = None, carg_attrs = None, cnothrow = True\<rparr>) [] [PtrT VoidT] []"

theorem allocation_sites_allocate_witness:
  "allocationAlignment alloc_demo alloc_call = Some 64 \<and> (64::nat) < 2 ^ 32
    \<and> (\<exists>x. allocationBehind alloc_demo alloc_call = Some x \<and> (\<exists>f. callee_of alloc_demo x = Some f \<and> isAllocator (Some f)))"
proof -
  have a: "allocationAlignment alloc_demo alloc_call = Some 64" by code_simp
  note all = allocation_sites_allocate [of alloc_demo alloc_call, THEN conjunct2, THEN conjunct2]
  show ?thesis using a spec [OF all, of 64, THEN mp, OF a, THEN conjunct2] by (rule conjI)
qed

end
