(* ===== verification/Wtc_Ops.thy ===== *)
theory Wtc_Ops
  imports Cir_Names
begin

text \<open>
  The operations of the wtc dialect (WTCOps.td, WTCOps.cpp): the checks an operation has to pass
  and the answers it gives about progress, under the implementation recorded on it.

  The operands after the handle are, in order: a push's value and what follows it, a pop's
  \<open>args\<close>, a batch operation's batch and, for a deferred push, its value.
\<close>

section \<open>Verification\<close>

datatype verify_error = NotAFunc string | NotAnnotated string string string | WrongArgs string nat nat
  | NotPointerTo cty cty | Msg string

type_synonym diag = "verify_error option"

definition implementsOperation :: "cfunc \<Rightarrow> string \<Rightarrow> string \<Rightarrow> bool" where
  "implementsOperation f shimAnnotation operation =
     list_ex (\<lambda>name. name = shimAnnotation \<or> starts_with name ''wtc_impl_'' \<and> ends_with name (''_'' @ operation))
       (annot_names f)"

definition verifyFallbackImpl :: "cmodule \<Rightarrow> string option \<Rightarrow> string \<Rightarrow> string \<Rightarrow> nat \<Rightarrow> diag" where
  "verifyFallbackImpl m fb shimAnnotation operation expectedArgs = (case fb of None \<Rightarrow> None
     | Some s \<Rightarrow> (case find_func m s of
         None \<Rightarrow> Some (NotAFunc s)
       | Some f \<Rightarrow>
           if \<not> implementsOperation f shimAnnotation operation then Some (NotAnnotated s shimAnnotation operation)
           else if params f \<noteq> expectedArgs then Some (WrongArgs s (params f) expectedArgs)
           else None))"

definition verifySourceQueueType :: "cty \<Rightarrow> cty option \<Rightarrow> diag" where
  "verifySourceQueueType queue source = (case source of None \<Rightarrow> None
     | Some t \<Rightarrow> (case queue of
         QueueT e \<Rightarrow> if t \<noteq> PtrT e then Some (NotPointerTo t e) else None
       | _ \<Rightarrow> Some (Msg ''the handle is not a queue'')))"

definition getMore :: "wop \<Rightarrow> val list" where
  "getMore w = tl (wargs w)"

definition getPushed :: "wop \<Rightarrow> bool" where
  "getPushed w \<longleftrightarrow> wresult w \<noteq> None"

definition getOut :: "wop \<Rightarrow> val option" where
  "getOut w = (case wargs w of [] \<Rightarrow> None | v # _ \<Rightarrow> Some v)"

definition getTimeout :: "wop \<Rightarrow> bool" where
  "getTimeout w \<longleftrightarrow> length (wargs w) > 1 \<and> \<not> w_batch w"

text \<open>The annotation, the operation and the number of arguments an operation's function must have.\<close>

definition push_expects :: "wop \<Rightarrow> string \<times> string \<times> nat" where
  "push_expects w =
     (if w_batch w then (''wtc_queue_push_batch'', ''push_batch'', 2 + length (getMore w))
      else if w_wait w then (''wtc_queue_push_wait'', ''push_wait'', 2)
      else if w_overrun w then (''wtc_queue_push_overrun'', ''push_overrun'', 2)
      else if getPushed w then (''wtc_queue_try_push'', ''try_push'', 2)
      else (''wtc_queue_push'', ''push'', 2))"

definition pop_expects :: "wop \<Rightarrow> string \<times> string \<times> nat" where
  "pop_expects w =
     (let expectedArgs = 1 + length (wargs w)
      in if w_batch w then (''wtc_queue_pop_batch'', ''pop_batch'', expectedArgs)
         else if w_wait w then
           (if getTimeout w then ''wtc_queue_pop_wait_for'' else ''wtc_queue_pop_wait'',
            if getTimeout w then ''pop_wait_for'' else ''pop_wait'', expectedArgs)
         else (if w_transfer w then ''wtc_queue_try_pop_into'' else ''wtc_queue_try_pop'', ''try_pop'', expectedArgs))"

definition op_expects :: "wop \<Rightarrow> string \<times> string \<times> nat" where
  "op_expects w = (case wk w of
     WLock \<Rightarrow> (''wtc_mutex_lock'', ''lock'', 1)
   | WUnlock \<Rightarrow> (''wtc_mutex_unlock'', ''unlock'', 1)
   | WLockBatchBegin \<Rightarrow> (''wtc_mutex_batch_begin'', ''batch_begin'', 2)
   | WLockBatchStep \<Rightarrow> (''wtc_mutex_batch_step'', ''batch_step'', 2)
   | WLockBatchEnd \<Rightarrow> (''wtc_mutex_batch_end'', ''batch_end'', 2)
   | WPush \<Rightarrow> push_expects w
   | WPop \<Rightarrow> pop_expects w
   | WBatchBegin \<Rightarrow> (''wtc_queue_batch_begin'', ''batch_begin'', 2)
   | WPushDeferred \<Rightarrow> (''wtc_queue_push_deferred'', ''push_deferred'', 3)
   | WBatchEnd \<Rightarrow> (''wtc_queue_batch_end'', ''batch_end'', 2))"

definition verifySymbolUses :: "cmodule \<Rightarrow> wop \<Rightarrow> diag" where
  "verifySymbolUses m w = (case op_expects w of (a, p, n) \<Rightarrow> verifyFallbackImpl m (fallback_impl w) a p n)"

definition verify_push :: "wop \<Rightarrow> diag" where
  "verify_push w =
     (if w_batch w then
        (if \<not> w_bounded w \<or> \<not> w_wait w \<or> w_overrun w \<or> \<not> getPushed w
         then Some (Msg ''a batch waits while a bounded queue is full and answers how many it appended'')
         else verifySourceQueueType (whandle_ty w) (source_type w))
      else if getMore w \<noteq> [] then Some (Msg ''takes operands after the value only as a batch'')
      else let forms = (if w_wait w then 1 else 0) + (if w_overrun w then 1 else 0) + (if getPushed w then 1 else (0::nat))
        in if forms > 1 then Some (Msg ''is at most one of a waiting push, an overrunning push and a try_push'')
           else if forms \<noteq> 0 \<and> \<not> w_bounded w
           then Some (Msg ''waits, overruns or may decline only on a bounded queue'')
           else verifySourceQueueType (whandle_ty w) (source_type w))"

definition verify_pop :: "wop \<Rightarrow> diag" where
  "verify_pop w =
     (let hasOut = getOut w \<noteq> None; hasValue = wresult w \<noteq> None
      in if w_batch w \<and> (\<not> w_wait w \<or> \<not> w_transfer w \<or> \<not> w_bounded w)
         then Some (Msg ''a batch is a waiting transfer from a bounded queue'')
         else if length (wargs w) > 2 \<and> \<not> w_batch w then Some (Msg ''takes at most an `out` operand and a `timeout`'')
         else if getTimeout w \<and> \<not> w_wait w then Some (Msg ''only a waiting pop takes a `timeout`'')
         else if w_wait w \<and> \<not> w_transfer w
         then Some (Msg ''a waiting pop moves the element into its `out` operand: it must be a transfer'')
         else if w_transfer w \<and> \<not> hasOut then Some (Msg ''a transfer pop moves the element into its `out` operand'')
         else if \<not> w_transfer w \<and> hasOut = hasValue
         then Some (Msg ''needs exactly one of an `out` operand or a result'')
         else verifySourceQueueType (whandle_ty w) (source_type w))"

definition verify_op :: "wop \<Rightarrow> diag" where
  "verify_op w = (case wk w of
     WPush \<Rightarrow> verify_push w
   | WPop \<Rightarrow> verify_pop w
   | WBatchBegin \<Rightarrow> verifySourceQueueType (whandle_ty w) (source_type w)
   | WPushDeferred \<Rightarrow> verifySourceQueueType (whandle_ty w) (source_type w)
   | WBatchEnd \<Rightarrow> verifySourceQueueType (whandle_ty w) (source_type w)
   | _ \<Rightarrow> None)"

section \<open>Progress\<close>

text \<open>The order of the guarantees: blocking is the least, wait-free the greatest.\<close>

fun progress_rank :: "progress \<Rightarrow> nat" where
  "progress_rank blocking = 0"
| "progress_rank lock_free = 1"
| "progress_rank wait_free = 2"

instantiation progress :: linorder
begin

definition less_eq_progress :: "progress \<Rightarrow> progress \<Rightarrow> bool" where
  "less_eq_progress p q \<longleftrightarrow> progress_rank p \<le> progress_rank q"

definition less_progress :: "progress \<Rightarrow> progress \<Rightarrow> bool" where
  "less_progress p q \<longleftrightarrow> progress_rank p < progress_rank q"

instance
proof
  fix p q :: progress
  show "p \<le> q \<Longrightarrow> q \<le> p \<Longrightarrow> p = q"
    by (cases p; cases q) (simp_all add: less_eq_progress_def)
qed (auto simp: less_eq_progress_def less_progress_def)

end

definition implOf :: "impl option \<Rightarrow> impl" where
  "implOf i = (case i of None \<Rightarrow> generic | Some k \<Rightarrow> k)"

definition segmented :: "impl \<Rightarrow> bool" where
  "segmented i \<longleftrightarrow> i = generic \<or> i = mpsc"

definition push_progress :: "wop \<Rightarrow> progress" where
  "push_progress w = (if w_bounded w then blocking else if segmented (implOf (wimpl w)) then lock_free else wait_free)"

definition pop_progress :: "wop \<Rightarrow> progress" where
  "pop_progress w =
     (if w_wait w \<or> w_bounded w then blocking
      else case implOf (wimpl w) of generic \<Rightarrow> blocking | spmc \<Rightarrow> lock_free | _ \<Rightarrow> wait_free)"

definition getProgress :: "wop \<Rightarrow> progress" where
  "getProgress w = (case wk w of
     WPush \<Rightarrow> push_progress w
   | WPop \<Rightarrow> pop_progress w
   | WBatchBegin \<Rightarrow> wait_free
   | WPushDeferred \<Rightarrow> if segmented (implOf (wimpl w)) then lock_free else wait_free
   | WBatchEnd \<Rightarrow> if segmented (implOf (wimpl w)) then lock_free else wait_free
   | _ \<Rightarrow> blocking)"

definition pop_allocates :: "wop \<Rightarrow> bool" where
  "pop_allocates w =
     (if w_bounded w then \<not> w_transfer w
      else let i = implOf (wimpl w)
        in if w_transfer w then segmented i \<or> i = spmc else i \<noteq> spsc_inline)"

definition mayCallAllocator :: "wop \<Rightarrow> bool" where
  "mayCallAllocator w = (case wk w of
     WPush \<Rightarrow> \<not> w_bounded w
   | WPop \<Rightarrow> pop_allocates w
   | WPushDeferred \<Rightarrow> True
   | WBatchEnd \<Rightarrow> segmented (implOf (wimpl w))
   | _ \<Rightarrow> False)"

definition push_reason :: "wop \<Rightarrow> string" where
  "push_reason w =
     (if w_bounded w then
        (let why = ''may wait for the pop that last held its cell to finish moving the item out''
         in if w_wait w then ''waits while the queue is full, as its wait policy says; and '' @ why else why)
      else if implOf (wimpl w) = spsc \<or> implOf (wimpl w) = spsc_inline
      then ''allocates a new block when the current one is full: the queue is unbounded''
      else ''allocates a new segment when the current one is full: the queue is unbounded'')"

definition bounded_pop_reason :: "wop \<Rightarrow> string" where
  "bounded_pop_reason w =
     (let why = ''may wait for the push that took its cell to fill it''
      in if w_wait w then
           (if getTimeout w then ''waits for a push, for the queue to be closed, or for its time limit''
            else ''waits for a push or for the queue to be closed'') @ '', as its wait policy says; and '' @ why
         else why)"

definition waiting_pop_reason :: "wop \<Rightarrow> string" where
  "waiting_pop_reason w =
     (let why = (if getTimeout w
        then ''waits for a push, for the queue to be closed, or for its time limit, as its wait policy says: spinning, or asleep in the kernel''
        else ''waits for a push or for the queue to be closed, as its wait policy says: spinning, or asleep in the kernel'')
      in case implOf (wimpl w) of
           generic \<Rightarrow> why @ ''; and frees the segments it moves past''
         | mpsc \<Rightarrow> why @ ''; and frees the segments it moves past, and may allocate to note the cells it passes that a push has taken and not filled''
         | spmc \<Rightarrow> why @ ''; and frees the segments it moves past''
         | _ \<Rightarrow> why)"

definition try_pop_reason :: "wop \<Rightarrow> string" where
  "try_pop_reason w =
     (let shares = \<not> w_transfer w;
          shared = (if shares then '', and allocates the shared_ptr it returns'' else [])
      in case implOf (wimpl w) of
           generic \<Rightarrow> ''waits for a push that has taken the cell it reads to fill it, and frees the segments it moves past'' @ shared
         | mpsc \<Rightarrow> ''frees the segments it moves past, and may allocate to note the cells it passes that a push has taken and not filled'' @ shared
         | spmc \<Rightarrow> ''frees the segments it moves past'' @ shared
         | spsc \<Rightarrow> if shares then ''allocates the shared_ptr it returns'' else []
         | spsc_inline \<Rightarrow> [])"

definition pop_reason :: "wop \<Rightarrow> string" where
  "pop_reason w = (if w_bounded w then bounded_pop_reason w else if w_wait w then waiting_pop_reason w else try_pop_reason w)"

definition deferred_reason :: "wop \<Rightarrow> string" where
  "deferred_reason w =
     (if implOf (wimpl w) = spsc \<or> implOf (wimpl w) = spsc_inline
      then ''allocates a new block when the current one is full: the queue is unbounded''
      else if implOf (wimpl w) = spmc
      then ''allocates a new segment when the current one is full: the queue is unbounded''
      else ''allocates a new segment when it publishes into a full one: the queue is unbounded'')"

definition getBlockingReason :: "wop \<Rightarrow> string" where
  "getBlockingReason w = (case wk w of
     WLock \<Rightarrow> ''takes a mutex''
   | WUnlock \<Rightarrow> ''releases a mutex, which is half of a blocking protocol''
   | WLockBatchBegin \<Rightarrow> ''takes a mutex''
   | WLockBatchStep \<Rightarrow> ''lets a mutex go and takes it again every WTC_LOCK_BATCH_K sections''
   | WLockBatchEnd \<Rightarrow> ''releases a mutex, which is half of a blocking protocol''
   | WPush \<Rightarrow> push_reason w
   | WPop \<Rightarrow> pop_reason w
   | WBatchBegin \<Rightarrow> []
   | WPushDeferred \<Rightarrow> deferred_reason w
   | WBatchEnd \<Rightarrow> if segmented (implOf (wimpl w))
       then ''allocates a new segment when it publishes the run into a full one'' else [])"

section \<open>What the answers promise\<close>

lemmas progress_defs = getProgress_def push_progress_def pop_progress_def mayCallAllocator_def pop_allocates_def
  implOf_def segmented_def Let_def

lemmas reason_defs = getBlockingReason_def push_reason_def pop_reason_def bounded_pop_reason_def waiting_pop_reason_def
  try_pop_reason_def deferred_reason_def

text \<open>
  C16: an operation gives a reason for blocking exactly when its algorithm blocks or it may call the
  allocator; and read without an implementation it promises no more progress, and admits the
  allocator no less, than under any implementation.
\<close>

theorem progress_answers_sound:
  "(getBlockingReason w \<noteq> [] \<longleftrightarrow> getProgress w = blocking \<or> mayCallAllocator w)
   \<and> getProgress (w\<lparr>wimpl := None\<rparr>) \<le> getProgress (w\<lparr>wimpl := i\<rparr>)
   \<and> mayCallAllocator (w\<lparr>wimpl := i\<rparr>) \<le> mayCallAllocator (w\<lparr>wimpl := None\<rparr>)"
proof (intro conjI)
  show "getBlockingReason w \<noteq> [] \<longleftrightarrow> getProgress w = blocking \<or> mayCallAllocator w"
    by (cases "wk w"; cases "implOf (wimpl w)") (simp_all add: reason_defs progress_defs split: option.splits)
  show "getProgress (w\<lparr>wimpl := None\<rparr>) \<le> getProgress (w\<lparr>wimpl := i\<rparr>)"
    by (cases "wk w"; cases "implOf i") (auto simp: less_eq_progress_def progress_defs split: option.splits)
  show "mayCallAllocator (w\<lparr>wimpl := i\<rparr>) \<le> mayCallAllocator (w\<lparr>wimpl := None\<rparr>)"
    by (cases "wk w"; cases "implOf i") (auto simp: progress_defs split: option.splits)
qed

end
