(* ===== verification/Lift_Lower.thy ===== *)
theory Lift_Lower
  imports Wtc_Ops
begin

text \<open>
  Lifting the calls of the shim to operations of the dialect (LiftCIRToWTC.cpp) and lowering them
  back (LowerWTCToCIR.cpp). The types of values, which the passes do not change, are an argument.
  The patterns of the conversion framework are functions from the call to what replaces it; where
  the code reads an operand the call may not have, the result is \<open>LiftAssert\<close>.
\<close>

section \<open>Lifting\<close>

type_synonym typing = "val \<Rightarrow> cty"

datatype lift_result = NotMatched | LiftError string nat | LiftAssert | Lifted wop

definition call_results :: "irop \<Rightarrow> cty option" where
  "call_results x = (case otys x of [] \<Rightarrow> None | t # _ \<Rightarrow> Some t)"

text \<open>The calls the target declares illegal.\<close>

definition shim_kind :: "semkind \<Rightarrow> bool" where
  "shim_kind k = List.member [MutexLock, MutexUnlock, MutexBatchBegin, MutexBatchStep, MutexBatchEnd,
     QueuePush, QueuePushWait, QueueTryPush, QueuePushOverrun, QueuePushBatch, QueuePopBatch, QueueTryPop,
     QueueTryPopInto, QueuePopWait, QueuePopWaitFor, QueueBatchBegin, QueuePushDeferred, QueueBatchEnd] k"

definition legal_call :: "cmodule \<Rightarrow> cfunc \<Rightarrow> callinfo \<Rightarrow> bool" where
  "legal_call m f c \<longleftrightarrow> insideLiftedRuntime m (Some f) c \<or> \<not> shim_kind (getSemanticKind (lookupCallee m c))"

definition castTo :: "typing \<Rightarrow> cty \<Rightarrow> val \<Rightarrow> val" where
  "castTo ty t v = (if ty v = t then v else UCast t v)"

definition fallbackOf :: "callinfo \<Rightarrow> string option" where
  "fallbackOf c = callee c"

text \<open>What every lifted operation records of the call.\<close>

definition lifted_base :: "typing \<Rightarrow> wkind \<Rightarrow> cty \<Rightarrow> callinfo \<Rightarrow> val \<Rightarrow> val list \<Rightarrow> wop" where
  "lifted_base ty k handle_ty c h args =
     \<lparr>wk = k, whandle = castTo ty handle_ty h, whandle_ty = handle_ty, wargs = args, wresult = None,
      fallback_impl = fallbackOf c, source_type = Some (ty h), source_arg_attrs = carg_attrs c,
      wtopology = None, wqueue_id = None, wimpl = None, w_bounded = False, w_wait = False,
      w_overrun = False, w_batch = False, w_borrowed = False, w_transfer = False\<rparr>"

definition liftMutexCall :: "cmodule \<Rightarrow> typing \<Rightarrow> callinfo \<Rightarrow> irop \<Rightarrow> lift_result" where
  "liftMutexCall m ty c x =
     (let sk = getSemanticKind (lookupCallee m c);
          batchOp = sk = MutexBatchBegin \<or> sk = MutexBatchStep \<or> sk = MutexBatchEnd;
          vs = oargs x; k = firstRealOperand m c vs; want = (if batchOp then 2 else 1)
      in if sk \<noteq> MutexLock \<and> sk \<noteq> MutexUnlock \<and> \<not> batchOp then NotMatched
         else if length vs \<noteq> k + want then
           LiftError (if batchOp then ''wtc: a mutex batch operation takes the mutex and the batch''
                      else ''wtc: a mutex operation takes exactly the mutex'') (length vs)
         else if batchOp then
           Lifted (lifted_base ty (if sk = MutexBatchBegin then WLockBatchBegin
             else if sk = MutexBatchStep then WLockBatchStep else WLockBatchEnd) MutexT c (vs ! k) [vs ! (k + 1)])
         else Lifted (lifted_base ty (if sk = MutexLock then WLock else WUnlock) MutexT c (vs ! k) []))"

definition lift_batch_op :: "typing \<Rightarrow> semkind \<Rightarrow> cty \<Rightarrow> callinfo \<Rightarrow> val list \<Rightarrow> nat \<Rightarrow> lift_result" where
  "lift_batch_op ty sk qt c vs k =
     (let want = (if sk = QueuePushDeferred then 3 else 2)
      in if length vs \<noteq> k + want then
           LiftError (''wtc: a batch operation takes the queue, the batch'' @ (if want = 3 then '' and one value'' else []))
             (length vs)
         else if sk = QueueBatchBegin then Lifted (lifted_base ty WBatchBegin qt c (vs ! k) [vs ! (k + 1)])
         else if sk = QueueBatchEnd then Lifted (lifted_base ty WBatchEnd qt c (vs ! k) [vs ! (k + 1)])
         else Lifted (lifted_base ty WPushDeferred qt c (vs ! k) [vs ! (k + 1), vs ! (k + 2)]))"

definition lift_ring_batch :: "typing \<Rightarrow> semkind \<Rightarrow> cty \<Rightarrow> callinfo \<Rightarrow> irop \<Rightarrow> nat \<Rightarrow> lift_result" where
  "lift_ring_batch ty sk qt c x k =
     (let vs = oargs x
      in if k \<noteq> 0 \<or> length vs < 3 \<or> length (otys x) \<noteq> 1
         then LiftError ''wtc: a batch takes the queue and the caller's ring, and answers how many'' (length vs)
         else if sk = QueuePushBatch then
           Lifted ((lifted_base ty WPush qt c (vs ! 0) (vs ! 1 # drop 2 vs))
             \<lparr>wresult := call_results x, w_bounded := True, w_wait := True, w_batch := True\<rparr>)
         else Lifted ((lifted_base ty WPop qt c (vs ! 0) (drop 1 vs))
             \<lparr>wresult := call_results x, w_transfer := True, w_wait := True, w_bounded := True, w_batch := True\<rparr>))"

definition lift_push :: "typing \<Rightarrow> semkind \<Rightarrow> bool \<Rightarrow> cty \<Rightarrow> callinfo \<Rightarrow> irop \<Rightarrow> nat \<Rightarrow> lift_result" where
  "lift_push ty sk bounded qt c x k =
     (let vs = oargs x; tryForm = sk = QueueTryPush
      in if length vs \<noteq> k + 2 then LiftError ''wtc: push takes the queue and one value'' (length vs)
         else if tryForm \<noteq> (length (otys x) = 1) then
           LiftError (if tryForm then ''wtc: a try_push answers whether it appended'' else ''wtc: a push returns nothing'')
             (length vs)
         else Lifted ((lifted_base ty WPush qt c (vs ! k) [vs ! (k + 1)])
           \<lparr>wresult := (if tryForm then call_results x else None), w_bounded := bounded,
            w_wait := (sk = QueuePushWait), w_overrun := (sk = QueuePushOverrun)\<rparr>))"

definition lift_pop :: "typing \<Rightarrow> semkind \<Rightarrow> bool \<Rightarrow> cty \<Rightarrow> callinfo \<Rightarrow> irop \<Rightarrow> nat \<Rightarrow> lift_result" where
  "lift_pop ty sk bounded qt c x k =
     (let vs = oargs x; w = (lifted_base ty WPop qt c (vs ! k) [])\<lparr>w_bounded := bounded\<rparr>
      in if sk = QueueTryPopInto then
           (if k \<noteq> 0 \<or> length vs \<noteq> 2 \<or> length (otys x) > 1
            then LiftError ''wtc: try_pop into an object takes the queue and the object'' (length vs)
            else Lifted (w\<lparr>wresult := call_results x, wargs := [vs ! 1], w_transfer := True\<rparr>))
         else if sk = QueuePopWait \<or> sk = QueuePopWaitFor then
           (let want = (if sk = QueuePopWaitFor then 3 else 2)
            in if k \<noteq> 0 \<or> length vs \<noteq> want \<or> length (otys x) > 1
               then LiftError (if want = 3 then ''wtc: pop_wait_for takes the queue, the object and the limit''
                               else ''wtc: pop_wait takes the queue and the object'') (length vs)
               else Lifted (w\<lparr>wresult := call_results x, wargs := drop 1 vs, w_transfer := True, w_wait := True\<rparr>))
         else if k = 1 then
           (if length vs \<noteq> 2 \<or> length (otys x) \<noteq> 0
            then LiftError ''wtc: try_pop with a return slot must have two operands and no result'' (length vs)
            else Lifted (w\<lparr>wargs := [vs ! 0]\<rparr>))
         else if length vs \<noteq> 1 \<or> length (otys x) \<noteq> 1
         then LiftError ''wtc: try_pop without a return slot must have one operand and one result'' (length vs)
         else Lifted (w\<lparr>wresult := call_results x\<rparr>))"

definition liftQueueCall :: "cmodule \<Rightarrow> typing \<Rightarrow> callinfo \<Rightarrow> irop \<Rightarrow> lift_result" where
  "liftQueueCall m ty c x =
     (let f = lookupCallee m c; sk = getSemanticKind f;
          batchOp = sk = QueueBatchBegin \<or> sk = QueuePushDeferred \<or> sk = QueueBatchEnd;
          waitOp = sk = QueuePopWait \<or> sk = QueuePopWaitFor;
          pushOp = sk = QueuePush \<or> sk = QueuePushWait \<or> sk = QueueTryPush \<or> sk = QueuePushOverrun;
          k = firstRealOperand m c (oargs x)
      in if \<not> pushOp \<and> sk \<noteq> QueueTryPop \<and> sk \<noteq> QueueTryPopInto \<and> \<not> waitOp \<and> \<not> batchOp
            \<and> sk \<noteq> QueuePushBatch \<and> sk \<noteq> QueuePopBatch then NotMatched
         else if k \<ge> length (oargs x) then LiftAssert
         else case ty (oargs x ! k) of
           PtrT q \<Rightarrow>
             (let bounded = hasAnnotation f ''wtc_queue_bounded''
              in if batchOp then lift_batch_op ty sk (QueueT q) c (oargs x) k
                 else if sk = QueuePushBatch \<or> sk = QueuePopBatch then lift_ring_batch ty sk (QueueT q) c x k
                 else if pushOp then lift_push ty sk bounded (QueueT q) c x k
                 else lift_pop ty sk bounded (QueueT q) c x k)
         | _ \<Rightarrow> LiftError ''wtc: the queue operand is not a pointer'' (length (oargs x)))"

text \<open>The conversion tries the patterns on every illegal call, and fails where neither applies.\<close>

definition lift_call :: "cmodule \<Rightarrow> typing \<Rightarrow> callinfo \<Rightarrow> irop \<Rightarrow> lift_result" where
  "lift_call m ty c x = (case liftMutexCall m ty c x of NotMatched \<Rightarrow> liftQueueCall m ty c x | r \<Rightarrow> r)"

definition lift_fails :: "cmodule \<Rightarrow> typing \<Rightarrow> cfunc \<Rightarrow> irop \<Rightarrow> bool" where
  "lift_fails m ty f x = (case okind x of
     KCall c \<Rightarrow> \<not> legal_call m f c \<and> (case lift_call m ty c x of Lifted _ \<Rightarrow> False | _ \<Rightarrow> True)
   | _ \<Rightarrow> False)"

definition wop_results :: "wop \<Rightarrow> cty list" where
  "wop_results w = (case wresult w of None \<Rightarrow> [] | Some t \<Rightarrow> [t])"

definition lift_op :: "cmodule \<Rightarrow> typing \<Rightarrow> cfunc \<Rightarrow> irop \<Rightarrow> opkind \<times> val list \<times> cty list" where
  "lift_op m ty f x = (case okind x of
     KCall c \<Rightarrow> (if legal_call m f c then (okind x, oargs x, otys x)
                 else case lift_call m ty c x of
                   Lifted w \<Rightarrow> (KWtc w, whandle w # wargs w, wop_results w)
                 | _ \<Rightarrow> (okind x, oargs x, otys x))
   | _ \<Rightarrow> (okind x, oargs x, otys x))"

fun map_op :: "(irop \<Rightarrow> opkind \<times> val list \<times> cty list) \<Rightarrow> irop \<Rightarrow> irop" where
  "map_op g (IrOp n k vs ts rs) = (case g (IrOp n k vs ts rs) of (k', vs', ts') \<Rightarrow>
     IrOp n k' vs' ts' (map (map (map (map_op g))) rs))"

definition liftToWTC :: "cmodule \<Rightarrow> typing \<Rightarrow> cmodule option" where
  "liftToWTC m ty =
     (if list_ex (\<lambda>f. list_ex (lift_fails m ty f) (walk_region (body f))) (funcs m) then None
      else Some (m\<lparr>funcs := map (\<lambda>f. f\<lparr>body := map (map (map_op (lift_op m ty f))) (body f)\<rparr>) (funcs m)\<rparr>))"

section \<open>Lowering\<close>

definition requireFallback :: "wop \<Rightarrow> bool" where
  "requireFallback w \<longleftrightarrow> fallback_impl w \<noteq> None \<and> source_type w \<noteq> None"

definition rebuildCall :: "wop \<Rightarrow> cty option \<Rightarrow> val list \<Rightarrow> opkind \<times> val list \<times> cty list" where
  "rebuildCall w result operands =
     (KCall \<lparr>callee = fallback_impl w, indirect = None, carg_attrs = source_arg_attrs w, cnothrow = False\<rparr>,
      operands, case result of None \<Rightarrow> [] | Some t \<Rightarrow> [t])"

definition lower_handle :: "wop \<Rightarrow> val" where
  "lower_handle w = UCast (the (source_type w)) (whandle w)"

definition lowerQueuePop :: "wop \<Rightarrow> opkind \<times> val list \<times> cty list" where
  "lowerQueuePop w = (case wargs w of
     [] \<Rightarrow> rebuildCall w (wresult w) [lower_handle w]
   | v # _ \<Rightarrow> if w_transfer w then rebuildCall w (wresult w) (lower_handle w # wargs w)
              else rebuildCall w None [v, lower_handle w])"

definition lower_wop :: "wop \<Rightarrow> (opkind \<times> val list \<times> cty list) option" where
  "lower_wop w =
     (if \<not> requireFallback w then None
      else Some (case wk w of
        WLock \<Rightarrow> rebuildCall w None [lower_handle w]
      | WUnlock \<Rightarrow> rebuildCall w None [lower_handle w]
      | WPush \<Rightarrow> rebuildCall w (wresult w) (lower_handle w # wargs w)
      | WPop \<Rightarrow> lowerQueuePop w
      | WBatchBegin \<Rightarrow> rebuildCall w None (lower_handle w # take 1 (wargs w))
      | WPushDeferred \<Rightarrow> rebuildCall w None (lower_handle w # take 2 (wargs w))
      | WBatchEnd \<Rightarrow> rebuildCall w None (lower_handle w # take 1 (wargs w))
      | _ \<Rightarrow> rebuildCall w None (lower_handle w # take 1 (wargs w))))"

definition lower_op :: "irop \<Rightarrow> opkind \<times> val list \<times> cty list" where
  "lower_op x = (case okind x of
     KWtc w \<Rightarrow> (case lower_wop w of Some r \<Rightarrow> r | None \<Rightarrow> (okind x, oargs x, otys x))
   | _ \<Rightarrow> (okind x, oargs x, otys x))"

definition lower_fails :: "irop \<Rightarrow> bool" where
  "lower_fails x = (case okind x of KWtc w \<Rightarrow> lower_wop w = None | _ \<Rightarrow> False)"

definition lowerWTCToCIR :: "cmodule \<Rightarrow> cmodule option" where
  "lowerWTCToCIR m =
     (if list_ex lower_fails (all_ops m) then None
      else Some (m\<lparr>funcs := map (\<lambda>f. f\<lparr>body := map (map (map_op lower_op)) (body f)\<rparr>) (funcs m)\<rparr>))"

text \<open>The discardable attributes lowering removes: those of the dialect.\<close>

definition drop_wtc_attrs :: "string list \<Rightarrow> string list" where
  "drop_wtc_attrs as = filter (\<lambda>n. \<not> (starts_with n ''wtc'' \<and> starts_with (drop 3 n) ''.'')) as"

text \<open>
  What reconciling the casts leaves of a value: a chain of casts that comes back to the type it
  started from is that value.
\<close>

fun reconcile :: "typing \<Rightarrow> val \<Rightarrow> val" where
  "reconcile ty (UCast t (UCast u v)) = (if ty v = t then v else UCast t (UCast u v))"
| "reconcile ty (UCast t v) = (if ty v = t then v else UCast t v)"
| "reconcile ty v = v"

definition reconcile_op :: "typing \<Rightarrow> irop \<Rightarrow> opkind \<times> val list \<times> cty list" where
  "reconcile_op ty x = (okind x, map (reconcile ty) (oargs x), otys x)"

definition reconcile_module :: "typing \<Rightarrow> cmodule \<Rightarrow> cmodule" where
  "reconcile_module ty m = m\<lparr>funcs := map (\<lambda>f. f\<lparr>body := map (map (map_op (reconcile_op ty))) (body f)\<rparr>) (funcs m)\<rparr>"

section \<open>Lifting and lowering back\<close>

text \<open>
  The calls the shim's headers give rise to: a return slot only on a \<open>try_pop\<close>, a result only
  where the operation has one, no casts of the conversion framework yet.
\<close>

definition no_result :: "semkind \<Rightarrow> bool" where
  "no_result k = List.member [MutexLock, MutexUnlock, MutexBatchBegin, MutexBatchStep, MutexBatchEnd,
     QueueBatchBegin, QueuePushDeferred, QueueBatchEnd] k"

fun not_ucast :: "val \<Rightarrow> bool" where
  "not_ucast (UCast t v) = False"
| "not_ucast v = True"

definition shaped :: "cmodule \<Rightarrow> irop \<Rightarrow> bool" where
  "shaped m x \<longleftrightarrow> list_all not_ucast (oargs x) \<and> (case okind x of
     KCall c \<Rightarrow> indirect c = None \<and> length (otys x) \<le> 1
       \<and> (no_result (getSemanticKind (lookupCallee m c)) \<longrightarrow> otys x = [])
       \<and> (getSemanticKind (lookupCallee m c) \<noteq> QueueTryPop \<longrightarrow> firstRealOperand m c (oargs x) = 0)
   | KWtc w \<Rightarrow> False
   | _ \<Rightarrow> True)"

text \<open>The call as lowering rebuilds it: all of it but the mark that it does not throw.\<close>

definition nothrow_cleared :: "cmodule \<Rightarrow> cfunc \<Rightarrow> irop \<Rightarrow> opkind \<times> val list \<times> cty list" where
  "nothrow_cleared m f x = (case okind x of
     KCall c \<Rightarrow> (if legal_call m f c then KCall c else KCall (c\<lparr>cnothrow := False\<rparr>), oargs x, otys x)
   | _ \<Rightarrow> (okind x, oargs x, otys x))"

definition module_nothrow_cleared :: "cmodule \<Rightarrow> cmodule" where
  "module_nothrow_cleared m = m\<lparr>funcs := map (\<lambda>f. f\<lparr>body := map (map (map_op (nothrow_cleared m f))) (body f)\<rparr>) (funcs m)\<rparr>"

lemma reconcile_plain [simp]: "not_ucast v \<Longrightarrow> reconcile ty v = v"
  by (cases v) auto

lemma reconcile_handle [simp]: "not_ucast v \<Longrightarrow> reconcile ty (UCast (ty v) (castTo ty t v)) = v"
  by (cases v) (auto simp: castTo_def)

lemma map_reconcile_plain: "list_all not_ucast vs \<Longrightarrow> map (reconcile ty) vs = vs"
  by (induction vs) auto

lemma nth_plain: "list_all not_ucast vs \<Longrightarrow> i < length vs \<Longrightarrow> not_ucast (vs ! i)"
  by (simp add: list_all_length)

lemma length_1_eq: "length vs = Suc 0 \<longleftrightarrow> (\<exists>a. vs = [a])"
  by (cases vs) auto

lemma length_2_eq: "length vs = Suc (Suc 0) \<longleftrightarrow> (\<exists>a b. vs = [a, b])"
  by (cases vs) (auto simp: length_1_eq)

lemma length_3_eq: "length vs = 3 \<longleftrightarrow> (\<exists>a b c. vs = [a, b, c])"
  by (cases vs) (auto simp: numeral_3_eq_3 length_2_eq)

lemma length_ge3: "\<not> length vs < 3 \<longleftrightarrow> (\<exists>a b c r. vs = a # b # c # r)"
proof (cases vs)
  case (Cons a v)
  then show ?thesis by (cases v; cases "tl v") auto
qed simp

lemma le_1_cases: "length ts \<le> Suc 0 \<longleftrightarrow> ts = [] \<or> (\<exists>t. ts = [t])"
  by (cases ts) (auto simp: length_1_eq)

lemmas lower_defs = lower_wop_def requireFallback_def lifted_base_def fallbackOf_def rebuildCall_def lower_handle_def
  lowerQueuePop_def call_results_def

lemma callinfo_rebuilt:
  "indirect c = None \<Longrightarrow> \<lparr>callee = callee c, indirect = None, carg_attrs = carg_attrs c, cnothrow = False\<rparr> = c\<lparr>cnothrow := False\<rparr>"
  by simp

text \<open>What lowering makes of one lifted call, per group of operations.\<close>

definition restores :: "typing \<Rightarrow> callinfo \<Rightarrow> irop \<Rightarrow> wop \<Rightarrow> bool" where
  "restores ty c x w \<longleftrightarrow> (\<exists>vs. lower_wop w = Some (KCall (c\<lparr>cnothrow := False\<rparr>), vs, otys x) \<and> map (reconcile ty) vs = oargs x)"

lemma restores_mutex:
  assumes "liftMutexCall m ty c x = Lifted w" and "callee c \<noteq> None" and "indirect c = None" and "list_all not_ucast (oargs x)"
    and "firstRealOperand m c (oargs x) = 0" and "otys x = []"
  shows "restores ty c x w"
  using assms by (auto simp: liftMutexCall_def Let_def restores_def lower_defs length_1_eq length_2_eq numeral_2_eq_2
      split: if_splits)

lemma restores_batch_op:
  assumes "lift_batch_op ty sk qt c (oargs x) 0 = Lifted w" and "callee c \<noteq> None" and "indirect c = None"
    and "list_all not_ucast (oargs x)" and "otys x = []"
    and "sk = QueueBatchBegin \<or> sk = QueuePushDeferred \<or> sk = QueueBatchEnd"
  shows "restores ty c x w"
  using assms by (auto simp: lift_batch_op_def Let_def restores_def lower_defs length_2_eq numeral_2_eq_2 length_3_eq
      split: if_splits)

lemma restores_ring_batch:
  assumes "lift_ring_batch ty sk qt c x k = Lifted w" and "callee c \<noteq> None" and "indirect c = None"
    and "list_all not_ucast (oargs x)"
  shows "restores ty c x w"
  using assms by (auto simp: lift_ring_batch_def Let_def restores_def lower_defs length_ge3 length_1_eq map_reconcile_plain
      split: if_splits)

lemma restores_push:
  assumes "lift_push ty sk bd qt c x 0 = Lifted w" and "callee c \<noteq> None" and "indirect c = None"
    and "list_all not_ucast (oargs x)" and "length (otys x) \<le> 1"
  shows "restores ty c x w"
  using assms by (auto simp: lift_push_def Let_def restores_def lower_defs length_2_eq numeral_2_eq_2 le_1_cases
      split: if_splits)

lemma restores_pop:
  assumes "lift_pop ty sk bd qt c x k = Lifted w" and "callee c \<noteq> None" and "indirect c = None"
    and "list_all not_ucast (oargs x)" and "length (otys x) \<le> 1" and "k \<le> 1"
  shows "restores ty c x w"
  using assms by (auto simp: lift_pop_def Let_def restores_def lower_defs length_1_eq length_2_eq numeral_2_eq_2
      length_3_eq le_1_cases map_reconcile_plain le_Suc_eq split: if_splits)

lemma firstRealOperand_le: "firstRealOperand m c vs \<le> 1"
  by (simp add: firstRealOperand_def)

lemma getSemanticKind_callee: "getSemanticKind (lookupCallee m c) \<noteq> Unknown \<Longrightarrow> callee c \<noteq> None"
  by (auto simp: getSemanticKind_def lookupCallee_def split: option.splits)

lemma restores_queue:
  assumes l: "liftQueueCall m ty c x = Lifted w" and k: "okind x = KCall c" and s: "shaped m x"
  shows "restores ty c x w"
proof -
  let ?sk = "getSemanticKind (lookupCallee m c)" let ?k = "firstRealOperand m c (oargs x)"
  have sh: "list_all not_ucast (oargs x)" "indirect c = None" "length (otys x) \<le> 1"
    "no_result ?sk \<Longrightarrow> otys x = []" "?sk \<noteq> QueueTryPop \<Longrightarrow> ?k = 0"
    using s k by (auto simp: shaped_def)
  have "?sk \<noteq> Unknown" using l by (auto simp: liftQueueCall_def Let_def split: if_splits)
  then have c: "callee c \<noteq> None" by (rule getSemanticKind_callee)
  obtain q where q: "ty (oargs x ! ?k) = PtrT q"
    using l by (auto simp: liftQueueCall_def Let_def split: if_splits cty.splits)
  consider (batch) "?sk = QueueBatchBegin \<or> ?sk = QueuePushDeferred \<or> ?sk = QueueBatchEnd"
      "lift_batch_op ty ?sk (QueueT q) c (oargs x) ?k = Lifted w"
    | (ring) "lift_ring_batch ty ?sk (QueueT q) c x ?k = Lifted w"
    | (push) bd where "?sk \<noteq> QueueTryPop" "lift_push ty ?sk bd (QueueT q) c x ?k = Lifted w"
    | (pop) bd where "lift_pop ty ?sk bd (QueueT q) c x ?k = Lifted w"
    using l q by (auto simp: liftQueueCall_def Let_def split: if_splits)
  then show ?thesis
  proof cases
    case batch
    then have "otys x = []" "?k = 0" using sh(4,5) by (auto simp: no_result_def)
    then show ?thesis using restores_batch_op batch c sh(1,2) by metis
  next
    case ring
    then show ?thesis using restores_ring_batch c sh(1,2) by metis
  next
    case push
    then show ?thesis using restores_push c sh(1,2,3,5) by metis
  next
    case pop
    then show ?thesis using restores_pop c sh(1,2,3) firstRealOperand_le by metis
  qed
qed

lemma restores_call:
  assumes l: "lift_call m ty c x = Lifted w" and k: "okind x = KCall c" and s: "shaped m x"
  shows "restores ty c x w"
proof (cases "liftMutexCall m ty c x")
  case NotMatched
  then show ?thesis using restores_queue [OF _ k s] l by (simp add: lift_call_def)
next
  case (Lifted w')
  then have l': "liftMutexCall m ty c x = Lifted w" using l by (simp add: lift_call_def)
  let ?sk = "getSemanticKind (lookupCallee m c)"
  have nr: "no_result ?sk" "?sk \<noteq> QueueTryPop" "?sk \<noteq> Unknown"
    using l' by (auto simp: liftMutexCall_def Let_def no_result_def split: if_splits)
  then show ?thesis
    using restores_mutex [OF l' getSemanticKind_callee [OF nr(3)]] s k by (auto simp: shaped_def)
qed (use l in \<open>simp_all add: lift_call_def\<close>)

section \<open>Whole modules\<close>

lemma walk_map_op: "walk (map_op g x) = map (map_op g) (walk x)"
proof (induction x rule: walk.induct)
  case (1 n k vs ts rs)
  have inner: "concat (map walk (map (map_op g) b)) = map (map_op g) (concat (map walk b))"
    if "r \<in> set rs" "b \<in> set r" for r b
    using 1 that by (auto simp: map_concat cong: map_cong)
  have "concat (map (\<lambda>b. concat (map walk b)) (map (map (map_op g)) r)) = map (map_op g) (concat (map (\<lambda>b. concat (map walk b)) r))"
    if "r \<in> set rs" for r
    using inner [OF that] by (auto simp: map_concat cong: map_cong)
  then show ?case by (auto simp: map_concat split: prod.splits cong: map_cong)
qed

lemma map_op_cong_ops: "(\<And>y. y \<in> set (walk x) \<Longrightarrow> g y = h y) \<Longrightarrow> map_op g x = map_op h x"
proof (induction x rule: walk.induct)
  case (1 n k vs ts rs)
  have "map_op g z = map_op h z" if z: "r \<in> set rs" "b \<in> set r" "z \<in> set b" for r b z
  proof (rule 1(1) [OF z])
    fix y assume "y \<in> set (walk z)"
    then have "y \<in> set (walk (IrOp n k vs ts rs))" using z by auto
    then show "g y = h y" by (rule 1(2))
  qed
  then have "map (map (map (map_op g))) rs = map (map (map (map_op h))) rs"
    by (intro map_cong refl) blast
  moreover have "g (IrOp n k vs ts rs) = h (IrOp n k vs ts rs)" using 1 by simp
  ultimately show ?case by (simp split: prod.splits)
qed

text \<open>A rewriting that looks at an operation's own parts only.\<close>

definition own_parts :: "(irop \<Rightarrow> opkind \<times> val list \<times> cty list) \<Rightarrow> bool" where
  "own_parts g \<longleftrightarrow> (\<forall>n n' k vs ts rs rs'. g (IrOp n k vs ts rs) = g (IrOp n' k vs ts rs'))"

definition then_op :: "(irop \<Rightarrow> opkind \<times> val list \<times> cty list) \<Rightarrow> (irop \<Rightarrow> opkind \<times> val list \<times> cty list) \<Rightarrow> irop \<Rightarrow> opkind \<times> val list \<times> cty list" where
  "then_op h g x = (case h x of (k, vs, ts) \<Rightarrow> g (IrOp 0 k vs ts []))"

lemma map_op_map_op: "own_parts g \<Longrightarrow> map_op g (map_op h x) = map_op (then_op h g) x"
proof (induction x rule: walk.induct)
  case (1 n k vs ts rs)
  obtain k' vs' ts' where h: "h (IrOp n k vs ts rs) = (k', vs', ts')" by (metis prod_cases3)
  have e: "g (IrOp n k' vs' ts' rs') = g (IrOp 0 k' vs' ts' [])" for rs' using 1(2) by (simp add: own_parts_def)
  show ?case using 1 by (auto simp: h e then_op_def split: prod.splits cong: map_cong)
qed

lemma lower_op_own: "lower_op (IrOp n k vs ts rs) = lower_op (IrOp n' k vs ts rs')"
  by (cases k) (simp_all add: lower_op_def split: option.split)

lemma own_parts_lower: "own_parts lower_op" "own_parts (reconcile_op ty)"
  unfolding own_parts_def using lower_op_own by (blast, simp add: reconcile_op_def)

lemma walk_region_map_op: "walk_region (map (map (map_op g)) r) = map (map_op g) (walk_region r)"
  by (simp add: walk_region_def map_concat walk_map_op [abs_def] comp_def walk_map_op)

lemma map_op_region_cong:
  "(\<And>y. y \<in> set (walk_region r) \<Longrightarrow> g y = h y) \<Longrightarrow> map (map (map_op g)) r = map (map (map_op h)) r"
  by (intro map_cong refl map_op_cong_ops) (force simp: walk_region_def)

lemma okind_map_op: "okind (map_op g x) = fst (g x)"
  by (cases x) (simp split: prod.splits)

text \<open>One operation lifted, lowered and reconciled.\<close>

lemma round_op:
  assumes "shaped m x" and "\<not> lift_fails m ty f x"
  shows "then_op (then_op (lift_op m ty f) lower_op) (reconcile_op ty) x = nothrow_cleared m f x"
    and "\<not> lower_fails (map_op (lift_op m ty f) x)"
proof -
  have plain: "map (reconcile ty) (oargs x) = oargs x"
    using assms(1) map_reconcile_plain by (auto simp: shaped_def)
  have nw: "okind x \<noteq> KWtc w" for w using assms(1) by (auto simp: shaped_def)
  have "then_op (then_op (lift_op m ty f) lower_op) (reconcile_op ty) x = nothrow_cleared m f x
    \<and> \<not> lower_fails (map_op (lift_op m ty f) x)"
  proof (cases "\<exists>c. okind x = KCall c \<and> \<not> legal_call m f c")
    case True
    then obtain c where c: "okind x = KCall c" "\<not> legal_call m f c" by blast
    then obtain w where w: "lift_call m ty c x = Lifted w"
      using assms(2) by (auto simp: lift_fails_def split: lift_result.splits)
    have lo: "lift_op m ty f x = (KWtc w, whandle w # wargs w, wop_results w)" using c w by (simp add: lift_op_def)
    obtain vs where vs: "lower_wop w = Some (KCall (c\<lparr>cnothrow := False\<rparr>), vs, otys x)" "map (reconcile ty) vs = oargs x"
      using restores_call [OF w c(1) assms(1)] by (auto simp: restores_def)
    show ?thesis using c by (simp add: then_op_def lo lower_op_def vs reconcile_op_def nothrow_cleared_def lower_fails_def okind_map_op)
  next
    case False
    then have lo: "lift_op m ty f x = (okind x, oargs x, otys x)"
      by (auto simp: lift_op_def split: opkind.splits)
    have ro: "nothrow_cleared m f x = (okind x, oargs x, otys x)"
      using False by (auto simp: nothrow_cleared_def split: opkind.splits)
    have "lower_op (IrOp 0 (okind x) (oargs x) (otys x) []) = (okind x, oargs x, otys x)"
      using nw by (auto simp: lower_op_def split: opkind.splits)
    then show ?thesis using nw
      by (auto simp: then_op_def lo ro reconcile_op_def plain lower_fails_def okind_map_op split: opkind.splits)
  qed
  then show "then_op (then_op (lift_op m ty f) lower_op) (reconcile_op ty) x = nothrow_cleared m f x"
    and "\<not> lower_fails (map_op (lift_op m ty f) x)" by blast+
qed

definition keeps_mark :: "cmodule \<Rightarrow> cfunc \<Rightarrow> irop \<Rightarrow> bool" where
  "keeps_mark m f x = (case okind x of KCall c \<Rightarrow> legal_call m f c \<or> \<not> cnothrow c | _ \<Rightarrow> True)"

lemma map_op_same: "map_op (\<lambda>x. (okind x, oargs x, otys x)) x = x"
proof (induction x rule: walk.induct)
  case (1 n k vs ts rs)
  then have "map (map (map (map_op (\<lambda>x. (okind x, oargs x, otys x))))) rs = rs"
    by (intro map_idI) auto
  then show ?case by simp
qed

lemma nothing_cleared:
  assumes "\<And>f x. f \<in> set (funcs m) \<Longrightarrow> x \<in> set (walk_region (body f)) \<Longrightarrow> keeps_mark m f x"
  shows "module_nothrow_cleared m = m"
proof -
  have "map (map (map_op (nothrow_cleared m f))) (body f) = body f" if f: "f \<in> set (funcs m)" for f
  proof -
    have "nothrow_cleared m f x = (okind x, oargs x, otys x)" if "x \<in> set (walk_region (body f))" for x
      using assms [OF f that] by (auto simp: keeps_mark_def nothrow_cleared_def split: opkind.splits)
    then have "map (map (map_op (nothrow_cleared m f))) (body f) = map (map (map_op (\<lambda>x. (okind x, oargs x, otys x)))) (body f)"
      by (rule map_op_region_cong)
    then show ?thesis by (simp add: map_op_same [abs_def] flip: id_def)
  qed
  then have "map (\<lambda>f. f\<lparr>body := map (map (map_op (nothrow_cleared m f))) (body f)\<rparr>) (funcs m) = funcs m"
    by (intro map_idI) simp
  then show ?thesis by (simp add: module_nothrow_cleared_def)
qed

text \<open>
  C10: take a module whose calls have the shapes of the shim's headers: no operation of the dialect
  and no cast of the conversion yet, a return slot only on a \<open>try_pop\<close>, a result only where the
  operation has one. Lifted, lowered back and with its casts reconciled, it is the same module with
  the mark that a call does not throw cleared on every call that was lifted: callees, operands,
  results and argument attributes are back, the mark is not. Where no lifted call had the mark, the
  module comes back unchanged.
\<close>

theorem lift_lower_roundtrip:
  assumes lift: "liftToWTC m ty = Some m1" and shape: "\<And>x. x \<in> set (all_ops m) \<Longrightarrow> shaped m x"
  shows "\<exists>m2. lowerWTCToCIR m1 = Some m2 \<and> reconcile_module ty m2 = module_nothrow_cleared m \<and>
    ((\<forall>f \<in> set (funcs m). \<forall>x \<in> set (walk_region (body f)). keeps_mark m f x) \<longrightarrow> reconcile_module ty m2 = m)"
proof -
  let ?L = "\<lambda>f. lift_op m ty f"
  have m1: "m1 = m\<lparr>funcs := map (\<lambda>f. f\<lparr>body := map (map (map_op (?L f))) (body f)\<rparr>) (funcs m)\<rparr>"
    and ok: "\<And>f x. f \<in> set (funcs m) \<Longrightarrow> x \<in> set (walk_region (body f)) \<Longrightarrow> \<not> lift_fails m ty f x"
    using lift by (auto simp: liftToWTC_def list_ex_iff split: if_splits)
  have sh: "shaped m x" if "f \<in> set (funcs m)" "x \<in> set (walk_region (body f))" for f x
    using shape that by (auto simp: all_ops_def)
  have "all_ops m1 = concat (map (\<lambda>f. map (map_op (?L f)) (walk_region (body f))) (funcs m))"
    by (simp add: all_ops_def m1 comp_def walk_region_map_op)
  then have nf: "\<not> list_ex lower_fails (all_ops m1)"
    using round_op(2) [OF sh ok] by (auto simp: list_ex_iff)
  let ?m2 = "m1\<lparr>funcs := map (\<lambda>f. f\<lparr>body := map (map (map_op lower_op)) (body f)\<rparr>) (funcs m1)\<rparr>"
  have "lowerWTCToCIR m1 = Some ?m2" using nf by (simp add: lowerWTCToCIR_def)
  moreover have "reconcile_module ty ?m2 = module_nothrow_cleared m"
  proof -
    have "map (map (map_op (reconcile_op ty))) (map (map (map_op lower_op)) (map (map (map_op (?L f))) (body f)))
        = map (map (map_op (nothrow_cleared m f))) (body f)" if "f \<in> set (funcs m)" for f
    proof -
      have "map (map (map_op (reconcile_op ty))) (map (map (map_op lower_op)) (map (map (map_op (?L f))) (body f)))
        = map (map (map_op (then_op (then_op (?L f) lower_op) (reconcile_op ty)))) (body f)"
        by (simp add: comp_def map_op_map_op own_parts_lower)
      also have "\<dots> = map (map (map_op (nothrow_cleared m f))) (body f)"
        by (rule map_op_region_cong) (rule round_op(1) [OF sh ok], use that in auto)
      finally show ?thesis .
    qed
    then show ?thesis by (simp add: reconcile_module_def module_nothrow_cleared_def m1 comp_def cong: map_cong)
  qed
  moreover have "module_nothrow_cleared m = m"
    if "\<forall>f \<in> set (funcs m). \<forall>x \<in> set (walk_region (body f)). keeps_mark m f x"
    using that by (intro nothing_cleared) blast
  ultimately show ?thesis by auto
qed

definition shim_fn :: "string \<Rightarrow> string \<Rightarrow> nat \<Rightarrow> cfunc" where
  "shim_fn n a k = \<lparr>sym = n, annots = Some [Annot a], body = [], link = External, aliasee = None, params = k, fn_arg_attrs = None\<rparr>"

definition shim_call :: "string \<Rightarrow> string list list option \<Rightarrow> opkind" where
  "shim_call n as = KCall \<lparr>callee = Some n, indirect = None, carg_attrs = as, cnothrow = False\<rparr>"

definition lift_demo :: cmodule where
  "lift_demo =
    \<lparr>funcs = [shim_fn ''lock'' ''wtc_mutex_lock'' 1, shim_fn ''push'' ''wtc_queue_push'' 2, shim_fn ''try_pop'' ''wtc_queue_try_pop'' 2,
      \<lparr>sym = ''main'', annots = None,
       body = [[IrOp 1 (shim_call ''lock'' None) [Param ''main'' 0] [] [],
         IrOp 2 KScope [] [] [[[IrOp 3 (shim_call ''push'' None) [Param ''main'' 1, Param ''main'' 2] [] []]]],
         IrOp 4 (shim_call ''try_pop'' (Some [[''llvm.sret''], []])) [Param ''main'' 3, Param ''main'' 1] [] []]],
       link = External, aliasee = None, params = 4, fn_arg_attrs = None\<rparr>],
     globals = []\<rparr>"

definition demo_ty :: typing where
  "demo_ty v = (if v = Param ''main'' 0 then PtrT (RecT ''mutex'') else if v = Param ''main'' 1 then PtrT (RecT ''queue'')
     else PtrT VoidT)"

theorem lift_lower_roundtrip_witness:
  "\<exists>m1 m2. liftToWTC lift_demo demo_ty = Some m1 \<and> list_ex (\<lambda>x. case okind x of KWtc w \<Rightarrow> wk w = WPop | _ \<Rightarrow> False) (all_ops m1)
     \<and> lowerWTCToCIR m1 = Some m2 \<and> reconcile_module demo_ty m2 = lift_demo"
proof -
  have some: "liftToWTC lift_demo demo_ty \<noteq> None" by code_simp
  have pop: "list_ex (\<lambda>x. case okind x of KWtc w \<Rightarrow> wk w = WPop | _ \<Rightarrow> False) (all_ops (the (liftToWTC lift_demo demo_ty)))"
    by code_simp
  obtain m1 where m1: "liftToWTC lift_demo demo_ty = Some m1" using some by blast
  have "list_all (shaped lift_demo) (all_ops lift_demo)" by code_simp
  then have "\<And>x. x \<in> set (all_ops lift_demo) \<Longrightarrow> shaped lift_demo x" by (simp add: list_all_iff)
  moreover have "list_all (\<lambda>f. list_all (keeps_mark lift_demo f) (walk_region (body f))) (funcs lift_demo)" by code_simp
  then have "\<forall>f \<in> set (funcs lift_demo). \<forall>x \<in> set (walk_region (body f)). keeps_mark lift_demo f x" by (simp add: list_all_iff)
  ultimately obtain m2 where "lowerWTCToCIR m1 = Some m2" "reconcile_module demo_ty m2 = lift_demo"
    using lift_lower_roundtrip [OF m1] by blast
  then show ?thesis using m1 pop by auto
qed

text \<open>The mark is lost: a lock that is marked comes back without it, so the module is not rebuilt exactly.\<close>

definition marked_demo :: cmodule where
  "marked_demo = \<lparr>funcs = [shim_fn ''lock'' ''wtc_mutex_lock'' 1,
      \<lparr>sym = ''main'', annots = None,
       body = [[IrOp 1 (KCall \<lparr>callee = Some ''lock'', indirect = None, carg_attrs = None, cnothrow = True\<rparr>) [Param ''main'' 0] [] []]],
       link = External, aliasee = None, params = 1, fn_arg_attrs = None\<rparr>],
     globals = []\<rparr>"

lemma nothrow_mark_lost:
  "\<exists>m1 m2. liftToWTC marked_demo demo_ty = Some m1 \<and> lowerWTCToCIR m1 = Some m2 \<and> reconcile_module demo_ty m2 \<noteq> marked_demo"
proof (intro exI conjI)
  show "liftToWTC marked_demo demo_ty = Some (the (liftToWTC marked_demo demo_ty))" by code_simp
  show "lowerWTCToCIR (the (liftToWTC marked_demo demo_ty)) = Some (the (lowerWTCToCIR (the (liftToWTC marked_demo demo_ty))))"
    by code_simp
  show "reconcile_module demo_ty (the (lowerWTCToCIR (the (liftToWTC marked_demo demo_ty)))) \<noteq> marked_demo"
    by code_simp
qed

section \<open>Lifted operations pass the dialect's checks\<close>

lemma kind_of_annotations_in:
  "kind_of_annotations as = k \<Longrightarrow> k \<noteq> Unknown \<Longrightarrow> \<exists>a\<in>set as. (a, k) \<in> set annotation_kinds"
  by (induction as) (auto split: option.splits dest: map_of_SomeD)

lemma kindByName_spawn: "kindByName n = Unknown \<or> kindByName n = ThreadSpawn"
  by (simp add: kindByName_def)

lemma annotated:
  assumes "getSemanticKind (Some f) = k" and "k \<noteq> Unknown" and "k \<noteq> ThreadSpawn" and "(a, k) \<in> set annotation_kinds"
  shows "a \<in> set (annot_names f)"
proof -
  have "kind_of_annotations (annot_names f) = k"
    using assms(1-3) kindByName_spawn [of "sym f"] by (auto simp: getSemanticKind_def split: if_splits)
  then obtain b where b: "b \<in> set (annot_names f)" "(b, k) \<in> set annotation_kinds"
    using kind_of_annotations_in assms(2) by blast
  then have "b = a" using assms(4) by (auto simp: annotation_kinds_def)
  then show ?thesis using b by simp
qed

lemma implements_annotated: "a \<in> set (annot_names f) \<Longrightarrow> implementsOperation f a p"
  by (auto simp: implementsOperation_def list_ex_iff)

text \<open>What the type checks need of a lifted operation.\<close>

definition op_ok :: "cmodule \<Rightarrow> cfunc \<Rightarrow> callinfo \<Rightarrow> irop \<Rightarrow> wop \<Rightarrow> bool" where
  "op_ok m f c x w \<longleftrightarrow> verify_op w = None \<and> fallback_impl w = callee c
     \<and> fst (op_expects w) \<in> set (annot_names f) \<and> snd (snd (op_expects w)) = length (oargs x)"

lemma op_ok_verifies:
  assumes "op_ok m f c x w" and "callee c = Some s" and "find_func m s = Some f" and "params f = length (oargs x)"
  shows "verify_op w = None \<and> verifySymbolUses m w = None"
  using assms implements_annotated
  by (auto simp: op_ok_def verifySymbolUses_def verifyFallbackImpl_def split: prod.splits)

lemmas expects_defs = op_expects_def push_expects_def pop_expects_def getMore_def getPushed_def getTimeout_def Let_def

lemmas verify_defs = verify_op_def verify_push_def verify_pop_def verifySourceQueueType_def getOut_def

text \<open>The shim's own functions: not aliases, and bounded where their kind of push needs it.\<close>

definition shim_function :: "cmodule \<Rightarrow> callinfo \<Rightarrow> cfunc \<Rightarrow> bool" where
  "shim_function m c f \<longleftrightarrow> (\<exists>s. callee c = Some s \<and> find_func m s = Some f) \<and> aliasee f = None
     \<and> (List.member [QueuePushWait, QueueTryPush, QueuePushOverrun] (getSemanticKind (Some f))
        \<longrightarrow> hasAnnotation (Some f) ''wtc_queue_bounded'')"

lemma shim_lookup: "shim_function m c f \<Longrightarrow> lookupCallee m c = Some f"
proof -
  have "follow_alias n m (Some f) = Some f" if "aliasee f = None" for n using that by (cases n) simp_all
  then show "shim_function m c f \<Longrightarrow> lookupCallee m c = Some f" by (auto simp: shim_function_def lookupCallee_def)
qed

definition kind_annotated :: "cfunc \<Rightarrow> semkind \<Rightarrow> bool" where
  "kind_annotated f k \<longleftrightarrow> (\<forall>(a, k') \<in> set annotation_kinds. k' = k \<longrightarrow> a \<in> set (annot_names f))"

lemma kind_annotatedI: "getSemanticKind (Some f) = k \<Longrightarrow> k \<noteq> Unknown \<Longrightarrow> k \<noteq> ThreadSpawn \<Longrightarrow> kind_annotated f k"
  using annotated by (auto simp: kind_annotated_def)

lemma kind_annotated_names:
  "kind_annotated f QueuePush \<Longrightarrow> ''wtc_queue_push'' \<in> set (annot_names f)"
  "kind_annotated f QueuePushWait \<Longrightarrow> ''wtc_queue_push_wait'' \<in> set (annot_names f)"
  "kind_annotated f QueueTryPush \<Longrightarrow> ''wtc_queue_try_push'' \<in> set (annot_names f)"
  "kind_annotated f QueuePushOverrun \<Longrightarrow> ''wtc_queue_push_overrun'' \<in> set (annot_names f)"
  "kind_annotated f QueuePushBatch \<Longrightarrow> ''wtc_queue_push_batch'' \<in> set (annot_names f)"
  "kind_annotated f QueuePopBatch \<Longrightarrow> ''wtc_queue_pop_batch'' \<in> set (annot_names f)"
  "kind_annotated f QueueTryPop \<Longrightarrow> ''wtc_queue_try_pop'' \<in> set (annot_names f)"
  "kind_annotated f QueueTryPopInto \<Longrightarrow> ''wtc_queue_try_pop_into'' \<in> set (annot_names f)"
  "kind_annotated f QueuePopWait \<Longrightarrow> ''wtc_queue_pop_wait'' \<in> set (annot_names f)"
  "kind_annotated f QueuePopWaitFor \<Longrightarrow> ''wtc_queue_pop_wait_for'' \<in> set (annot_names f)"
  "kind_annotated f QueueBatchBegin \<Longrightarrow> ''wtc_queue_batch_begin'' \<in> set (annot_names f)"
  "kind_annotated f QueuePushDeferred \<Longrightarrow> ''wtc_queue_push_deferred'' \<in> set (annot_names f)"
  "kind_annotated f QueueBatchEnd \<Longrightarrow> ''wtc_queue_batch_end'' \<in> set (annot_names f)"
  "kind_annotated f MutexLock \<Longrightarrow> ''wtc_mutex_lock'' \<in> set (annot_names f)"
  "kind_annotated f MutexUnlock \<Longrightarrow> ''wtc_mutex_unlock'' \<in> set (annot_names f)"
  "kind_annotated f MutexBatchBegin \<Longrightarrow> ''wtc_mutex_batch_begin'' \<in> set (annot_names f)"
  "kind_annotated f MutexBatchStep \<Longrightarrow> ''wtc_mutex_batch_step'' \<in> set (annot_names f)"
  "kind_annotated f MutexBatchEnd \<Longrightarrow> ''wtc_mutex_batch_end'' \<in> set (annot_names f)"
  by (simp_all add: kind_annotated_def annotation_kinds_def)

lemma ok_mutex:
  assumes "liftMutexCall m ty c x = Lifted w" and "kind_annotated f (getSemanticKind (lookupCallee m c))"
    and "firstRealOperand m c (oargs x) = 0"
  shows "op_ok m f c x w"
  using assms by (auto simp: liftMutexCall_def op_ok_def lifted_base_def fallbackOf_def expects_defs verify_defs
      kind_annotated_names split: if_splits)

lemma ok_batch_op:
  assumes "lift_batch_op ty sk (QueueT q) c (oargs x) 0 = Lifted w" and "kind_annotated f sk"
    and "ty (oargs x ! 0) = PtrT q" and "sk = QueueBatchBegin \<or> sk = QueuePushDeferred \<or> sk = QueueBatchEnd"
  shows "op_ok m f c x w"
  using assms by (auto simp: lift_batch_op_def op_ok_def lifted_base_def fallbackOf_def expects_defs verify_defs
      kind_annotated_names split: if_splits)

lemma ok_ring_batch:
  assumes "lift_ring_batch ty sk (QueueT q) c x k = Lifted w" and "kind_annotated f sk"
    and "ty (oargs x ! k) = PtrT q" and "sk = QueuePushBatch \<or> sk = QueuePopBatch"
  shows "op_ok m f c x w"
  using assms by (auto simp: lift_ring_batch_def op_ok_def lifted_base_def fallbackOf_def expects_defs verify_defs
      length_ge3 length_1_eq call_results_def kind_annotated_names split: if_splits)

lemma ok_push:
  assumes "lift_push ty sk bd (QueueT q) c x 0 = Lifted w" and "kind_annotated f sk" and "ty (oargs x ! 0) = PtrT q"
    and "sk = QueuePush \<or> sk = QueuePushWait \<or> sk = QueueTryPush \<or> sk = QueuePushOverrun"
    and "sk \<noteq> QueuePush \<Longrightarrow> bd"
  shows "op_ok m f c x w"
  using assms(4)
  by (elim disjE) (use assms in \<open>auto simp: lift_push_def op_ok_def lifted_base_def fallbackOf_def expects_defs verify_defs
      length_2_eq numeral_2_eq_2 length_1_eq call_results_def kind_annotated_names split: if_splits\<close>)

lemma ok_pop:
  assumes "lift_pop ty sk bd (QueueT q) c x k = Lifted w" and "kind_annotated f sk" and "ty (oargs x ! k) = PtrT q"
    and "sk = QueueTryPop \<or> sk = QueueTryPopInto \<or> sk = QueuePopWait \<or> sk = QueuePopWaitFor"
  shows "op_ok m f c x w"
  using assms(4)
  by (elim disjE) (use assms in \<open>auto simp: lift_pop_def op_ok_def lifted_base_def fallbackOf_def expects_defs verify_defs
      length_2_eq numeral_2_eq_2 length_1_eq length_3_eq call_results_def kind_annotated_names split: if_splits\<close>)

lemma ok_queue:
  assumes l: "liftQueueCall m ty c x = Lifted w" and k: "okind x = KCall c" and s: "shaped m x" and f: "shim_function m c f"
  shows "op_ok m f c x w"
proof -
  let ?sk = "getSemanticKind (lookupCallee m c)" let ?k = "firstRealOperand m c (oargs x)"
  let ?bd = "hasAnnotation (lookupCallee m c) ''wtc_queue_bounded''"
  have k0: "?sk \<noteq> QueueTryPop \<Longrightarrow> ?k = 0" using s k by (auto simp: shaped_def)
  have sk: "?sk = getSemanticKind (Some f)" using shim_lookup [OF f] by simp
  have u: "?sk \<noteq> Unknown" "?sk \<noteq> ThreadSpawn" using l by (auto simp: liftQueueCall_def Let_def split: if_splits)
  then have ka: "kind_annotated f ?sk" using kind_annotatedI sk by simp
  obtain q where q: "ty (oargs x ! ?k) = PtrT q"
    using l by (auto simp: liftQueueCall_def Let_def split: if_splits cty.splits)
  consider (batch) "?sk = QueueBatchBegin \<or> ?sk = QueuePushDeferred \<or> ?sk = QueueBatchEnd"
      "lift_batch_op ty ?sk (QueueT q) c (oargs x) ?k = Lifted w"
    | (ring) "?sk = QueuePushBatch \<or> ?sk = QueuePopBatch" "lift_ring_batch ty ?sk (QueueT q) c x ?k = Lifted w"
    | (push) "?sk = QueuePush \<or> ?sk = QueuePushWait \<or> ?sk = QueueTryPush \<or> ?sk = QueuePushOverrun"
      "lift_push ty ?sk ?bd (QueueT q) c x ?k = Lifted w"
    | (pop) "?sk = QueueTryPop \<or> ?sk = QueueTryPopInto \<or> ?sk = QueuePopWait \<or> ?sk = QueuePopWaitFor"
      "lift_pop ty ?sk ?bd (QueueT q) c x ?k = Lifted w"
    using l q by (auto simp: liftQueueCall_def Let_def split: if_splits)
  then show ?thesis
  proof cases
    case batch
    have k: "?k = 0" using k0 batch(1) by auto
    show ?thesis by (rule ok_batch_op [OF batch(2) [unfolded k] ka q [unfolded k] batch(1)])
  next
    case ring
    show ?thesis by (rule ok_ring_batch [OF ring(2) ka q ring(1)])
  next
    case push
    have bd: "?bd" if "?sk \<noteq> QueuePush" using push(1) that f sk shim_lookup [OF f] by (auto simp: shim_function_def)
    have "?k = 0" using k0 push(1) by auto
    then show ?thesis using ok_push [OF _ ka _ push(1) bd] push(2) q by simp
  next
    case pop
    show ?thesis by (rule ok_pop [OF pop(2) ka q pop(1)])
  qed
qed

text \<open>
  C11: a call of a function of the shim, with as many operands as the function has parameters, lifts
  to an operation that passes the dialect's checks: its shape, its source type, and that the
  function it falls back to implements it and takes the arguments lowering passes.
\<close>

theorem lifted_op_verifies:
  assumes l: "lift_call m ty c x = Lifted w" and k: "okind x = KCall c" and s: "shaped m x"
    and f: "shim_function m c f" and n: "params f = length (oargs x)"
  shows "verify_op w = None \<and> verifySymbolUses m w = None"
proof -
  have "op_ok m f c x w"
  proof (cases "liftMutexCall m ty c x")
    case NotMatched
    then show ?thesis using ok_queue [OF _ k s f] l by (simp add: lift_call_def)
  next
    case (Lifted w')
    then have l': "liftMutexCall m ty c x = Lifted w" using l by (simp add: lift_call_def)
    let ?sk = "getSemanticKind (lookupCallee m c)"
    have sk: "?sk \<noteq> QueueTryPop" "?sk \<noteq> Unknown" "?sk \<noteq> ThreadSpawn"
      using l' by (auto simp: liftMutexCall_def Let_def split: if_splits)
    then have "kind_annotated f ?sk" using kind_annotatedI shim_lookup [OF f] by simp
    moreover have "firstRealOperand m c (oargs x) = 0" using s k sk by (auto simp: shaped_def)
    ultimately show ?thesis using ok_mutex [OF l'] by blast
  qed (use l in \<open>simp_all add: lift_call_def\<close>)
  then show ?thesis using op_ok_verifies f n by (auto simp: shim_function_def)
qed

definition demo_push :: callinfo where
  "demo_push = \<lparr>callee = Some ''push'', indirect = None, carg_attrs = None, cnothrow = False\<rparr>"

definition demo_push_op :: irop where
  "demo_push_op = IrOp 3 (KCall demo_push) [Param ''main'' 1, Param ''main'' 2] [] []"

theorem lifted_op_verifies_witness:
  "\<exists>w. lift_call lift_demo demo_ty demo_push demo_push_op = Lifted w \<and> wk w = WPush
     \<and> verify_op w = None \<and> verifySymbolUses lift_demo w = None"
proof -
  let ?f = "shim_fn ''push'' ''wtc_queue_push'' 2"
  have l: "case lift_call lift_demo demo_ty demo_push demo_push_op of Lifted w \<Rightarrow> wk w = WPush | _ \<Rightarrow> False" by code_simp
  then obtain w where w: "lift_call lift_demo demo_ty demo_push demo_push_op = Lifted w" "wk w = WPush"
    by (auto split: lift_result.splits)
  have "find_func lift_demo ''push'' = Some ?f" "shaped lift_demo demo_push_op" "params ?f = length (oargs demo_push_op)"
    "getSemanticKind (Some ?f) = QueuePush" by code_simp+
  moreover from this have "shim_function lift_demo demo_push ?f"
    by (auto simp: shim_function_def demo_push_def shim_fn_def)
  moreover have "okind demo_push_op = KCall demo_push" by (simp add: demo_push_op_def)
  ultimately show ?thesis using lifted_op_verifies [OF w(1)] w by metis
qed

end
