(* ===== verification/Regex.thy ===== *)
theory Regex
  imports Cir
begin

text \<open>
  The regular expressions and the string operations the analyses use (llvm::Regex with anchored
  patterns, llvm::StringRef): a matcher by derivatives, shown to decide the expression's language,
  and splitting, trimming and lowering of strings.
\<close>

section \<open>Regular expressions\<close>

datatype rx = Never | Eps | Cls "char list" | Seq rx rx | Alt rx rx | Star rx

inductive lang :: "rx \<Rightarrow> string \<Rightarrow> bool" where
  eps: "lang Eps []"
| cls: "c \<in> set cs \<Longrightarrow> lang (Cls cs) [c]"
| seq: "lang r u \<Longrightarrow> lang s v \<Longrightarrow> lang (Seq r s) (u @ v)"
| alt1: "lang r u \<Longrightarrow> lang (Alt r s) u"
| alt2: "lang s u \<Longrightarrow> lang (Alt r s) u"
| star0: "lang (Star r) []"
| star1: "lang r u \<Longrightarrow> lang (Star r) v \<Longrightarrow> lang (Star r) (u @ v)"

inductive_cases lang_elims [elim!]: "lang Never u" "lang Eps u" "lang (Cls cs) u" "lang (Seq r s) u" "lang (Alt r s) u"

fun nullable :: "rx \<Rightarrow> bool" where
  "nullable Never = False"
| "nullable Eps = True"
| "nullable (Cls cs) = False"
| "nullable (Seq r s) \<longleftrightarrow> nullable r \<and> nullable s"
| "nullable (Alt r s) \<longleftrightarrow> nullable r \<or> nullable s"
| "nullable (Star r) = True"

fun deriv :: "char \<Rightarrow> rx \<Rightarrow> rx" where
  "deriv c Never = Never"
| "deriv c Eps = Never"
| "deriv c (Cls cs) = (if List.member cs c then Eps else Never)"
| "deriv c (Seq r s) = (if nullable r then Alt (Seq (deriv c r) s) (deriv c s) else Seq (deriv c r) s)"
| "deriv c (Alt r s) = Alt (deriv c r) (deriv c s)"
| "deriv c (Star r) = Seq (deriv c r) (Star r)"

fun matches :: "rx \<Rightarrow> string \<Rightarrow> bool" where
  "matches r [] = nullable r"
| "matches r (c # u) = matches (deriv c r) u"

lemma nullable_iff: "nullable r \<longleftrightarrow> lang r []"
proof (induction r)
  case (Seq r s)
  then show ?case by (metis append_Nil lang_elims(4) append_is_Nil_conv nullable.simps(4) seq)
qed (auto intro: lang.intros)

lemma star_Cons: "lang (Star r) (c # u) \<Longrightarrow> \<exists>v w. u = v @ w \<and> lang r (c # v) \<and> lang (Star r) w"
  by (induction "Star r" "c # u" rule: lang.induct) (auto simp: append_eq_Cons_conv)

lemma deriv_iff: "lang (deriv c r) u \<longleftrightarrow> lang r (c # u)"
proof (induction r arbitrary: u)
  case (Seq r s)
  show ?case
  proof
    assume "lang (deriv c (Seq r s)) u"
    then show "lang (Seq r s) (c # u)"
      using Seq nullable_iff [of r] by (auto split: if_splits) (metis append_Cons seq, metis append_Nil seq, metis append_Cons seq)
  next
    assume "lang (Seq r s) (c # u)"
    then obtain v w where vw: "c # u = v @ w" "lang r v" "lang s w" by auto
    show "lang (deriv c (Seq r s)) u"
    proof (cases v)
      case Nil
      then show ?thesis using vw Seq nullable_iff [of r] by (auto intro: alt2)
    next
      case (Cons d v')
      then have "lang (Seq (deriv c r) s) u" using vw Seq by (auto intro: seq)
      then show ?thesis by (simp add: alt1)
    qed
  qed
next
  case (Star r)
  show ?case
  proof
    assume "lang (deriv c (Star r)) u"
    then show "lang (Star r) (c # u)" using Star by (auto) (metis append_Cons star1)
  next
    assume "lang (Star r) (c # u)"
    then obtain v w where "u = v @ w" "lang r (c # v)" "lang (Star r) w" using star_Cons by blast
    then show "lang (deriv c (Star r)) u" using Star by (simp add: seq)
  qed
qed (auto intro: lang.intros)

lemma matches_iff: "matches r u \<longleftrightarrow> lang r u"
  by (induction u arbitrary: r) (simp_all add: nullable_iff deriv_iff)

text \<open>Abbreviations for patterns.\<close>

fun lit :: "string \<Rightarrow> rx" where
  "lit [] = Eps"
| "lit (c # s) = Seq (Cls [c]) (lit s)"

definition opt :: "rx \<Rightarrow> rx" where
  "opt r = Alt r Eps"

definition plus :: "rx \<Rightarrow> rx" where
  "plus r = Seq r (Star r)"

fun seqs :: "rx list \<Rightarrow> rx" where
  "seqs [] = Eps"
| "seqs (r # rs) = Seq r (seqs rs)"

fun alts :: "rx list \<Rightarrow> rx" where
  "alts [] = Never"
| "alts (r # rs) = Alt r (alts rs)"

definition lits :: "string list \<Rightarrow> rx" where
  "lits ss = alts (map lit ss)"

definition digit :: rx where
  "digit = Cls ''0123456789''"

definition lower_letter :: rx where
  "lower_letter = Cls ''abcdefghijklmnopqrstuvwxyz''"

definition alnum :: rx where
  "alnum = Cls ''abcdefghijklmnopqrstuvwxyz0123456789''"

definition tab :: char where
  "tab = CHR 0x09"

definition newline :: char where
  "newline = CHR 0x0A"

definition carriage_return :: char where
  "carriage_return = CHR 0x0D"

definition blank :: rx where
  "blank = Cls [CHR '' '', tab]"

section \<open>Strings\<close>

definition is_space :: "char \<Rightarrow> bool" where
  "is_space c = List.member [CHR '' '', tab, newline, CHR 0x0B, CHR 0x0C, carriage_return] c"

definition ltrim :: "string \<Rightarrow> string" where
  "ltrim s = dropWhile is_space s"

definition rtrim :: "string \<Rightarrow> string" where
  "rtrim s = rev (dropWhile is_space (rev s))"

definition trim :: "string \<Rightarrow> string" where
  "trim s = ltrim (rtrim s)"

text \<open>The string before and after the first occurrence of a separator; all of it when there is none.\<close>

fun split_at :: "string \<Rightarrow> string \<Rightarrow> string \<times> string" where
  "split_at sep [] = ([], [])"
| "split_at sep (c # s) =
     (if starts_with (c # s) sep then ([], drop (length sep) (c # s))
      else case split_at sep s of (a, b) \<Rightarrow> (c # a, b))"

definition to_lower :: "char \<Rightarrow> char" where
  "to_lower c = (case map_of (zip ''ABCDEFGHIJKLMNOPQRSTUVWXYZ'' ''abcdefghijklmnopqrstuvwxyz'') c of
     Some d \<Rightarrow> d | None \<Rightarrow> c)"

definition lower :: "string \<Rightarrow> string" where
  "lower s = map to_lower s"

text \<open>The pieces of a string between the characters that end a statement, the empty ones included.\<close>

fun statements :: "(char \<Rightarrow> bool) \<Rightarrow> string \<Rightarrow> string list" where
  "statements p [] = [[]]"
| "statements p (c # s) = (if p c then [] # statements p s
     else case statements p s of [] \<Rightarrow> [[c]] | t # ts \<Rightarrow> (c # t) # ts)"

end
