(* ===== verification/Blocking.thy ===== *)
theory Blocking
  imports Wtc_Ops Cir_Trace Regex
begin

text \<open>
  Which operations may block (Transforms/Blocking.cpp) and the check that a function declared
  lock-free reaches none of them (WTCCheckProgress.cpp). The demangler is an argument. A function is
  named by its symbol in the tables of the walk; the functions being walked are an argument of the
  walk, which adds and removes them in pairs, and its memory and its mark of a cycle are its state.
\<close>

section \<open>Functions without a body\<close>

datatype blocking_kind = Allocates | Waits | Threading | InputOutput | Sleeps | Throws | MayThrow | Opaque
  | UnknownTarget | Assembly | Refused

record external_blocking =
  ext_kind :: blocking_kind
  ext_what :: string
  ext_threading :: bool

definition registering :: "string list" where
  "registering = [''rte_ring_create'', ''rte_ring_create_elem'', ''rte_stack_create'', ''rte_mempool_create'',
     ''rte_mempool_create_empty'', ''rte_pktmbuf_pool_create'', ''rte_pktmbuf_pool_create_by_ops'',
     ''rte_pktmbuf_pool_create_extbuf'']"

definition freeing :: "string list" where
  "freeing = [''realloc'', ''free'', ''rte_free'']"

text \<open>The replaceable operator new and delete, by their mangled names.\<close>

definition newDelete :: rx where
  "newDelete = Seq (lit ''_Z'') (Alt
     (seqs [lit ''n'', Cls ''wa'', Cls ''mj'', opt (lit ''St11align_val_t''), opt (lit ''RKSt9nothrow_t'')])
     (seqs [lit ''d'', Cls ''la'', lit ''Pv'', opt (Cls ''mj''), opt (lit ''St11align_val_t''), opt (lit ''RKSt9nothrow_t'')]))"

definition thread_waits :: "string list" where
  "thread_waits = [''pthread_join'', ''pthread_timedjoin_np'', ''pthread_tryjoin_np'', ''pthread_once'', ''thrd_join'',
     ''call_once'', ''syscall'']"

definition thread_wait_prefixes :: "string list" where
  "thread_wait_prefixes = [''pthread_mutex_'', ''pthread_cond_'', ''pthread_rwlock_'', ''pthread_spin_'', ''pthread_barrier_'',
     ''sem_'', ''mtx_'', ''cnd_'']"

definition otherWaits :: "string list" where
  "otherWaits =
    [''semop'', ''semtimedop'', ''flock'', ''lockf'', ''poll'', ''ppoll'', ''epoll_wait'', ''epoll_pwait'',
     ''select'', ''pselect'', ''recv'', ''recvfrom'', ''recvmsg'', ''recvmmsg'', ''accept'', ''accept4'',
     ''wait'', ''waitpid'', ''wait3'', ''wait4'', ''waitid'', ''pause'', ''sigwait'', ''sigwaitinfo'',
     ''sigtimedwait'', ''sigsuspend'', ''rte_eal_wait_lcore'', ''rte_eal_mp_wait_lcore'',
     ''rte_thread_join'']"

definition ext_is :: "string \<Rightarrow> blocking_kind \<Rightarrow> string \<Rightarrow> bool \<Rightarrow> external_blocking option" where
  "ext_is name k what threading = Some \<lparr>ext_kind = k, ext_what = what @ '' ('' @ name @ '')'', ext_threading = threading\<rparr>"

definition externalBlocking :: "(string \<Rightarrow> string) \<Rightarrow> cfunc \<Rightarrow> external_blocking option" where
  "externalBlocking demangle f =
     (let mangled = sym f; name = demangle mangled
      in if touchesOnlyItsArguments (Some f) then None
         else if List.member registering mangled
         then ext_is name Waits ''takes a DPDK library lock (the EAL tail-queue lock)'' False
         else if isAllocator (Some f) \<or> List.member freeing mangled \<or> matches newDelete mangled
         then ext_is name Allocates ''calls the allocator'' False
         else if list_ex (starts_with mangled) thread_wait_prefixes
         then ext_is name Waits ''waits in the threading library'' True
         else if List.member thread_waits mangled \<or> contains_str mangled ''futex'' \<or> starts_with name ''std::call_once''
           \<or> starts_with name ''std::thread::join'' \<or> starts_with name ''std::condition_variable::wait''
           \<or> contains_str name ''condition_variable_any::wait''
         then ext_is name Waits ''waits in the threading library'' True
         else if List.member [''sched_yield'', ''thrd_yield'', ''pthread_yield''] mangled
         then ext_is name Waits ''sleeps or yields'' True
         else if starts_with mangled ''pthread_'' \<or> starts_with mangled ''thrd_''
         then ext_is name Threading ''calls into the threading library'' True
         else if List.member otherWaits mangled then ext_is name Waits ''waits for another thread or process'' False
         else if starts_with mangled ''__cxa_guard_acquire'' then ext_is name Waits ''takes a static-initialisation lock'' False
         else if List.member [''printf'', ''fprintf'', ''puts'', ''fputs'', ''write'', ''read'', ''fwrite'', ''fflush''] mangled
           \<or> starts_with name ''std::basic_ostream'' \<or> starts_with name ''std::operator<<''
         then ext_is name InputOutput ''does input or output'' False
         else if List.member [''sleep'', ''usleep'', ''nanosleep''] mangled then ext_is name Sleeps ''sleeps or yields'' False
         else if starts_with mangled ''__cxa_throw'' \<or> starts_with mangled ''__cxa_allocate_exception''
           \<or> starts_with mangled ''__cxa_rethrow''
         then ext_is name Throws ''throws'' False
         else if body f \<noteq> [] then
           Some \<lparr>ext_kind = Opaque, ext_what = ''calls '' @ name
             @ '', whose body here may be replaced at link time, so it is counted as blocking'', ext_threading = False\<rparr>
         else Some \<lparr>ext_kind = Opaque, ext_what = ''calls '' @ name
             @ '', whose body is not visible here, so it is counted as blocking'', ext_threading = False\<rparr>)"

section \<open>Code the allocator calls\<close>

definition callback_names :: "string list" where
  "callback_names = [''rte_mem_event_callback_register'', ''rte_mem_alloc_validator_register'', ''__malloc_hook'',
     ''__free_hook'', ''__realloc_hook'', ''__memalign_hook'', ''__after_morecore_hook'']"

definition registers :: "(string \<Rightarrow> string) \<Rightarrow> string \<Rightarrow> bool" where
  "registers demangle s \<longleftrightarrow> List.member callback_names s \<or> starts_with (demangle s) ''std::set_new_handler''"

definition named_sym :: "irop \<Rightarrow> string" where
  "named_sym x = (case okind x of
     KCall c \<Rightarrow> (case callee c of Some s \<Rightarrow> s | None \<Rightarrow> [])
   | KGetGlobal s \<Rightarrow> s
   | _ \<Rightarrow> [])"

definition allocatorCallbackRegistration :: "(string \<Rightarrow> string) \<Rightarrow> cmodule \<Rightarrow> string option" where
  "allocatorCallbackRegistration demangle m =
     map_option (\<lambda>x. demangle (named_sym x)) (find (\<lambda>x. named_sym x \<noteq> [] \<and> registers demangle (named_sym x)) (all_ops m))"

section \<open>Inline assembly\<close>

definition bare :: "string list" where
  "bare = [''pause'', ''lfence'', ''mfence'', ''sfence'', ''rdtsc'', ''rdtscp'', ''nop'', ''yield'', ''isb'']"

definition bareInert :: "string list" where
  "bareInert = [''rdtsc'', ''rdtscp'', ''nop'']"

text \<open>A \<open>$n\<close> or \<open>${n:mod}\<close> operand of the template.\<close>

definition template_operand :: rx where
  "template_operand = Alt (Seq (lit ''$'') (plus digit))
     (seqs [lit ''${'', plus digit, opt (Seq (lit '':'') (plus lower_letter)), lit ''}''])"

definition x86Prefetch :: rx where
  "x86Prefetch = seqs [lit ''prefetch'', opt (lits [''t0'', ''t1'', ''t2'', ''nta'', ''w'']), plus blank,
     Alt template_operand
       (seqs [opt (lit ''-''), Star digit, lit ''('', lit ''%'', plus alnum,
          opt (seqs [lit '','', Star blank, lit ''%'', plus alnum, opt (seqs [lit '','', Star blank, Cls ''1248''])]),
          lit '')''])]"

definition armPrefetch :: rx where
  "armPrefetch = seqs [lit ''prfm'', plus blank, lit ''p'', lits [''ld'', ''li'', ''st''], lit ''l'', Cls ''123'',
     lits [''keep'', ''strm''], lit '','', Star blank,
     alts [seqs [lit ''['', plus alnum, opt (seqs [lit '','', Star blank, lit ''#'', opt (lit ''-''), plus digit]), lit '']''],
       seqs [lit ''['', template_operand, lit '']''],
       template_operand]]"

definition armBarrier :: rx where
  "armBarrier = seqs [lits [''dmb'', ''dsb''], plus blank,
     lits [''sy'', ''ld'', ''st'', ''ish'', ''ishld'', ''ishst'', ''osh'', ''oshld'', ''oshst'', ''nsh'', ''nshld'', ''nshst'']]"

definition stackFence :: rx where
  "stackFence = seqs [lit ''lock'', plus blank, lit ''add'', opt (Cls ''bwlq''), plus blank, lit ''$$0,'', Star blank,
     lit ''-'', plus digit, lit ''(%rsp)'']"

definition bad_char :: "char \<Rightarrow> bool" where
  "bad_char c \<longleftrightarrow> (of_char c :: nat) < 32 \<and> c \<noteq> newline \<and> c \<noteq> carriage_return \<and> c \<noteq> tab \<or> of_char c = (127 :: nat)"

definition ends_stmt :: "char \<Rightarrow> bool" where
  "ends_stmt c \<longleftrightarrow> c = newline \<or> c = carriage_return \<or> c = CHR '';''"

definition bareAlone :: "bool \<Rightarrow> string \<Rightarrow> string \<Rightarrow> bool" where
  "bareAlone inert stmt only =
     (let (mnemonic, rest) = (case split_at '' '' stmt of (a, b) \<Rightarrow>
            if List.member a tab then split_at [tab] stmt else (a, b));
          rest = trim rest
      in if \<not> List.member bare mnemonic \<or> only \<noteq> [] \<and> mnemonic \<noteq> only then False
         else if inert \<and> \<not> List.member bareInert mnemonic then False
         else rest = [] \<or> starts_with rest ''#'')"

definition no_comment :: "string \<Rightarrow> string" where
  "no_comment s = rtrim (fst (split_at ''//'' s))"

text \<open>One statement, already joined with its prefix.\<close>

definition stmt_allowed :: "bool \<Rightarrow> string \<Rightarrow> bool" where
  "stmt_allowed inert stmt =
     (if bareAlone inert stmt [] then True
      else if starts_with stmt ''rep '' \<or> starts_with stmt (''rep'' @ [tab])
      then \<not> inert \<and> bareAlone inert (ltrim (drop 4 stmt)) ''nop''
      else if matches x86Prefetch stmt \<or> matches armPrefetch stmt then True
      else \<not> inert \<and> (matches armBarrier stmt \<or> matches stackFence stmt))"

fun stmts_allowed :: "bool \<Rightarrow> string list \<Rightarrow> bool \<Rightarrow> bool" where
  "stmts_allowed inert [] any \<longleftrightarrow> any \<or> \<not> inert"
| "stmts_allowed inert (s # ss) any =
     (let stmt = no_comment (lower (trim s))
      in if stmt = [] \<or> starts_with stmt ''#'' then stmts_allowed inert ss any
         else if stmt = ''rep'' \<or> stmt = ''lock'' then
           (case ss of
             [] \<Rightarrow> stmt_allowed inert stmt \<and> stmts_allowed inert [] True
           | t # ts \<Rightarrow> stmt_allowed inert (no_comment (stmt @ '' '' @ lower (trim t))) \<and> stmts_allowed inert ts True)
         else stmt_allowed inert stmt \<and> stmts_allowed inert ss True)"

definition onlyNonBlockingInstructions :: "string \<Rightarrow> bool \<Rightarrow> bool" where
  "onlyNonBlockingInstructions text inert =
     (if contains_str text ''%%'' then False
      else if list_ex bad_char text then False
      else stmts_allowed inert (statements ends_stmt text) False)"

section \<open>Sites\<close>

record blocking_site =
  leaf :: irop
  bkind :: blocking_kind
  why :: string
  bcallee :: "cfunc option"
  bthreading :: bool
  chain_calls :: "irop list"
  via :: "cfunc list"

text \<open>What a query is made with: the module, the demangler, the kinds a pass accepts, its own refusal.\<close>

record query =
  qm :: cmodule
  qdemangle :: "string \<Rightarrow> string"
  accepted :: "blocking_kind list"
  extra :: "irop \<Rightarrow> bool \<Rightarrow> blocking_site option"

definition ownerlessSlots :: "cmodule \<Rightarrow> val list" where
  "ownerlessSlots m = List.map_filter (\<lambda>x. case okind x of
     KWtc w \<Rightarrow> if wk w = WPop \<and> w_borrowed w \<and> wimpl w = Some spsc_inline then getOut w else None
   | _ \<Rightarrow> None) (all_ops m)"

definition base_step :: "cmodule \<Rightarrow> val \<Rightarrow> val option" where
  "base_step m v = (case def_op m v of
     Some x \<Rightarrow> if okind x = KBaseClassAddr then (case oargs x of d # _ \<Rightarrow> Some d | [] \<Rightarrow> None) else None
   | None \<Rightarrow> None)"

definition ownerless :: "cmodule \<Rightarrow> val \<Rightarrow> bool" where
  "ownerless m v = (case while_option (\<lambda>v. base_step m v \<noteq> None) (\<lambda>v. the (base_step m v)) v of
     Some u \<Rightarrow> List.member (ownerlessSlots m) u | None \<Rightarrow> False)"

definition site :: "query \<Rightarrow> irop \<Rightarrow> blocking_kind \<Rightarrow> string \<Rightarrow> blocking_site option" where
  "site q x k w =
     (if List.member (accepted q) k then None
      else Some \<lparr>leaf = x, bkind = k, why = w, bcallee = None, bthreading = False, chain_calls = [], via = []\<rparr>)"

text \<open>An operation that is not a call, answered on the spot.\<close>

definition leaf_site :: "query \<Rightarrow> irop \<Rightarrow> blocking_site option" where
  "leaf_site q x = (case okind x of
     KWtc w \<Rightarrow> (if getProgress w = blocking then site q x Waits (getBlockingReason w)
                else if mayCallAllocator w then site q x Allocates (getBlockingReason w) else None)
   | KAsm text \<Rightarrow> (if onlyNonBlockingInstructions text False then None
                   else site q x Assembly ''runs inline assembly, which is not looked into'')
   | KOther name \<Rightarrow> (if contains_str name ''asm'' then site q x Assembly ''runs inline assembly, which is not looked into''
                     else None)
   | KThrow \<Rightarrow> site q x Throws ''throws: the C++ runtime allocates the exception and unwinds the stack''
   | KAllocException \<Rightarrow> site q x Throws ''throws: the C++ runtime allocates the exception and unwinds the stack''
   | _ \<Rightarrow> None)"

text \<open>The functions a call may enter: nothing when they are not known.\<close>

definition call_targets :: "query \<Rightarrow> callinfo \<Rightarrow> irop \<Rightarrow> cfunc list option" where
  "call_targets q c x = (case lookupCallee (qm q) c of
     Some f \<Rightarrow> (if oargs x \<noteq> [] \<and> ownerless (qm q) (hd (oargs x)) then Some [] else Some [f])
   | None \<Rightarrow> (case indirectCallees (qm q) c of [] \<Rightarrow> None | ts \<Rightarrow> Some ts))"

definition not_followed :: "cfunc \<Rightarrow> bool" where
  "not_followed t \<longleftrightarrow> body t = [] \<or> link t = Interposable"

definition target_site :: "query \<Rightarrow> callinfo \<Rightarrow> irop \<Rightarrow> cfunc \<Rightarrow> blocking_site option" where
  "target_site q c x t =
     (let ext = externalBlocking (qdemangle q) t;
          mk = (\<lambda>k w. Some \<lparr>leaf = x, bkind = k, why = w, bcallee = Some t,
                 bthreading = (case ext of Some e \<Rightarrow> ext_threading e | None \<Rightarrow> False), chain_calls = [], via = []\<rparr>);
          wait = (case ext of Some e \<Rightarrow> ext_kind e = Waits \<or> ext_kind e = Threading | None \<Rightarrow> False)
      in if wait \<and> \<not> List.member (accepted q) (ext_kind (the ext)) then mk (ext_kind (the ext)) (ext_what (the ext))
         else if \<not> cnothrow c \<and> \<not> List.member (accepted q) MayThrow
         then mk MayThrow (''may throw ('' @ qdemangle q (sym t) @ '')'')
         else case ext of
           Some e \<Rightarrow> if \<not> List.member (accepted q) (ext_kind e) then mk (ext_kind e) (ext_what e) else None
         | None \<Rightarrow> None)"

section \<open>The walk\<close>

record walk_state =
  memo :: "(string \<times> blocking_site option) list"
  metCycle :: bool

type_synonym answer = "blocking_site option \<times> walk_state"

definition through :: "irop \<Rightarrow> cfunc \<Rightarrow> blocking_site \<Rightarrow> blocking_site" where
  "through x t s = s\<lparr>chain_calls := x # chain_calls s, via := t # via s\<rparr>"

definition leave :: "string \<Rightarrow> bool \<Rightarrow> answer \<Rightarrow> answer" where
  "leave n outer a = (case a of (found, st) \<Rightarrow>
     (found, st\<lparr>memo := (if found \<noteq> None \<or> \<not> metCycle st then (n, found) # memo st else memo st),
               metCycle := outer \<or> metCycle st\<rparr>))"

definition left_over :: "query \<Rightarrow> string list \<Rightarrow> nat" where
  "left_over q prog = card (sym ` set (funcs (qm q)) - set prog)"

lemma left_over_less: "f \<in> set (funcs (qm q)) \<Longrightarrow> sym f \<notin> set prog \<Longrightarrow> left_over q (sym f # prog) < left_over q prog"
  unfolding left_over_def by (rule psubset_card_mono) auto

text \<open>
  \<open>siteAt\<close>: one operation; \<open>first_target\<close>: the functions one call may enter; \<open>first_op\<close>: the
  operations of a body; \<open>firstIn\<close>: a function. A function entered is one of the module's.
\<close>

function (sequential) siteAt :: "query \<Rightarrow> string list \<Rightarrow> irop \<Rightarrow> bool \<Rightarrow> walk_state \<Rightarrow> answer"
    and first_target :: "query \<Rightarrow> string list \<Rightarrow> callinfo \<Rightarrow> irop \<Rightarrow> cfunc list \<Rightarrow> walk_state \<Rightarrow> answer"
    and first_op :: "query \<Rightarrow> string list \<Rightarrow> irop list \<Rightarrow> walk_state \<Rightarrow> answer"
    and firstIn :: "query \<Rightarrow> string list \<Rightarrow> cfunc \<Rightarrow> walk_state \<Rightarrow> answer" where
  "siteAt q prog x inCallee st = (case extra q x inCallee of
     Some s \<Rightarrow> (Some s, st)
   | None \<Rightarrow> (case okind x of
       KCall c \<Rightarrow> (case call_targets q c x of
           None \<Rightarrow> (site q x UnknownTarget ''makes an indirect call whose target is not known here'', st)
         | Some ts \<Rightarrow> first_target q prog c x ts st)
     | _ \<Rightarrow> (leaf_site q x, st)))"
| "first_target q prog c x [] st = (None, st)"
| "first_target q prog c x (t # ts) st =
     (if not_followed t then
        (case target_site q c x t of Some s \<Rightarrow> (Some s, st) | None \<Rightarrow> first_target q prog c x ts st)
      else (case firstIn q prog t st of
          (Some s, st') \<Rightarrow> (Some (through x t s), st')
        | (None, st') \<Rightarrow> first_target q prog c x ts st'))"
| "first_op q prog [] st = (None, st)"
| "first_op q prog (x # xs) st = (case siteAt q prog x True st of
     (Some s, st') \<Rightarrow> (Some s, st')
   | (None, st') \<Rightarrow> first_op q prog xs st')"
| "firstIn q prog f st = (case map_of (memo st) (sym f) of
     Some a \<Rightarrow> (a, st)
   | None \<Rightarrow>
      (if sym f \<in> set prog \<or> f \<notin> set (funcs (qm q)) then (None, st\<lparr>metCycle := True\<rparr>)
       else leave (sym f) (metCycle st) (first_op q (sym f # prog) (walk_region (body f)) (st\<lparr>metCycle := False\<rparr>))))"
  by pat_completeness auto

termination
  by (relation "measures [
      \<lambda>a. case a of Inl (Inl (q, p, x, b, s)) \<Rightarrow> left_over q p | Inl (Inr (q, p, c, x, ts, s)) \<Rightarrow> left_over q p
        | Inr (Inl (q, p, xs, s)) \<Rightarrow> left_over q p | Inr (Inr (q, p, f, s)) \<Rightarrow> left_over q p,
      \<lambda>a. case a of Inl (Inl _) \<Rightarrow> 2 | Inl (Inr _) \<Rightarrow> 1 | Inr (Inl _) \<Rightarrow> 3 | Inr (Inr _) \<Rightarrow> 0,
      \<lambda>a. case a of Inl (Inr (q, p, c, x, ts, s)) \<Rightarrow> length ts | Inr (Inl (q, p, xs, s)) \<Rightarrow> length xs | _ \<Rightarrow> 0]")
    (auto simp: left_over_less)

text \<open>The sites of a function's own body, once per chain of locations and reason.\<close>

type_synonym site_key = "nat list \<times> nat \<times> string"

definition site_key_of :: "(irop \<Rightarrow> nat) \<Rightarrow> blocking_site \<Rightarrow> site_key" where
  "site_key_of loc s = (map loc (chain_calls s), loc (leaf s), why s)"

fun sites_of :: "query \<Rightarrow> (irop \<Rightarrow> nat) \<Rightarrow> string list \<Rightarrow> irop list \<Rightarrow> site_key list \<Rightarrow> blocking_site list \<Rightarrow> walk_state
    \<Rightarrow> blocking_site list \<times> walk_state" where
  "sites_of q loc prog [] seen sites st = (sites, st)"
| "sites_of q loc prog (x # xs) seen sites st = (case siteAt q prog x False st of
     (None, st') \<Rightarrow> sites_of q loc prog xs seen sites st'
   | (Some s, st') \<Rightarrow>
       if site_key_of loc s \<in> set seen then sites_of q loc prog xs seen sites st'
       else sites_of q loc prog xs (site_key_of loc s # seen) (sites @ [s]) st')"

definition sitesIn :: "query \<Rightarrow> (irop \<Rightarrow> nat) \<Rightarrow> cfunc \<Rightarrow> walk_state \<Rightarrow> blocking_site list \<times> walk_state" where
  "sitesIn q loc f st = (case sites_of q loc [sym f] (walk_region (body f)) [] [] st of
     (sites, st') \<Rightarrow> (sites, st'\<lparr>metCycle := False\<rparr>))"

section \<open>The progress check\<close>

datatype diag_note = Calls irop string bool | Which irop string | More nat

datatype report = Remark string | Error string "diag_note list"

definition kMaxSites :: nat where
  "kMaxSites = 8"

definition site_notes :: "query \<Rightarrow> blocking_site \<Rightarrow> diag_note list" where
  "site_notes q s = map (\<lambda>(x, t). Calls x (qdemangle q (sym t)) (callee_of (qm q) x = None)) (zip (chain_calls s) (via s))
     @ [Which (leaf s) (why s)]"

definition report_of :: "query \<Rightarrow> cfunc \<Rightarrow> blocking_site list \<Rightarrow> report" where
  "report_of q f sites =
     (let name = qdemangle q (sym f)
      in if sites = [] then Remark (name @ '' is declared lock-free: nothing it reaches blocks'')
         else Error (name @ '' is declared lock-free but can block'')
           (concat (map (site_notes q) (take kMaxSites sites))
            @ (if length sites > kMaxSites then [More (length sites - kMaxSites)] else [])))"

definition declared_lock_free :: "cfunc \<Rightarrow> bool" where
  "declared_lock_free f \<longleftrightarrow> hasAnnotation (Some f) ''wtc_progress_lock_free'' \<and> body f \<noteq> []"

fun check_funcs :: "query \<Rightarrow> (irop \<Rightarrow> nat) \<Rightarrow> cfunc list \<Rightarrow> walk_state \<Rightarrow> report list" where
  "check_funcs q loc [] st = []"
| "check_funcs q loc (f # fs) st =
     (if \<not> declared_lock_free f then check_funcs q loc fs st
      else case sitesIn q loc f st of (sites, st') \<Rightarrow> report_of q f sites # check_funcs q loc fs st')"

definition progress_query :: "cmodule \<Rightarrow> (string \<Rightarrow> string) \<Rightarrow> query" where
  "progress_query m demangle = \<lparr>qm = m, qdemangle = demangle, accepted = [MayThrow], extra = (\<lambda>_ _. None)\<rparr>"

definition is_error :: "report \<Rightarrow> bool" where
  "is_error r = (case r of Error _ _ \<Rightarrow> True | Remark _ \<Rightarrow> False)"

text \<open>The reports, and whether the pass fails.\<close>

definition checkProgress :: "cmodule \<Rightarrow> (string \<Rightarrow> string) \<Rightarrow> (irop \<Rightarrow> nat) \<Rightarrow> report list \<times> bool" where
  "checkProgress m demangle loc =
     (let rs = check_funcs (progress_query m demangle) loc (funcs m) \<lparr>memo = [], metCycle = False\<rparr>
      in (rs, list_ex is_error rs))"

end
