(* ===== verification/Work_Estimate.thy ===== *)
theory Work_Estimate
  imports Blocking Trace_Correct Complex_Main
begin

text \<open>
  How much work code does (Transforms/WorkEstimate.cpp): the trip count of a loop whose bounds are
  constants, and the estimate of operations, regions, calls and functions. Units are exact
  rationals where the code has doubles. What a load reads, which the estimate follows through
  globals declared constant, is a constant of the IR with its width.
\<close>

section \<open>Constant integers\<close>

type_synonym apint = "nat \<times> int"

definition is_signed :: "cty option \<Rightarrow> bool" where
  "is_signed t = (case t of Some (IntT s w) \<Rightarrow> s | _ \<Rightarrow> False)"

definition signedInt :: "cty option \<Rightarrow> bool" where
  "signedInt t = is_signed t"

text \<open>An integer read at its width and given another.\<close>

definition resize :: "bool \<Rightarrow> nat \<Rightarrow> apint \<Rightarrow> apint" where
  "resize sd w v = (case v of (w0, i) \<Rightarrow> (w, (if sd then sext w0 i else zext w0 i) mod 2 ^ w))"

definition const_global :: "cmodule \<Rightarrow> val \<Rightarrow> apint option" where
  "const_global m a = (case get_global m a of None \<Rightarrow> None
     | Some s \<Rightarrow> (case find_global m s of None \<Rightarrow> None
         | Some g \<Rightarrow> if \<not> gconst g then None
             else (case ginit g of Some (CInt sg w i) \<Rightarrow> Some (w, i) | _ \<Rightarrow> None)))"

text \<open>
  Casts are followed to operands defined before them, as the operands of the IR are.
\<close>

function constantInt :: "cmodule \<Rightarrow> param_types \<Rightarrow> val \<Rightarrow> apint option" where
  "constantInt m pt v = (case def_op m v of None \<Rightarrow> None
     | Some x \<Rightarrow> (case okind x of
         KConst c \<Rightarrow> (case c of CInt sg w i \<Rightarrow> Some (w, i) | _ \<Rightarrow> None)
       | KCast k \<Rightarrow>
          (if k \<noteq> integral then None
           else case (oargs x, otys x) of
             ([src], [t]) \<Rightarrow>
               (case (ty_of m pt src, t) of
                 (Some (IntT sg w), IntT sg' w') \<Rightarrow>
                   (if root_id src < root_id v then map_option (resize sg w') (constantInt m pt src) else None)
               | _ \<Rightarrow> None)
           | _ \<Rightarrow> None)
       | KLoad vol \<Rightarrow> (case oargs x of [a] \<Rightarrow> if vol then None else const_global m a | _ \<Rightarrow> None)
       | _ \<Rightarrow> None))"
  by pat_completeness auto

termination
  by (relation "measure (\<lambda>(m, pt, v). root_id v)") auto

section \<open>Trip counts\<close>

fun flip_cmp :: "cmp_kind \<Rightarrow> cmp_kind" where
  "flip_cmp Clt = Cgt"
| "flip_cmp Cle = Cge"
| "flip_cmp Cgt = Clt"
| "flip_cmp Cge = Cle"
| "flip_cmp k = k"

text \<open>The loaded counter, the comparison read as \<open>i kind bound\<close>, the bound and the type compared.\<close>

definition trip_cond :: "cmodule \<Rightarrow> param_types \<Rightarrow> irop list list \<Rightarrow> (val \<times> cmp_kind \<times> apint \<times> bool \<times> nat) option" where
  "trip_cond m pt cond = (case last_op cond of None \<Rightarrow> None
     | Some t \<Rightarrow> if okind t \<noteq> KCondition then None
       else (case oargs t of [c] \<Rightarrow> (case def_op m c of None \<Rightarrow> None
           | Some x \<Rightarrow> (case (okind x, oargs x) of
               (KCmp k, [l, r]) \<Rightarrow>
                 (case ty_of m pt l of
                   Some (IntT sg w) \<Rightarrow>
                     (case (load_addr m l, constantInt m pt r) of
                       (Some a, Some b) \<Rightarrow> Some (a, k, b, sg, w)
                     | _ \<Rightarrow> (case (load_addr m r, constantInt m pt l) of
                         (Some a, Some b) \<Rightarrow> Some (a, flip_cmp k, b, sg, w)
                       | _ \<Rightarrow> None))
                 | _ \<Rightarrow> None)
             | _ \<Rightarrow> None))
         | _ \<Rightarrow> None))"

definition is_one :: "apint option \<Rightarrow> bool" where
  "is_one k = (case k of Some (w, i) \<Rightarrow> zext w i = 1 | None \<Rightarrow> False)"

definition is_all_ones :: "apint option \<Rightarrow> bool" where
  "is_all_ones k = (case k of Some (w, i) \<Rightarrow> zext w i = 2 ^ w - 1 | None \<Rightarrow> False)"

definition stored_step :: "cmodule \<Rightarrow> param_types \<Rightarrow> val \<Rightarrow> val \<Rightarrow> int" where
  "stored_step m pt slot v = (case def_op m v of None \<Rightarrow> 0
     | Some x \<Rightarrow> (case (okind x, oargs x) of
         (KInc, [i]) \<Rightarrow> if load_addr m i = Some slot then 1 else 0
       | (KDec, [i]) \<Rightarrow> if load_addr m i = Some slot then -1 else 0
       | (KAdd, [l, r]) \<Rightarrow>
           if load_addr m l = Some slot
           then (if is_one (constantInt m pt r) then 1 else if is_all_ones (constantInt m pt r) then -1 else 0)
           else 0
       | (KSub, [l, r]) \<Rightarrow> if load_addr m l = Some slot \<and> is_one (constantInt m pt r) then -1 else 0
       | _ \<Rightarrow> 0))"

fun step_direction :: "cmodule \<Rightarrow> param_types \<Rightarrow> val \<Rightarrow> irop \<Rightarrow> irop list \<Rightarrow> int \<Rightarrow> int option" where
  "step_direction m pt slot loop [] dir = (if dir = 0 then None else Some dir)"
| "step_direction m pt slot loop (u # us) dir =
     (if is_read u then step_direction m pt slot loop us dir
      else if store_addr u \<noteq> Some slot then None
      else if u \<notin> set (walk loop) then step_direction m pt slot loop us dir
      else if dir \<noteq> 0 \<or> u \<notin> set (walk_region (regs loop ! 2)) then None
      else let d = (case store_value u of Some v \<Rightarrow> stored_step m pt slot v | None \<Rightarrow> 0)
        in if d = 0 then None else step_direction m pt slot loop us d)"

fun first_value :: "cmodule \<Rightarrow> param_types \<Rightarrow> val \<Rightarrow> irop list \<Rightarrow> apint option" where
  "first_value m pt slot [] = None"
| "first_value m pt slot (x # xs) =
     (if store_addr x = Some slot then Option.bind (store_value x) (constantInt m pt)
      else if list_ex (\<lambda>y. store_addr y = Some slot) (walk x) then None
      else first_value m pt slot xs)"

record trip_shape =
  tkind :: cmp_kind
  tdir :: int
  tsigned :: bool
  twidth :: nat
  tfirst :: apint
  tbound :: apint

definition loop_shape :: "cmodule \<Rightarrow> param_types \<Rightarrow> irop \<Rightarrow> trip_shape option" where
  "loop_shape m pt loop = (case trip_cond m pt (regs loop ! 0) of None \<Rightarrow> None
     | Some (slot, k, b, sg, w) \<Rightarrow>
         if \<not> is_alloca m slot then None
         else (case step_direction m pt slot loop (users m slot) 0 of None \<Rightarrow> None
           | Some d \<Rightarrow> (case first_value m pt slot (prev_nodes m loop) of None \<Rightarrow> None
               | Some a \<Rightarrow> if fst a > 64 \<or> fst b > 64 then None
                   else Some \<lparr>tkind = k, tdir = d, tsigned = sg, twidth = w, tfirst = a, tbound = b\<rparr>)))"

definition wide :: "bool \<Rightarrow> apint \<Rightarrow> int" where
  "wide sd v = (case v of (w, i) \<Rightarrow> if sd then sext w i else zext w i)"

definition at_max :: "bool \<Rightarrow> apint \<Rightarrow> bool" where
  "at_max sd v = (case v of (w, i) \<Rightarrow> zext w i = (if sd then 2 ^ (w - 1) - 1 else 2 ^ w - 1))"

definition at_min :: "bool \<Rightarrow> apint \<Rightarrow> bool" where
  "at_min sd v = (case v of (w, i) \<Rightarrow> zext w i = (if sd then 2 ^ (w - 1) else 0))"

definition trip_count :: "trip_shape \<Rightarrow> nat option" where
  "trip_count s =
     (let a = wide (tsigned s) (tfirst s); b = wide (tsigned s) (tbound s);
          clamp = (\<lambda>n. if n > 2 ^ 64 - 1 then None else Some (nat n))
      in if fst (tbound s) = twidth s
            \<and> (tdir s > 0 \<and> tkind s = Cle \<and> at_max (tsigned s) (tbound s)
               \<or> tdir s < 0 \<and> tkind s = Cge \<and> at_min (tsigned s) (tbound s)) then None
         else if tdir s > 0 then
           (case tkind s of Clt \<Rightarrow> clamp (b - a) | Cle \<Rightarrow> clamp (b - a + 1)
             | Cne \<Rightarrow> if b < a then None else clamp (b - a) | _ \<Rightarrow> None)
         else (case tkind s of Cgt \<Rightarrow> clamp (a - b) | Cge \<Rightarrow> clamp (a - b + 1)
             | Cne \<Rightarrow> if b > a then None else clamp (a - b) | _ \<Rightarrow> None))"

definition constantTripCount :: "cmodule \<Rightarrow> param_types \<Rightarrow> irop \<Rightarrow> nat option" where
  "constantTripCount m pt loop = Option.bind (loop_shape m pt loop) trip_count"

section \<open>Estimates\<close>

record work_estimate =
  units :: rat
  bounded :: bool
  at_op :: "irop option"
  because :: string

definition est_of :: "rat \<Rightarrow> work_estimate" where
  "est_of u = \<lparr>units = u, bounded = True, at_op = None, because = []\<rparr>"

definition unbounded :: "irop option \<Rightarrow> string \<Rightarrow> work_estimate" where
  "unbounded x w = \<lparr>units = 0, bounded = False, at_op = x, because = w\<rparr>"

definition est_plus :: "work_estimate \<Rightarrow> work_estimate \<Rightarrow> work_estimate" where
  "est_plus a b = (if \<not> bounded a then a else if \<not> bounded b then b else a\<lparr>units := units a + units b\<rparr>)"

definition larger :: "work_estimate \<Rightarrow> work_estimate \<Rightarrow> work_estimate" where
  "larger a b = (if \<not> bounded a then a else if \<not> bounded b then b else if units a \<ge> units b then a else b)"

definition times_est :: "nat \<Rightarrow> work_estimate \<Rightarrow> work_estimate" where
  "times_est n e = (if bounded e then e\<lparr>units := units e * of_nat n\<rparr> else e)"

definition kDivision :: rat where
  "kDivision = 40"

definition kDivisionByConstant :: rat where
  "kDivisionByConstant = 2"

definition kFloatDivision :: rat where
  "kFloatDivision = 15"

definition kTranscendental :: rat where
  "kTranscendental = 200"

definition kTimestamp :: rat where
  "kTimestamp = 90"

definition kAllocator :: rat where
  "kAllocator = 100"

definition kCall :: rat where
  "kCall = 1"

text \<open>The operations as the front end names them.\<close>

fun op_name :: "opkind \<Rightarrow> string" where
  "op_name (KCall c) = ''cir.call''"
| "op_name (KWtc w) = ''wtc''"
| "op_name (KConst c) = ''cir.const''"
| "op_name (KCast k) = ''cir.cast''"
| "op_name KUcc = ''builtin.unrealized_conversion_cast''"
| "op_name (KLoad v) = ''cir.load''"
| "op_name KStore = ''cir.store''"
| "op_name KAlloca = ''cir.alloca''"
| "op_name (KGetGlobal s) = ''cir.get_global''"
| "op_name KLifetimeStart = ''cir.lifetime.start''"
| "op_name KLifetimeEnd = ''cir.lifetime.end''"
| "op_name KGetMember = ''cir.get_member''"
| "op_name KBaseClassAddr = ''cir.base_class_addr''"
| "op_name KScope = ''cir.scope''"
| "op_name KCleanupScope = ''cir.cleanup.scope''"
| "op_name KCondition = ''cir.condition''"
| "op_name KReturn = ''cir.return''"
| "op_name KMemSet = ''cir.libc.memset''"
| "op_name KMemCpy = ''cir.libc.memcpy''"
| "op_name KMemMove = ''cir.libc.memmove''"
| "op_name (KOther s) = s"
| "op_name _ = ''cir''"

definition free_ops :: "string list" where
  "free_ops = [''cir.const'', ''cir.alloca'', ''cir.get_global'', ''cir.get_member'', ''cir.yield'', ''cir.condition'',
     ''cir.return'', ''cir.break'', ''cir.continue'', ''cir.scope'', ''cir.cleanup.scope'', ''cir.case'', ''cir.switch'',
     ''cir.lifetime.start'', ''cir.lifetime.end'', ''cir.assume'', ''cir.expect'', ''cir.unreachable'',
     ''cir.base_class_addr'', ''cir.derived_class_addr'', ''cir.launder'', ''cir.objsize'', ''cir.is_constant'',
     ''cir.freeze'', ''cir.token.none'', ''cir.label'', ''cir.br'', ''cir.try'', ''builtin.unrealized_conversion_cast'']"

definition transcendental :: "string list" where
  "transcendental = [''cir.sin'', ''cir.cos'', ''cir.tan'', ''cir.asin'', ''cir.acos'', ''cir.atan'', ''cir.atan2'',
     ''cir.sinh'', ''cir.cosh'', ''cir.tanh'', ''cir.exp'', ''cir.exp2'', ''cir.exp10'', ''cir.log'', ''cir.log2'',
     ''cir.log10'', ''cir.pow'', ''cir.fmod'']"

definition asm_units :: "string \<Rightarrow> rat" where
  "asm_units text = sum_list (map (\<lambda>s. let stmt = trim s in
       if stmt = [] then 0 else if contains_str (lower stmt) ''rdtsc'' then kTimestamp else 1)
     (statements (\<lambda>c. c = newline \<or> c = CHR '';'') text))"

definition own :: "cmodule \<Rightarrow> param_types \<Rightarrow> irop \<Rightarrow> rat" where
  "own m pt x =
     (let n = op_name (okind x)
      in if List.member free_ops n then 0
         else case okind x of
           KCast k \<Rightarrow> if List.member [int_to_float, float_to_int, floating, bool_to_float] k then 1 else 0
         | KIntrinsic name \<Rightarrow> if List.member [''x86.rdtsc'', ''x86.rdtscp''] name then kTimestamp else 1
         | KAsm text \<Rightarrow> asm_units text
         | _ \<Rightarrow>
            (if List.member [''cir.div'', ''cir.rem''] n
             then (case oargs x of a # b # _ \<Rightarrow> if constantInt m pt b \<noteq> None then kDivisionByConstant else kDivision
                   | _ \<Rightarrow> kDivision)
             else if List.member [''cir.fdiv'', ''cir.frem'', ''cir.sqrt''] n then kFloatDivision
             else if List.member transcendental n then kTranscendental
             else 1))"

text \<open>Work over a number of bytes, when it is a constant below \<open>2^40\<close>.\<close>

definition length_units :: "apint option \<Rightarrow> rat option" where
  "length_units k = (case k of Some (w, i) \<Rightarrow> if zext w i < 2 ^ 40 then Some (2 + of_int (zext w i) / 8) else None
     | None \<Rightarrow> None)"

definition external :: "cmodule \<Rightarrow> param_types \<Rightarrow> (string \<Rightarrow> string) \<Rightarrow> irop \<Rightarrow> cfunc \<Rightarrow> work_estimate" where
  "external m pt demangle x f =
     (let n = sym f; name = demangle n
      in if body f \<noteq> []
         then unbounded (Some x) (''it calls '' @ name @ '', whose body here may be replaced at link time'')
         else if touchesOnlyItsArguments (Some f) then
           (if List.member [''abs'', ''labs'', ''llabs'', ''fabs'', ''fabsf''] n then est_of 1
            else if List.member [''sqrt'', ''sqrtf''] n then est_of kFloatDivision
            else if n \<noteq> ''strlen'' \<and> n \<noteq> ''strcmp'' \<and> length (oargs x) \<ge> 3 then
              (case length_units (constantInt m pt (oargs x ! 2)) of
                 Some u \<Rightarrow> est_of u
               | None \<Rightarrow> unbounded (Some x) (''it calls '' @ n @ '' with a length not known here''))
            else unbounded (Some x) (''it calls '' @ n @ '', whose work depends on its argument''))
         else if (case externalBlocking demangle f of Some e \<Rightarrow> ext_kind e = Allocates | None \<Rightarrow> False) then est_of kAllocator
         else unbounded (Some x) (''it calls '' @ name @ '', whose body is not visible here''))"

section \<open>The estimator\<close>

record estimator =
  em :: cmodule
  ept :: param_types
  edemangle :: "string \<Rightarrow> string"

record est_state =
  ememo :: "(string \<times> work_estimate) list"
  metDepth :: bool

type_synonym est_answer = "work_estimate \<times> est_state"

definition kMaxDepth :: nat where
  "kMaxDepth = 32"

definition goto_reason :: string where
  "goto_reason = ''its control flow is not structured (a goto)''"

definition loop_reason :: string where
  "loop_reason = ''it runs a loop whose trip count is not known here''"

definition est_leave :: "string \<Rightarrow> bool \<Rightarrow> est_answer \<Rightarrow> est_answer" where
  "est_leave n outer a = (case a of (e, st) \<Rightarrow>
     (e, st\<lparr>ememo := (if \<not> metDepth st then (n, e) # ememo st else ememo st), metDepth := outer \<or> metDepth st\<rparr>))"

definition est_targets_of :: "cmodule \<Rightarrow> callinfo \<Rightarrow> cfunc list" where
  "est_targets_of m c = (case lookupCallee m c of Some f \<Rightarrow> [f] | None \<Rightarrow> indirectCallees m c)"

definition memory_op :: "string \<Rightarrow> bool" where
  "memory_op n = List.member [''cir.libc.memcpy'', ''cir.libc.memmove'', ''cir.libc.memset'', ''cir.libc.memchr''] n"

text \<open>An operation that is neither a branch, a loop nor a call, without the regions it holds.\<close>

definition flat_op :: "estimator \<Rightarrow> irop \<Rightarrow> work_estimate option" where
  "flat_op E x =
     (if memory_op (op_name (okind x)) then
        Some (case length_units (if oargs x = [] then None else constantInt (em E) (ept E) (last (oargs x))) of
           Some u \<Rightarrow> est_of u
         | None \<Rightarrow> unbounded (Some x) ''it copies or scans a length not known here'')
      else case okind x of KCopy bytes \<Rightarrow> Some (est_of (2 + of_nat bytes / 8)) | _ \<Rightarrow> None)"

datatype op_class = CFor | COtherLoop | CBranch | CCall callinfo | CWtc | CFlat

fun class_of :: "opkind \<Rightarrow> op_class" where
  "class_of KFor = CFor"
| "class_of KLoop = COtherLoop"
| "class_of KIf = CBranch"
| "class_of KTernary = CBranch"
| "class_of (KCall c) = CCall c"
| "class_of (KWtc w) = CWtc"
| "class_of k = CFlat"

abbreviation block_size :: "irop list \<Rightarrow> nat" where
  "block_size \<equiv> size_list size"

abbreviation region_size :: "irop list list \<Rightarrow> nat" where
  "region_size \<equiv> size_list block_size"

abbreviation regions_size :: "irop list list list \<Rightarrow> nat" where
  "regions_size \<equiv> size_list region_size"

text \<open>
  The recursion is over the functions that may still be entered (\<open>d\<close>, what is left of \<open>kMaxDepth\<close>)
  and the operations: \<open>stk\<close> holds the functions entered, which the code keeps in \<open>stack\<close>.
\<close>

function (sequential) est_op :: "estimator \<Rightarrow> nat \<Rightarrow> string list \<Rightarrow> (irop \<Rightarrow> bool) \<Rightarrow> irop \<Rightarrow> est_state \<Rightarrow> est_answer"
    and est_region :: "estimator \<Rightarrow> nat \<Rightarrow> string list \<Rightarrow> (irop \<Rightarrow> bool) \<Rightarrow> irop option \<Rightarrow> irop list list \<Rightarrow> est_state \<Rightarrow> est_answer"
    and est_block :: "estimator \<Rightarrow> nat \<Rightarrow> string list \<Rightarrow> (irop \<Rightarrow> bool) \<Rightarrow> irop list \<Rightarrow> work_estimate \<Rightarrow> est_state \<Rightarrow> est_answer"
    and est_regions :: "estimator \<Rightarrow> nat \<Rightarrow> string list \<Rightarrow> (irop \<Rightarrow> bool) \<Rightarrow> irop option \<Rightarrow> irop list list list \<Rightarrow> work_estimate \<Rightarrow> est_state \<Rightarrow> est_answer"
    and est_targets :: "estimator \<Rightarrow> nat \<Rightarrow> string list \<Rightarrow> irop \<Rightarrow> cfunc list \<Rightarrow> work_estimate \<Rightarrow> est_state \<Rightarrow> est_answer"
    and est_function :: "estimator \<Rightarrow> nat \<Rightarrow> string list \<Rightarrow> cfunc \<Rightarrow> est_state \<Rightarrow> est_answer" where
  "est_op E d stk skip (IrOp n k vs ts rs) st =
     (let x = IrOp n k vs ts rs in
      case class_of k of
        CFor \<Rightarrow> (case constantTripCount (em E) (ept E) x of
            None \<Rightarrow> (unbounded (Some x) loop_reason, st)
          | Some trips \<Rightarrow> (case rs of
              [cond, bd, stp] \<Rightarrow>
                (let (e0, st0) = est_region E d stk skip (Some x) cond st;
                     (e1, st1) = est_region E d stk skip (Some x) cond st0;
                     (e2, st2) = est_region E d stk skip (Some x) bd st1;
                     (e3, st3) = est_region E d stk skip (Some x) stp st2
                 in (est_plus e0 (times_est trips (est_plus (est_plus e1 e2) e3)), st3))
            | _ \<Rightarrow> (unbounded (Some x) loop_reason, st)))
      | COtherLoop \<Rightarrow> (unbounded (Some x) loop_reason, st)
      | CBranch \<Rightarrow> (case rs of
            [a, b] \<Rightarrow> (let (e1, st1) = est_region E d stk skip (Some x) a st; (e2, st2) = est_region E d stk skip (Some x) b st1
                       in (larger e1 e2, st2))
          | _ \<Rightarrow> (est_of 0, st))
      | CCall c \<Rightarrow> (case est_targets_of (em E) c of
            [] \<Rightarrow> (unbounded (Some x) ''it makes an indirect call whose targets are not known here'', st)
          | targets \<Rightarrow> est_targets E d stk x targets (est_of 0) st)
      | CWtc \<Rightarrow> (unbounded (Some x) ''it acts on a queue or a mutex, whose cost is not modelled'', st)
      | CFlat \<Rightarrow> (case flat_op E x of
            Some e \<Rightarrow> (e, st)
          | None \<Rightarrow> est_regions E d stk skip (Some x) rs (est_of (own (em E) (ept E) x)) st))"
| "est_region E d stk skip par r st = (case r of
     [] \<Rightarrow> (est_of 0, st)
   | [b] \<Rightarrow> est_block E d stk skip b (est_of 0) st
   | _ \<Rightarrow> (unbounded par goto_reason, st))"
| "est_block E d stk skip [] e st = (e, st)"
| "est_block E d stk skip (x # xs) e st =
     (if skip x then est_block E d stk skip xs e st
      else let (e2, st2) = est_op E d stk skip x st; e' = est_plus e e2
        in if \<not> bounded e' then (e', st2) else est_block E d stk skip xs e' st2)"
| "est_regions E d stk skip par [] e st = (e, st)"
| "est_regions E d stk skip par (r # rs) e st =
     (let (e2, st2) = est_region E d stk skip par r st; e' = est_plus e e2
      in if \<not> bounded e' then (e', st2) else est_regions E d stk skip par rs e' st2)"
| "est_targets E d stk x [] worst st = (est_plus worst (est_of kCall), st)"
| "est_targets E d stk x (t # ts) worst st =
     (let (e, st2) =
        (if not_followed t then (external (em E) (ept E) (edemangle E) x t, st)
         else if sym t \<in> set stk then (unbounded (Some x) (''it makes a recursive call to '' @ edemangle E (sym t)), st)
         else (case d of
             0 \<Rightarrow> (unbounded (Some x) ''it calls more than 32 functions deep'', st\<lparr>metDepth := True\<rparr>)
           | Suc d' \<Rightarrow> (let (e, st2) = est_function E d' stk t st
               in (if \<not> bounded e then unbounded (Some x) (''it calls '' @ edemangle E (sym t) @ '', where '' @ because e) else e,
                   st2))));
          worst' = larger worst e
      in if \<not> bounded worst' then (worst', st2) else est_targets E d stk x ts worst' st2)"
| "est_function E d stk f st = (case map_of (ememo st) (sym f) of
     Some e \<Rightarrow> (e, st)
   | None \<Rightarrow> est_leave (sym f) (metDepth st)
       (est_region E d (sym f # stk) (\<lambda>_. False) None (body f) (st\<lparr>metDepth := False\<rparr>)))"
  by pat_completeness auto

termination
  by (relation "measures [
      \<lambda>a. case a of Inl (Inl (E, d, k, p, x, s)) \<Rightarrow> d | Inl (Inr (Inl (E, d, k, p, o', x, s))) \<Rightarrow> d
        | Inl (Inr (Inr (E, d, k, p, x, e, s))) \<Rightarrow> d | Inr (Inl (E, d, k, p, o', x, e, s)) \<Rightarrow> d
        | Inr (Inr (Inl (E, d, k, x, ts, e, s))) \<Rightarrow> d | Inr (Inr (Inr (E, d, k, f, s))) \<Rightarrow> d,
      \<lambda>a. case a of Inr (Inr (Inl _)) \<Rightarrow> 1 | Inr (Inr (Inr _)) \<Rightarrow> 3 | _ \<Rightarrow> 2,
      \<lambda>a. case a of Inl (Inl (E, d, k, p, x, s)) \<Rightarrow> 4 * size x | Inl (Inr (Inl (E, d, k, p, o', r, s))) \<Rightarrow> 4 * region_size r + 1
        | Inl (Inr (Inr (E, d, k, p, xs, e, s))) \<Rightarrow> 4 * block_size xs + 1 | Inr (Inl (E, d, k, p, o', rs, e, s)) \<Rightarrow> 4 * regions_size rs + 2
        | Inr (Inr (Inl (E, d, k, x, ts, e, s))) \<Rightarrow> length ts | _ \<Rightarrow> 0]") auto

text \<open>The estimate of a function, and of an operation, as a pass asks for it.\<close>

definition estimate_function :: "estimator \<Rightarrow> cfunc \<Rightarrow> est_state \<Rightarrow> est_answer" where
  "estimate_function E f st = est_function E (kMaxDepth - 1) [] f st"

definition estimate_op :: "estimator \<Rightarrow> (irop \<Rightarrow> bool) \<Rightarrow> irop \<Rightarrow> est_state \<Rightarrow> est_answer" where
  "estimate_op E skip x st = est_op E kMaxDepth [] skip x st"

end
