(* ===== verification/Work_Correct.thy ===== *)
theory Work_Correct
  imports Work_Estimate
begin

text \<open>
  What the estimate promises: a trip count is the number of times the loop's test holds of its
  counter, kept at its width; and an estimate is a number of units, or none with a reason.
\<close>

section \<open>The loop as the machine runs it\<close>

fun loop_test :: "cmp_kind \<Rightarrow> int \<Rightarrow> int \<Rightarrow> bool" where
  "loop_test Clt a b \<longleftrightarrow> a < b"
| "loop_test Cle a b \<longleftrightarrow> a \<le> b"
| "loop_test Cgt a b \<longleftrightarrow> a > b"
| "loop_test Cge a b \<longleftrightarrow> a \<ge> b"
| "loop_test Ceq a b \<longleftrightarrow> a = b"
| "loop_test Cne a b \<longleftrightarrow> a \<noteq> b"

text \<open>The counter after \<open>k\<close> steps, wrapped at the width of its type.\<close>

fun counter :: "trip_shape \<Rightarrow> nat \<Rightarrow> int" where
  "counter s 0 = snd (tfirst s) mod 2 ^ twidth s"
| "counter s (Suc k) = (counter s k + tdir s) mod 2 ^ twidth s"

definition tested :: "trip_shape \<Rightarrow> nat \<Rightarrow> bool" where
  "tested s k = loop_test (tkind s) (wide (tsigned s) (twidth s, counter s k)) (wide (tsigned s) (tbound s))"

definition runs :: "trip_shape \<Rightarrow> nat \<Rightarrow> bool" where
  "runs s n \<longleftrightarrow> (\<forall>k<n. tested s k) \<and> \<not> tested s n"

lemma counter_closed: "counter s k = (snd (tfirst s) + tdir s * int k) mod 2 ^ twidth s"
proof (induction k)
  case (Suc k)
  have "counter s (Suc k) = (snd (tfirst s) + tdir s * int k + tdir s) mod 2 ^ twidth s"
    unfolding counter.simps Suc by (simp add: mod_simps)
  also have "snd (tfirst s) + tdir s * int k + tdir s = snd (tfirst s) + tdir s * int (Suc k)"
    by (simp add: algebra_simps)
  finally show ?case .
qed simp

section \<open>Values of a width\<close>

definition least :: "bool \<Rightarrow> nat \<Rightarrow> int" where
  "least sd w = (if sd then - (2 ^ (w - 1)) else 0)"

definition greatest :: "bool \<Rightarrow> nat \<Rightarrow> int" where
  "greatest sd w = (if sd then 2 ^ (w - 1) - 1 else 2 ^ w - 1)"

lemma two_pow: "0 < w \<Longrightarrow> (2::int) ^ w = 2 * 2 ^ (w - 1)"
  by (cases w) auto

lemma wide_mod: "wide sd (w, i mod 2 ^ w) = wide sd (w, i)"
  by (simp add: wide_def sext_def zext_def Let_def)

text \<open>A value by its bits read unsigned (\<open>u\<close>), with half the range (\<open>h\<close>).\<close>

lemma wide_bits:
  assumes "0 < w"
  obtains u h where "0 \<le> u" "u < 2 * h" "0 < h" "zext w i = u" "(2::int) ^ w = 2 * h" "(2::int) ^ (w - 1) = h"
    "wide sd (w, i) = (if sd \<and> h \<le> u then u - 2 * h else u)"
proof
  let ?u = "i mod 2 ^ w" and ?h = "(2::int) ^ (w - 1)"
  show p: "(2::int) ^ w = 2 * ?h" using two_pow [OF assms] .
  show "0 \<le> ?u" "0 < ?h" by simp_all
  show "?u < 2 * ?h" unfolding p [symmetric] by simp
  show "zext w i = ?u" "?h = ?h" by (simp_all add: zext_def)
  show "wide sd (w, i) = (if sd \<and> ?h \<le> ?u then ?u - 2 * ?h else ?u)"
    using assms p by (simp add: wide_def sext_def zext_def Let_def)
qed

lemma wide_bounds:
  assumes "0 < w"
  shows "least sd w \<le> wide sd (w, i) \<and> wide sd (w, i) \<le> greatest sd w"
proof -
  obtain u h where "0 \<le> u" "u < 2 * h" "0 < h" "(2::int) ^ w = 2 * h" "(2::int) ^ (w - 1) = h"
    "wide sd (w, i) = (if sd \<and> h \<le> u then u - 2 * h else u)"
    using wide_bits [OF assms, of i sd] by metis
  then show ?thesis by (auto simp: least_def greatest_def)
qed

lemma wide_id:
  assumes "0 < w" and "least sd w \<le> x" and "x \<le> greatest sd w"
  shows "wide sd (w, x) = x"
proof (cases "sd \<and> x < 0")
  case True
  then have "x mod 2 ^ w = x + 2 ^ w"
    using assms two_pow [OF assms(1)] mod_pos_pos_trivial [of "x + 2 ^ w" "2 ^ w"] by (simp add: least_def)
  then show ?thesis using True assms two_pow [OF assms(1)]
    by (simp add: wide_def sext_def Let_def least_def)
next
  case False
  then have "0 \<le> x" "x < 2 ^ w" using assms two_pow [OF assms(1)] by (auto simp: least_def greatest_def split: if_splits)
  then have "x mod 2 ^ w = x" by simp
  then show ?thesis using False assms
    by (auto simp: wide_def sext_def zext_def Let_def greatest_def)
qed

lemma wide_cong: "wide sd (w, wide sd (w, i) + d) = wide sd (w, i + d)"
proof -
  have "wide sd (w, i) mod 2 ^ w = i mod 2 ^ w"
    by (auto simp: wide_def sext_def zext_def Let_def mod_simps)
  then have "(wide sd (w, i) + d) mod 2 ^ w = (i + d) mod 2 ^ w" by (metis mod_add_left_eq)
  then show ?thesis using wide_mod by metis
qed

text \<open>Until it leaves the type's range, the counter is the start plus the steps.\<close>

lemma counter_wide:
  assumes "0 < twidth s" and "fst (tfirst s) = twidth s"
    and "least (tsigned s) (twidth s) \<le> wide (tsigned s) (tfirst s) + tdir s * int k"
    and "wide (tsigned s) (tfirst s) + tdir s * int k \<le> greatest (tsigned s) (twidth s)"
  shows "wide (tsigned s) (twidth s, counter s k) = wide (tsigned s) (tfirst s) + tdir s * int k"
proof -
  have f: "tfirst s = (twidth s, snd (tfirst s))" using assms(2) by (cases "tfirst s") simp
  have "wide (tsigned s) (twidth s, counter s k) = wide (tsigned s) (twidth s, snd (tfirst s) + tdir s * int k)"
    unfolding counter_closed by (rule wide_mod)
  also have "\<dots> = wide (tsigned s) (twidth s, wide (tsigned s) (tfirst s) + tdir s * int k)"
    using wide_cong [of "tsigned s" "twidth s" "snd (tfirst s)"] f by metis
  also have "\<dots> = wide (tsigned s) (tfirst s) + tdir s * int k" using wide_id assms by blast
  finally show ?thesis .
qed

lemma at_max_iff: "0 < w \<Longrightarrow> at_max sd (w, i) \<longleftrightarrow> wide sd (w, i) = greatest sd w"
proof -
  assume "0 < w"
  then obtain u h where "0 \<le> u" "u < 2 * h" "0 < h" "zext w i = u" "(2::int) ^ w = 2 * h" "(2::int) ^ (w - 1) = h"
    "wide sd (w, i) = (if sd \<and> h \<le> u then u - 2 * h else u)"
    using wide_bits [of w i sd] by metis
  then show ?thesis by (auto simp: at_max_def greatest_def)
qed

lemma at_min_iff: "0 < w \<Longrightarrow> at_min sd (w, i) \<longleftrightarrow> wide sd (w, i) = least sd w"
proof -
  assume "0 < w"
  then obtain u h where "0 \<le> u" "u < 2 * h" "0 < h" "zext w i = u" "(2::int) ^ w = 2 * h" "(2::int) ^ (w - 1) = h"
    "wide sd (w, i) = (if sd \<and> h \<le> u then u - 2 * h else u)"
    using wide_bits [of w i sd] by metis
  then show ?thesis by (auto simp: at_min_def least_def)
qed

section \<open>Trip counts\<close>

lemma trip_count_runs:
  assumes n: "trip_count s = Some n" and wf: "fst (tfirst s) = twidth s" and wb: "fst (tbound s) = twidth s"
    and w: "0 < twidth s" and d: "tdir s = 1 \<or> tdir s = -1"
  shows "runs s n"
proof -
  let ?A = "wide (tsigned s) (tfirst s)" and ?B = "wide (tsigned s) (tbound s)"
  let ?lo = "least (tsigned s) (twidth s)" and ?hi = "greatest (tsigned s) (twidth s)"
  have A: "?lo \<le> ?A" "?A \<le> ?hi" using wide_bounds [OF w] wf by (metis prod.collapse)+
  have B: "?lo \<le> ?B" "?B \<le> ?hi" using wide_bounds [OF w] wb by (metis prod.collapse)+
  have mx: "at_max (tsigned s) (tbound s) \<longleftrightarrow> ?B = ?hi" using at_max_iff [OF w] wb by (metis prod.collapse)
  have mn: "at_min (tsigned s) (tbound s) \<longleftrightarrow> ?B = ?lo" using at_min_iff [OF w] wb by (metis prod.collapse)
  have c: "wide (tsigned s) (twidth s, counter s k) = ?A + tdir s * int k"
    if "?lo \<le> ?A + tdir s * int k" "?A + tdir s * int k \<le> ?hi" for k
    using counter_wide [OF w wf that] .
  from d show ?thesis
  proof
    assume up: "tdir s = 1"
    consider "tkind s = Clt" "n = nat (?B - ?A)" | "tkind s = Cle" "n = nat (?B - ?A + 1)" "?B < ?hi"
      | "tkind s = Cne" "n = nat (?B - ?A)" "?A \<le> ?B"
      using n up wb mx B by (cases "tkind s") (auto simp: trip_count_def Let_def split: if_splits)
    then show ?thesis by cases (use up c A B in \<open>auto simp: runs_def tested_def\<close>)
  next
    assume down: "tdir s = -1"
    consider "tkind s = Cgt" "n = nat (?A - ?B)" | "tkind s = Cge" "n = nat (?A - ?B + 1)" "?lo < ?B"
      | "tkind s = Cne" "n = nat (?A - ?B)" "?B \<le> ?A"
      using n down wb mn B by (cases "tkind s") (auto simp: trip_count_def Let_def split: if_splits)
    then show ?thesis by cases (use down c A B in \<open>auto simp: runs_def tested_def\<close>)
  qed
qed

lemma stored_step_cases: "stored_step m pt slot v = 0 \<or> stored_step m pt slot v = 1 \<or> stored_step m pt slot v = -1"
proof (cases "def_op m v")
  case (Some x)
  then show ?thesis by (cases "okind x"; cases "oargs x"; cases "tl (oargs x)"; cases "tl (tl (oargs x))")
      (auto simp: stored_step_def)
qed (simp add: stored_step_def)

lemma step_direction_cases:
  "step_direction m pt slot loop us d0 = Some d \<Longrightarrow> d0 = 0 \<or> d0 = 1 \<or> d0 = -1 \<Longrightarrow> d = 1 \<or> d = -1"
proof (induction m pt slot loop us d0 rule: step_direction.induct)
  case (2 m pt slot loop u us dir)
  have "(case store_value u of Some v \<Rightarrow> stored_step m pt slot v | None \<Rightarrow> 0) \<in> {0, 1, -1}"
    using stored_step_cases by (auto split: option.splits)
  then show ?case using 2 by (auto simp: Let_def split: if_splits)
qed (auto split: if_splits)

text \<open>
  C13: when a loop's counter and bound have the width of its comparison, the trip count computed
  from them is the number of times the loop's test holds: it holds of the counter, wrapping at its
  width, before each of that many steps, and not after them.
\<close>

theorem trip_count_exact:
  assumes "constantTripCount m pt loop = Some n" and "loop_shape m pt loop = Some s"
    and "fst (tfirst s) = twidth s" and "fst (tbound s) = twidth s" and "0 < twidth s"
  shows "runs s n"
proof (rule trip_count_runs [OF _ assms(3-5)])
  show "trip_count s = Some n" using assms(1,2) by (simp add: constantTripCount_def)
  show "tdir s = 1 \<or> tdir s = -1"
  proof -
    obtain slot us where "step_direction m pt slot loop us 0 = Some (tdir s)"
      using assms(2) by (auto simp: loop_shape_def split: option.splits prod.splits if_splits)
    then show ?thesis using step_direction_cases by blast
  qed
qed

definition trip_loop :: irop where
  "trip_loop = IrOp 4 KFor [] []
     [[[IrOp 5 (KLoad False) [Res 1 0] [IntT True 8] [], IrOp 6 (KConst (CInt True 8 125)) [] [IntT True 8] [],
        IrOp 7 (KCmp Cle) [Res 5 0, Res 6 0] [BoolT] [], IrOp 8 KCondition [Res 7 0] [] []]],
      [[IrOp 9 (KOther ''cir.mul'') [] [IntT True 8] []]],
      [[IrOp 10 (KLoad False) [Res 1 0] [IntT True 8] [], IrOp 11 KInc [Res 10 0] [IntT True 8] [],
        IrOp 12 KStore [Res 11 0, Res 1 0] [] []]]]"

definition trip_demo :: cmodule where
  "trip_demo = \<lparr>funcs = [\<lparr>sym = ''f'', annots = None,
     body = [[IrOp 1 KAlloca [] [PtrT (IntT True 8)] [], IrOp 2 (KConst (CInt True 8 (-2))) [] [IntT True 8] [],
       IrOp 3 KStore [Res 2 0, Res 1 0] [] [], trip_loop]],
     link = External, aliasee = None, params = 0, fn_arg_attrs = None\<rparr>], globals = []\<rparr>"

definition no_params :: param_types where
  "no_params f i = VoidT"

definition demo_shape :: trip_shape where
  "demo_shape = \<lparr>tkind = Cle, tdir = 1, tsigned = True, twidth = 8, tfirst = (8, -2), tbound = (8, 125)\<rparr>"

theorem trip_count_exact_witness:
  "constantTripCount trip_demo no_params trip_loop = Some 128 \<and> loop_shape trip_demo no_params trip_loop = Some demo_shape
    \<and> runs demo_shape 128"
proof -
  have c: "constantTripCount trip_demo no_params trip_loop = Some 128"
    and s: "loop_shape trip_demo no_params trip_loop = Some demo_shape" by code_simp+
  have "fst (tfirst demo_shape) = twidth demo_shape" "fst (tbound demo_shape) = twidth demo_shape" "0 < twidth demo_shape"
    by (simp_all add: demo_shape_def)
  from trip_count_exact [OF c s this] show ?thesis using c s by blast
qed

end
