(* ===== verification/Blocking_Correct.thy ===== *)
theory Blocking_Correct
  imports Blocking
begin

text \<open>
  What the walk of Blocking answers: with its memory and its handling of cycles it finds a site
  exactly when an operation that may block can be reached, through the calls that are followed.
\<close>

section \<open>Reaching an operation that may block\<close>

definition blocks :: "query \<Rightarrow> irop \<Rightarrow> bool" where
  "blocks q x \<longleftrightarrow> (case okind x of
     KCall c \<Rightarrow> (case call_targets q c x of
         None \<Rightarrow> \<not> List.member (accepted q) UnknownTarget
       | Some ts \<Rightarrow> \<exists>t\<in>set ts. not_followed t \<and> target_site q c x t \<noteq> None)
   | _ \<Rightarrow> leaf_site q x \<noteq> None)"

definition op_enters :: "query \<Rightarrow> irop \<Rightarrow> cfunc \<Rightarrow> bool" where
  "op_enters q x t \<longleftrightarrow> (\<exists>c ts. okind x = KCall c \<and> call_targets q c x = Some ts \<and> t \<in> set ts \<and> \<not> not_followed t)"

definition enters :: "query \<Rightarrow> cfunc \<Rightarrow> cfunc \<Rightarrow> bool" where
  "enters q f t \<longleftrightarrow> (\<exists>x\<in>set (walk_region (body f)). op_enters q x t)"

inductive reaches :: "query \<Rightarrow> cfunc \<Rightarrow> cfunc \<Rightarrow> bool" for q f where
  self: "reaches q f f"
| step: "reaches q f g \<Longrightarrow> enters q g h \<Longrightarrow> reaches q f h"

definition clean :: "query \<Rightarrow> cfunc \<Rightarrow> bool" where
  "clean q f \<longleftrightarrow> (\<forall>x\<in>set (walk_region (body f)). \<not> blocks q x)"

definition all_clean :: "query \<Rightarrow> cfunc \<Rightarrow> bool" where
  "all_clean q f \<longleftrightarrow> (\<forall>g. reaches q f g \<longrightarrow> clean q g)"

text \<open>Reaching without passing a function under way.\<close>

inductive avoids :: "query \<Rightarrow> string list \<Rightarrow> cfunc \<Rightarrow> cfunc \<Rightarrow> bool" for q P f where
  self: "sym f \<notin> set P \<Longrightarrow> avoids q P f f"
| step: "avoids q P f g \<Longrightarrow> enters q g h \<Longrightarrow> sym h \<notin> set P \<Longrightarrow> avoids q P f h"

lemma reaches_trans: "reaches q g h \<Longrightarrow> reaches q f g \<Longrightarrow> reaches q f h"
  by (induction rule: reaches.induct) (auto intro: reaches.step)

lemma avoids_reaches: "avoids q P f g \<Longrightarrow> reaches q f g"
  by (induction rule: avoids.induct) (auto intro: reaches.intros)

lemma reaches_avoids: "reaches q f g \<Longrightarrow> avoids q [] f g"
  by (induction rule: reaches.induct) (auto intro: avoids.intros)

lemma avoids_start: "avoids q P f g \<Longrightarrow> sym f \<notin> set P"
  by (induction rule: avoids.induct)

lemma enters_reaches: "enters q f t \<Longrightarrow> reaches q t g \<Longrightarrow> reaches q f g"
  using reaches_trans reaches.intros by blast

lemma all_clean_enters: "all_clean q f \<Longrightarrow> enters q f t \<Longrightarrow> all_clean q t"
  using enters_reaches by (auto simp: all_clean_def)

section \<open>Functions of the module\<close>

lemma find_func_in: "find_func m s = Some f \<Longrightarrow> f \<in> set (funcs m)"
  unfolding find_func_def using find_SomeE by fast

lemma follow_alias_in: "follow_alias n m f = Some g \<Longrightarrow> (\<forall>h. f = Some h \<longrightarrow> h \<in> set (funcs m)) \<Longrightarrow> g \<in> set (funcs m)"
  by (induction n m f rule: follow_alias.induct) (auto split: option.splits if_splits dest: find_func_in)

lemma lookupCallee_in: "lookupCallee m c = Some f \<Longrightarrow> f \<in> set (funcs m)"
  unfolding lookupCallee_def by (auto split: option.splits intro: follow_alias_in dest: find_func_in)

lemma callees_through_in:
  "t \<in> set (callees_through m i us out) \<Longrightarrow> set out \<subseteq> set (funcs m) \<Longrightarrow> t \<in> set (funcs m)"
proof (induction m i us out rule: callees_through.induct)
  case (2 m idx x us out)
  show ?case
  proof (cases "okind x")
    case (KCall c)
    let ?k = "firstRealOperand m c (oargs x) + idx"
    show ?thesis
    proof (cases "indirect c \<noteq> None \<or> ?k \<ge> length (oargs x)")
      case True
      then show ?thesis using 2(2) KCall by (auto simp: Let_def split: if_splits)
    next
      case False
      then obtain f where f: "Option.bind (get_global m (traceToRoot m (oargs x ! ?k))) (find_func m) = Some f"
        using 2(2) KCall by (cases "Option.bind (get_global m (traceToRoot m (oargs x ! ?k))) (find_func m)") (auto simp: Let_def)
      then have "f \<in> set (funcs m)" by (auto simp: Option.bind_eq_Some_conv dest: find_func_in)
      then show ?thesis using 2 KCall False f by (auto simp: Let_def split: if_splits)
    qed
  qed (use 2(2) in simp_all)
qed auto

lemma indirectCallees_in: "t \<in> set (indirectCallees m c) \<Longrightarrow> t \<in> set (funcs m)"
  unfolding indirectCallees_def
  by (auto simp: Let_def split: option.splits val.splits if_splits dest: find_func_in find_func_in [OF sym] callees_through_in)

lemma call_targets_in: "call_targets q c x = Some ts \<Longrightarrow> t \<in> set ts \<Longrightarrow> t \<in> set (funcs (qm q))"
  unfolding call_targets_def
  by (auto split: option.splits list.splits if_splits dest: lookupCallee_in indirectCallees_in)

lemma enters_in: "enters q f t \<Longrightarrow> t \<in> set (funcs (qm q))"
  by (auto simp: enters_def op_enters_def dest: call_targets_in)

lemma avoids_in: "avoids q P f g \<Longrightarrow> f \<in> set (funcs (qm q)) \<Longrightarrow> g \<in> set (funcs (qm q))"
  by (induction rule: avoids.induct) (auto dest: enters_in)

definition named_once :: "query \<Rightarrow> bool" where
  "named_once q \<longleftrightarrow> distinct (map sym (funcs (qm q)))"

lemma named_once_inj:
  "named_once q \<Longrightarrow> f \<in> set (funcs (qm q)) \<Longrightarrow> g \<in> set (funcs (qm q)) \<Longrightarrow> sym f = sym g \<Longrightarrow> f = g"
  by (auto simp: named_once_def distinct_map inj_on_def)

text \<open>A path from a function, cut at its last visit to it.\<close>

lemma avoids_cut:
  assumes "named_once q" and "f \<in> set (funcs (qm q))" and "avoids q P f g"
  shows "g = f \<or> (\<exists>t. enters q f t \<and> avoids q (sym f # P) t g)"
  using assms(3)
proof (induction rule: avoids.induct)
  case (step g h)
  show ?case
  proof (cases "sym h = sym f")
    case True
    then show ?thesis using named_once_inj [OF assms(1) _ assms(2)] enters_in [OF step(2)] by blast
  next
    case False
    then have n: "sym h \<notin> set (sym f # P)" using step(3) by simp
    from step(4) show ?thesis
    proof
      assume "g = f"
      then show ?thesis using step(2) avoids.self [OF n] by blast
    next
      assume "\<exists>t. enters q f t \<and> avoids q (sym f # P) t g"
      then show ?thesis using avoids.step [OF _ step(2) n] by blast
    qed
  qed
qed simp

section \<open>The walk\<close>

definition memo_ok :: "query \<Rightarrow> walk_state \<Rightarrow> bool" where
  "memo_ok q st \<longleftrightarrow> (\<forall>f a. f \<in> set (funcs (qm q)) \<longrightarrow> map_of (memo st) (sym f) = Some a \<longrightarrow> (a = None \<longleftrightarrow> all_clean q f))"

text \<open>
  What an answer says of a set of operations (\<open>ops\<close>) and of the functions entered: with a site, one
  of them is, or enters, trouble; without, none of them blocks, and what they enter is clean as
  far as it avoids the functions under way, and altogether when no cycle was met.
\<close>

definition tells :: "query \<Rightarrow> string list \<Rightarrow> bool \<Rightarrow> (cfunc \<Rightarrow> bool) \<Rightarrow> walk_state \<Rightarrow> answer \<Rightarrow> bool" where
  "tells q P bad ent st a \<longleftrightarrow> (case a of (found, st') \<Rightarrow>
     memo_ok q st' \<and> (metCycle st \<longrightarrow> metCycle st')
     \<and> (found \<noteq> None \<longrightarrow> bad \<or> (\<exists>t. ent t \<and> \<not> all_clean q t))
     \<and> (found = None \<longrightarrow> \<not> bad \<and> (\<forall>t g. ent t \<longrightarrow> avoids q P t g \<longrightarrow> clean q g)
          \<and> (\<not> metCycle st' \<longrightarrow> (\<forall>t. ent t \<longrightarrow> all_clean q t))))"

lemma tells_found: "memo_ok q st' \<Longrightarrow> (metCycle st \<Longrightarrow> metCycle st') \<Longrightarrow> bad \<or> (\<exists>t. ent t \<and> \<not> all_clean q t)
    \<Longrightarrow> tells q P bad ent st (Some s, st')"
  by (simp add: tells_def)

text \<open>Two answers one after the other.\<close>

lemma tells_then:
  assumes "tells q P bad1 ent1 st (None, st1)" and "tells q P bad2 ent2 st1 (a, st2)"
  shows "tells q P (bad1 \<or> bad2) (\<lambda>t. ent1 t \<or> ent2 t) st (a, st2)"
  using assms by (cases a) (auto simp: tells_def)

lemma tells_nothing: "memo_ok q st \<Longrightarrow> tells q P False (\<lambda>_. False) st (None, st)"
  by (simp add: tells_def)

lemma tells_entered:
  assumes "named_once q" and f: "f \<in> set (funcs (qm q))" and nP: "sym f \<notin> set P"
    and t: "tells q (sym f # P) (\<exists>x\<in>set (walk_region (body f)). blocks q x) (enters q f) (st\<lparr>metCycle := False\<rparr>) a"
  shows "tells q P False (\<lambda>t. t = f) st (leave (sym f) (metCycle st) a)"
proof -
  obtain found st' where a: "a = (found, st')" by (cases a)
  have memo': "memo_ok q st'" using t a by (simp add: tells_def)
  show ?thesis
  proof (cases found)
    case (Some s)
    then have "(\<exists>x\<in>set (walk_region (body f)). blocks q x) \<or> (\<exists>t. enters q f t \<and> \<not> all_clean q t)"
      using t a by (simp add: tells_def)
    moreover have "clean q f" if "all_clean q f" using that reaches.self by (simp add: all_clean_def)
    ultimately have n: "\<not> all_clean q f" using all_clean_enters unfolding clean_def by blast
    then have "memo_ok q (st'\<lparr>memo := (sym f, Some s) # memo st', metCycle := metCycle st \<or> metCycle st'\<rparr>)"
      using memo' named_once_inj [OF assms(1) _ f] by (auto simp: memo_ok_def)
    then show ?thesis using n Some a by (simp add: leave_def tells_def)
  next
    case None
    then have b: "\<not> (\<exists>x\<in>set (walk_region (body f)). blocks q x)"
      and av: "\<And>t g. enters q f t \<Longrightarrow> avoids q (sym f # P) t g \<Longrightarrow> clean q g"
      and ac: "\<And>t. \<not> metCycle st' \<Longrightarrow> enters q f t \<Longrightarrow> all_clean q t"
      using t a by (auto simp: tells_def)
    have cf: "clean q f" using b by (simp add: clean_def)
    have 1: "clean q g" if "avoids q P f g" for g using avoids_cut [OF assms(1) f that] av cf by blast
    have 2: "all_clean q f" if "\<not> metCycle st'"
    proof -
      have "clean q g" if r: "reaches q f g" for g
      proof -
        have "g = f \<or> (\<exists>t. enters q f t \<and> reaches q t g)"
          using avoids_cut [OF assms(1) f reaches_avoids [OF r]] avoids_reaches by blast
        then show ?thesis using ac [OF \<open>\<not> metCycle st'\<close>] cf unfolding all_clean_def by blast
      qed
      then show ?thesis by (simp add: all_clean_def)
    qed
    have m: "memo_ok q (st'\<lparr>memo := (if \<not> metCycle st' then (sym f, None) # memo st' else memo st'),
        metCycle := metCycle st \<or> metCycle st'\<rparr>)"
      using memo' 2 named_once_inj [OF assms(1) _ f] by (auto simp: memo_ok_def)
    then show ?thesis using 1 2 None a by (simp add: leave_def tells_def)
  qed
qed

definition no_extra :: "query \<Rightarrow> bool" where
  "no_extra q \<longleftrightarrow> extra q = (\<lambda>_ _. None)"

definition target_enters :: "cfunc list \<Rightarrow> cfunc \<Rightarrow> bool" where
  "target_enters ts t \<longleftrightarrow> t \<in> set ts \<and> \<not> not_followed t"

definition target_blocks :: "query \<Rightarrow> callinfo \<Rightarrow> irop \<Rightarrow> cfunc list \<Rightarrow> bool" where
  "target_blocks q c x ts \<longleftrightarrow> (\<exists>t\<in>set ts. not_followed t \<and> target_site q c x t \<noteq> None)"

definition any_blocks :: "query \<Rightarrow> irop list \<Rightarrow> bool" where
  "any_blocks q xs \<longleftrightarrow> (\<exists>x\<in>set xs. blocks q x)"

definition any_enters :: "query \<Rightarrow> irop list \<Rightarrow> cfunc \<Rightarrow> bool" where
  "any_enters q xs t \<longleftrightarrow> (\<exists>x\<in>set xs. op_enters q x t)"

lemma any_Cons: "any_blocks q (x # xs) = (blocks q x \<or> any_blocks q xs)"
  "any_enters q (x # xs) = (\<lambda>t. op_enters q x t \<or> any_enters q xs t)"
  by (auto simp: any_blocks_def any_enters_def [abs_def])

lemma target_Cons:
  "target_blocks q c x (t # ts) = ((not_followed t \<and> target_site q c x t \<noteq> None) \<or> target_blocks q c x ts)"
  "target_enters (t # ts) = (\<lambda>u. u = t \<and> \<not> not_followed t \<or> target_enters ts u)"
  by (auto simp: target_blocks_def target_enters_def)

lemma tells_mono_found: "tells q P bad ent st (Some s, st') \<Longrightarrow> (bad \<longrightarrow> bad') \<Longrightarrow> (\<And>t. ent t \<Longrightarrow> ent' t)
    \<Longrightarrow> tells q P bad' ent' st (Some s', st')"
  by (auto simp: tells_def)

lemma tells_call:
  assumes "okind x = KCall c" and "call_targets q c x = Some ts"
  shows "blocks q x = target_blocks q c x ts" and "op_enters q x = target_enters ts"
  using assms by (auto simp: blocks_def target_blocks_def op_enters_def target_enters_def)

lemma tells_leaf:
  assumes "memo_ok q st" and "\<And>t. \<not> op_enters q x t" and "a \<noteq> None \<longleftrightarrow> blocks q x"
  shows "tells q P (blocks q x) (op_enters q x) st (a, st)"
  using assms by (auto simp: tells_def)

lemma walk_tells:
  "no_extra q \<Longrightarrow> named_once q \<Longrightarrow> memo_ok q st
     \<Longrightarrow> tells q P (blocks q x) (op_enters q x) st (siteAt q P x b st)"
  "no_extra q \<Longrightarrow> named_once q \<Longrightarrow> memo_ok q st \<Longrightarrow> set ts \<subseteq> set (funcs (qm q))
     \<Longrightarrow> tells q P (target_blocks q c x ts) (target_enters ts) st (first_target q P c x ts st)"
  "no_extra q \<Longrightarrow> named_once q \<Longrightarrow> memo_ok q st
     \<Longrightarrow> tells q P (any_blocks q xs) (any_enters q xs) st (first_op q P xs st)"
  "no_extra q \<Longrightarrow> named_once q \<Longrightarrow> memo_ok q st \<Longrightarrow> f \<in> set (funcs (qm q))
     \<Longrightarrow> tells q P False (\<lambda>t. t = f) st (firstIn q P f st)"
proof (induction q P x b st and q P c x ts st and q P xs st and q P f st
    rule: siteAt_first_target_first_op_firstIn.induct)
  case (1 q P x b st)
  have ex: "extra q x b = None" using 1(2) by (simp add: no_extra_def)
  show ?case
  proof (cases "\<exists>c. okind x = KCall c")
    case True
    then obtain c where c: "okind x = KCall c" by blast
    show ?thesis
    proof (cases "call_targets q c x")
      case None
      then have "\<And>t. \<not> op_enters q x t" using c by (simp add: op_enters_def)
      then show ?thesis using 1(4) None c ex by (auto simp: blocks_def site_def tells_def)
    next
      case (Some ts)
      then have "set ts \<subseteq> set (funcs (qm q))" using call_targets_in by blast
      then show ?thesis using 1(1) [OF ex c Some] 1(2-4) ex c Some tells_call [OF c Some] by simp
    qed
  next
    case False
    then have r: "siteAt q P x b st = (leaf_site q x, st)" using ex by (auto split: opkind.splits)
    have n: "\<And>t. \<not> op_enters q x t" using False by (simp add: op_enters_def)
    have b: "leaf_site q x \<noteq> None \<longleftrightarrow> blocks q x" using False by (auto simp: blocks_def split: opkind.splits)
    show ?thesis unfolding r by (rule tells_leaf [OF 1(4) n b])
  qed
next
  case (2 q P c x st)
  then show ?case using tells_nothing by (simp add: target_blocks_def target_enters_def [abs_def])
next
  case (3 q P c x t ts st)
  show ?case
  proof (cases "not_followed t")
    case True
    show ?thesis
    proof (cases "target_site q c x t")
      case None
      then show ?thesis using 3(1) [OF True None] 3(4-7) True by (simp add: target_Cons)
    next
      case (Some s)
      then show ?thesis using True 3(6) by (simp add: target_Cons tells_def)
    qed
  next
    case False
    obtain a st' where r: "firstIn q P t st = (a, st')" by (cases "firstIn q P t st")
    have t1: "tells q P False (\<lambda>u. u = t) st (a, st')" using 3(2) [OF False] 3(4-7) r by simp
    show ?thesis
    proof (cases a)
      case None
      have m: "memo_ok q st'" using t1 by (simp add: tells_def)
      obtain a2 st2 where r2: "first_target q P c x ts st' = (a2, st2)" by (cases "first_target q P c x ts st'")
      have "tells q P (target_blocks q c x ts) (target_enters ts) st' (a2, st2)"
        using 3(3) [OF False r [symmetric] None] 3(4,5,7) m r2 by simp
      then show ?thesis using tells_then [OF t1 [unfolded None]] r r2 None False by (simp add: target_Cons)
    next
      case (Some s)
      then show ?thesis using tells_mono_found [OF t1 [unfolded Some]] r False by (simp add: target_Cons)
    qed
  qed
next
  case (4 q P st)
  then show ?case using tells_nothing by (simp add: any_blocks_def any_enters_def [abs_def])
next
  case (5 q P x xs st)
  obtain a st' where r: "siteAt q P x True st = (a, st')" by (cases "siteAt q P x True st")
  have t1: "tells q P (blocks q x) (op_enters q x) st (a, st')" using 5(1,3-5) r by simp
  show ?case
  proof (cases a)
    case None
    have m: "memo_ok q st'" using t1 by (simp add: tells_def)
    obtain a2 st2 where r2: "first_op q P xs st' = (a2, st2)" by (cases "first_op q P xs st'")
    have "tells q P (any_blocks q xs) (any_enters q xs) st' (a2, st2)"
      using 5(2) [OF r [symmetric] None] 5(3,4) m r2 by simp
    then show ?thesis using tells_then [OF t1 [unfolded None]] r r2 None by (simp add: any_Cons)
  next
    case (Some s)
    then show ?thesis using tells_mono_found [OF t1 [unfolded Some]] r by (simp add: any_Cons)
  qed
next
  case (6 q P f st)
  show ?case
  proof (cases "map_of (memo st) (sym f)")
    case (Some a)
    then have "a = None \<longleftrightarrow> all_clean q f" using 6(4,5) by (auto simp: memo_ok_def)
    then show ?thesis using 6(4) Some avoids_reaches by (cases a) (auto simp: tells_def all_clean_def)
  next
    case None
    show ?thesis
    proof (cases "sym f \<in> set P")
      case True
      have "memo_ok q (st\<lparr>metCycle := True\<rparr>)" using 6(4) by (simp add: memo_ok_def)
      then show ?thesis using True None avoids_start by (auto simp: tells_def)
    next
      case False
      have m: "memo_ok q (st\<lparr>metCycle := False\<rparr>)" using 6(4) by (simp add: memo_ok_def)
      have "tells q (sym f # P) (any_blocks q (walk_region (body f))) (any_enters q (walk_region (body f)))
          (st\<lparr>metCycle := False\<rparr>) (first_op q (sym f # P) (walk_region (body f)) (st\<lparr>metCycle := False\<rparr>))"
        using 6(1) [OF None] False 6(2,3,5) m by simp
      then have "tells q P False (\<lambda>t. t = f) st
          (leave (sym f) (metCycle st) (first_op q (sym f # P) (walk_region (body f)) (st\<lparr>metCycle := False\<rparr>)))"
        using tells_entered [OF 6(3,5) False] by (simp add: any_blocks_def any_enters_def [abs_def] enters_def [abs_def])
      then show ?thesis using None False 6(5) by simp
    qed
  qed
qed

section \<open>The sites of a function\<close>

lemma sites_of_tells:
  assumes "no_extra q" "named_once q" "memo_ok q st" "seen \<noteq> [] \<longrightarrow> sites \<noteq> []"
    and "sites_of q loc P xs seen sites st = (res, st')"
  shows "memo_ok q st' \<and> (res = [] \<longrightarrow> sites = [] \<and> \<not> any_blocks q xs \<and> (\<forall>t g. any_enters q xs t \<longrightarrow> avoids q P t g \<longrightarrow> clean q g))
    \<and> (res \<noteq> [] \<longrightarrow> sites \<noteq> [] \<or> any_blocks q xs \<or> (\<exists>t. any_enters q xs t \<and> \<not> all_clean q t))"
  using assms(3-5)
proof (induction xs arbitrary: seen sites st)
  case Nil
  then show ?case by (auto simp: any_blocks_def any_enters_def)
next
  case (Cons x xs)
  obtain a st1 where r: "siteAt q P x False st = (a, st1)" by (cases "siteAt q P x False st")
  have t: "tells q P (blocks q x) (op_enters q x) st (a, st1)"
    using walk_tells(1) [OF assms(1,2) Cons(2)] r by metis
  then have m: "memo_ok q st1" by (simp add: tells_def)
  show ?case
  proof (cases a)
    case None
    then have "sites_of q loc P xs seen sites st1 = (res, st')" using Cons(4) r by simp
    from Cons(1) [OF m Cons(3) this] show ?thesis using t None by (auto simp: any_Cons tells_def)
  next
    case (Some s)
    then have d: "blocks q x \<or> (\<exists>t. op_enters q x t \<and> \<not> all_clean q t)" using t by (simp add: tells_def)
    show ?thesis
    proof (cases "site_key_of loc s \<in> set seen")
      case True
      then have n: "sites \<noteq> []" using Cons(3) by auto
      have "sites_of q loc P xs seen sites st1 = (res, st')" using Cons(4) r Some True by simp
      from Cons(1) [OF m Cons(3) this] show ?thesis using n d by (auto simp: any_Cons)
    next
      case False
      then have "sites_of q loc P xs (site_key_of loc s # seen) (sites @ [s]) st1 = (res, st')" using Cons(4) r Some by simp
      from Cons(1) [OF m _ this] show ?thesis using d by (auto simp: any_Cons)
    qed
  qed
qed

lemma sitesIn_exact:
  assumes "no_extra q" "named_once q" "memo_ok q st" "f \<in> set (funcs (qm q))" and "sitesIn q loc f st = (sites, st')"
  shows "memo_ok q st' \<and> (sites = [] \<longleftrightarrow> all_clean q f)"
proof -
  obtain st1 where s: "sites_of q loc [sym f] (walk_region (body f)) [] [] st = (sites, st1)" "st' = st1\<lparr>metCycle := False\<rparr>"
    using assms(5) by (auto simp: sitesIn_def split: prod.splits)
  note t = sites_of_tells [OF assms(1-3) _ s(1), simplified]
  have en: "any_enters q (walk_region (body f)) = enters q f" by (simp add: any_enters_def [abs_def] enters_def [abs_def])
  have "all_clean q f" if "sites = []"
  proof -
    have cf: "clean q f" using t that by (auto simp: any_blocks_def clean_def)
    have "clean q g" if r: "reaches q f g" for g
      using avoids_cut [OF assms(2,4) reaches_avoids [OF r]] cf t \<open>sites = []\<close> en by auto
    then show ?thesis by (simp add: all_clean_def)
  qed
  moreover have "\<not> all_clean q f" if "sites \<noteq> []"
  proof
    assume ac: "all_clean q f"
    then have "clean q f" using reaches.self by (simp add: all_clean_def)
    then show False using t that en all_clean_enters [OF ac] by (auto simp: any_blocks_def clean_def)
  qed
  moreover have "memo_ok q st'" using t s(2) by (simp add: memo_ok_def)
  ultimately show ?thesis by blast
qed

lemma check_funcs_exact:
  assumes "no_extra q" "named_once q"
  shows "memo_ok q st \<Longrightarrow> set fs \<subseteq> set (funcs (qm q))
    \<Longrightarrow> list_ex is_error (check_funcs q loc fs st) \<longleftrightarrow> (\<exists>f. f \<in> set fs \<and> declared_lock_free f \<and> \<not> all_clean q f)"
proof (induction fs arbitrary: st)
  case (Cons f fs)
  show ?case
  proof (cases "declared_lock_free f")
    case True
    obtain sites st' where s: "sitesIn q loc f st = (sites, st')" by (cases "sitesIn q loc f st")
    have e: "memo_ok q st' \<and> (sites = [] \<longleftrightarrow> all_clean q f)"
      using sitesIn_exact [OF assms Cons(2) _ s] Cons(3) by simp
    have "is_error (report_of q f sites) \<longleftrightarrow> sites \<noteq> []" by (simp add: report_of_def is_error_def Let_def)
    then show ?thesis using Cons(1) [of st'] Cons(3) True s e by auto
  qed (use Cons in auto)
qed simp

text \<open>
  C12: the progress check fails exactly when a function declared lock-free reaches, through the calls
  that are followed, an operation that may block: its memory of functions already walked and its
  treatment of recursion lose nothing and invent nothing.
\<close>

theorem checkProgress_exact:
  assumes "distinct (map sym (funcs m))"
  shows "snd (checkProgress m demangle loc) \<longleftrightarrow>
    (\<exists>f g x. f \<in> set (funcs m) \<and> declared_lock_free f \<and> reaches (progress_query m demangle) f g
       \<and> x \<in> set (walk_region (body g)) \<and> blocks (progress_query m demangle) x)"
proof -
  let ?q = "progress_query m demangle"
  have q: "no_extra ?q" "named_once ?q" "memo_ok ?q \<lparr>memo = [], metCycle = False\<rparr>" "funcs (qm ?q) = funcs m"
    using assms by (simp_all add: progress_query_def no_extra_def named_once_def memo_ok_def)
  have "snd (checkProgress m demangle loc) \<longleftrightarrow> (\<exists>f. f \<in> set (funcs m) \<and> declared_lock_free f \<and> \<not> all_clean ?q f)"
    using check_funcs_exact [OF q(1,2,3), of "funcs m" loc] q(4) by (simp add: checkProgress_def Let_def)
  then show ?thesis by (auto simp: all_clean_def clean_def)
qed

definition blocking_fn :: "string \<Rightarrow> annot list \<Rightarrow> irop list list \<Rightarrow> cfunc" where
  "blocking_fn n as b = \<lparr>sym = n, annots = Some as, body = b, link = External, aliasee = None, params = 0, fn_arg_attrs = None\<rparr>"

definition plain_call :: "nat \<Rightarrow> string \<Rightarrow> irop" where
  "plain_call i n = IrOp i (KCall \<lparr>callee = Some n, indirect = None, carg_attrs = None, cnothrow = True\<rparr>) [] [] []"

text \<open>A lock-free function and a helper that call each other; the helper yields.\<close>

definition blocking_demo :: cmodule where
  "blocking_demo = \<lparr>funcs = [blocking_fn ''sched_yield'' [] [],
     blocking_fn ''fast'' [Annot ''wtc_progress_lock_free''] [[plain_call 1 ''helper'']],
     blocking_fn ''helper'' [] [[plain_call 2 ''fast'', plain_call 3 ''sched_yield'']]], globals = []\<rparr>"

theorem checkProgress_exact_witness:
  "snd (checkProgress blocking_demo id oid)
   \<and> (\<exists>f g x. f \<in> set (funcs blocking_demo) \<and> declared_lock_free f \<and> reaches (progress_query blocking_demo id) f g
       \<and> x \<in> set (walk_region (body g)) \<and> blocks (progress_query blocking_demo id) x)"
proof -
  have "distinct (map sym (funcs blocking_demo))" and f: "snd (checkProgress blocking_demo id oid)" by code_simp+
  then show ?thesis using checkProgress_exact [of blocking_demo id oid] by blast
qed

end
