(* ===== verification/Work_Worst.thy ===== *)
theory Work_Worst
  imports Work_Correct Blocking_Correct
begin

text \<open>
  The estimate of WorkEstimate.cpp against the runs it estimates: what a run of an operation may
  take, defined without the estimator's memory, depth and stack, and that a bounded estimate is what
  the longest run takes.
\<close>

section \<open>Runs and what they take\<close>

text \<open>
  What a run of an operation takes, apart from any estimate: a loop makes at most the turns its
  trip count allows, each of which evaluates the condition, the body and the step, and then tests
  once more or was left from inside a turn; of a branch one side runs; of a call one target, one
  unit for the call itself; an operation that holds regions runs each of them at most once; a block
  runs its operations in order and may be left after any of them. What is skipped takes nothing. An
  operation without regions and a function without a body take what the tables of the estimator
  say. There is no memory, no depth and no stack here, and a loop without a trip count, an operation
  of the dialect and a region with several blocks have no run.
\<close>

datatype part =
    Op "irop \<Rightarrow> bool" irop
  | Turns "irop \<Rightarrow> bool" "irop list list" "irop list list" "irop list list" nat
  | Callee irop cfunc
  | Rgn "irop \<Rightarrow> bool" "irop list list"
  | Blk "irop \<Rightarrow> bool" "irop list"
  | Rgns "irop \<Rightarrow> bool" "irop list list list"

inductive takes :: "estimator \<Rightarrow> part \<Rightarrow> rat \<Rightarrow> bool" for E where
  for_done: "class_of k = CFor \<Longrightarrow> constantTripCount (em E) (ept E) (IrOp n k vs ts [cond, bd, stp]) = Some trips \<Longrightarrow> t \<le> trips \<Longrightarrow>
    takes E (Turns skip cond bd stp t) a \<Longrightarrow> takes E (Rgn skip cond) b \<Longrightarrow> takes E (Op skip (IrOp n k vs ts [cond, bd, stp])) (b + a)"
| for_left: "class_of k = CFor \<Longrightarrow> constantTripCount (em E) (ept E) (IrOp n k vs ts [cond, bd, stp]) = Some trips \<Longrightarrow> t \<le> trips \<Longrightarrow>
    takes E (Turns skip cond bd stp t) a \<Longrightarrow> takes E (Op skip (IrOp n k vs ts [cond, bd, stp])) a"
| no_turn: "takes E (Turns skip cond bd stp 0) 0"
| turn: "takes E (Rgn skip cond) a \<Longrightarrow> takes E (Rgn skip bd) b \<Longrightarrow> takes E (Rgn skip stp) c \<Longrightarrow> takes E (Turns skip cond bd stp t) d \<Longrightarrow>
    takes E (Turns skip cond bd stp (Suc t)) (a + b + c + d)"
| turn_left: "takes E (Rgn skip cond) a \<Longrightarrow> takes E (Rgn skip bd) b \<Longrightarrow> takes E (Turns skip cond bd stp (Suc t)) (a + b)"
| one_side: "class_of k = CBranch \<Longrightarrow> takes E (Rgn skip r) a \<Longrightarrow> takes E (Op skip (IrOp n k vs ts [r, r'])) a"
| other_side: "class_of k = CBranch \<Longrightarrow> takes E (Rgn skip r') a \<Longrightarrow> takes E (Op skip (IrOp n k vs ts [r, r'])) a"
| no_side: "class_of k = CBranch \<Longrightarrow> length rs \<noteq> 2 \<Longrightarrow> takes E (Op skip (IrOp n k vs ts rs)) 0"
| enters: "class_of k = CCall c \<Longrightarrow> f \<in> set (est_targets_of (em E) c) \<Longrightarrow> takes E (Callee (IrOp n k vs ts rs) f) a \<Longrightarrow>
    takes E (Op skip (IrOp n k vs ts rs)) (a + 1)"
| outside: "not_followed f \<Longrightarrow> e = external (em E) (ept E) (edemangle E) x f \<Longrightarrow> bounded e \<Longrightarrow> takes E (Callee x f) (units e)"
| inside: "\<not> not_followed f \<Longrightarrow> takes E (Rgn (\<lambda>_. False) (body f)) a \<Longrightarrow> takes E (Callee x f) a"
| flat: "class_of k = CFlat \<Longrightarrow> flat_op E (IrOp n k vs ts rs) = Some e \<Longrightarrow> bounded e \<Longrightarrow> takes E (Op skip (IrOp n k vs ts rs)) (units e)"
| holds: "class_of k = CFlat \<Longrightarrow> flat_op E (IrOp n k vs ts rs) = None \<Longrightarrow> takes E (Rgns skip rs) a \<Longrightarrow>
    takes E (Op skip (IrOp n k vs ts rs)) (own (em E) (ept E) (IrOp n k vs ts rs) + a)"
| no_block: "takes E (Rgn skip []) 0"
| one_block: "takes E (Blk skip b) a \<Longrightarrow> takes E (Rgn skip [b]) a"
| block_left: "takes E (Blk skip xs) 0"
| skipped: "skip x \<Longrightarrow> takes E (Blk skip xs) a \<Longrightarrow> takes E (Blk skip (x # xs)) a"
| in_order: "\<not> skip x \<Longrightarrow> takes E (Op skip x) a \<Longrightarrow> takes E (Blk skip xs) b \<Longrightarrow> takes E (Blk skip (x # xs)) (a + b)"
| no_region: "takes E (Rgns skip []) 0"
| not_run: "takes E (Rgns skip rs) a \<Longrightarrow> takes E (Rgns skip (r # rs)) a"
| region_run: "takes E (Rgn skip r) a \<Longrightarrow> takes E (Rgns skip rs) b \<Longrightarrow> takes E (Rgns skip (r # rs)) (a + b)"

inductive_cases takes_Op: "takes E (Op skip (IrOp n k vs ts rs)) c"
inductive_cases takes_Turns: "takes E (Turns skip cond bd stp t) c"
inductive_cases takes_Callee: "takes E (Callee x f) c"
inductive_cases takes_Rgn: "takes E (Rgn skip r) c"
inductive_cases takes_Blk_Nil: "takes E (Blk skip []) c"
inductive_cases takes_Blk: "takes E (Blk skip (x # xs)) c"
inductive_cases takes_Rgns_Nil: "takes E (Rgns skip []) c"
inductive_cases takes_Rgns: "takes E (Rgns skip (r # rs)) c"

text \<open>
  \<open>worst R e\<close>: where \<open>e\<close> is bounded, its units are what the longest run takes. \<open>after e R\<close>: the
  estimate so far and then a run.
\<close>

definition worst :: "(rat \<Rightarrow> bool) \<Rightarrow> work_estimate \<Rightarrow> bool" where
  "worst R e \<longleftrightarrow> (bounded e \<longrightarrow> 0 \<le> units e \<and> R (units e) \<and> (\<forall>c. R c \<longrightarrow> c \<le> units e))"

definition after :: "work_estimate \<Rightarrow> (rat \<Rightarrow> bool) \<Rightarrow> rat \<Rightarrow> bool" where
  "after e R c \<longleftrightarrow> (\<exists>d. R d \<and> c = units e + d)"

definition memo_right :: "estimator \<Rightarrow> est_state \<Rightarrow> bool" where
  "memo_right E st \<longleftrightarrow> (\<forall>f \<in> set (funcs (em E)). \<forall>e. map_of (ememo st) (sym f) = Some e \<longrightarrow>
     worst (takes E (Rgn (\<lambda>_. False) (body f))) e)"


lemma worst_unbounded [simp]: "worst R (unbounded x w)"
  by (simp add: worst_def unbounded_def)

lemma worst_of: "0 \<le> u \<Longrightarrow> R u \<Longrightarrow> (\<And>c. R c \<Longrightarrow> c \<le> u) \<Longrightarrow> worst R (est_of u)"
  by (simp add: worst_def est_of_def)

lemma worst_mono: "worst R e \<Longrightarrow> (\<And>c. R c \<longleftrightarrow> S c) \<Longrightarrow> worst S e"
  by (simp add: worst_def)

lemma worst_plus:
  assumes "worst R a" "worst S b"
  shows "worst (\<lambda>c. \<exists>x y. R x \<and> S y \<and> c = x + y) (est_plus a b)"
  using assms by (fastforce simp: worst_def est_plus_def intro: add_mono)

lemma worst_larger:
  assumes "worst R a" "worst S b"
  shows "worst (\<lambda>c. R c \<or> S c) (larger a b)"
  using assms by (fastforce simp: worst_def larger_def)

lemma zext_nonneg: "0 \<le> zext w i"
  by (simp add: zext_def)

lemma length_units_nonneg: "length_units k = Some u \<Longrightarrow> 0 \<le> u"
  using zext_nonneg by (auto simp: length_units_def split: option.splits prod.splits if_splits)

lemma asm_units_nonneg: "0 \<le> asm_units t"
  unfolding asm_units_def by (rule sum_list_nonneg) (auto simp: Let_def kTimestamp_def)

lemma own_nonneg: "0 \<le> own m pt x"
  using asm_units_nonneg
  by (cases "okind x") (auto simp: own_def Let_def kTimestamp_def kDivision_def kDivisionByConstant_def kFloatDivision_def
      kTranscendental_def split: list.splits)


lemma external_nonneg: "bounded (external m pt dm x f) \<Longrightarrow> 0 \<le> units (external m pt dm x f)"
  unfolding external_def Let_def
  by (auto simp: est_of_def unbounded_def kFloatDivision_def kAllocator_def split: option.splits dest: length_units_nonneg)

lemma flat_op_nonneg: "flat_op E x = Some e \<Longrightarrow> bounded e \<Longrightarrow> 0 \<le> units e"
  by (cases "okind x") (auto simp: flat_op_def est_of_def unbounded_def split: if_splits option.splits dest: length_units_nonneg)

lemma est_targets_in: "f \<in> set (est_targets_of m c) \<Longrightarrow> f \<in> set (funcs m)"
  using lookupCallee_in indirectCallees_in by (auto simp: est_targets_of_def split: option.splits)

text \<open>Turns of a loop.\<close>

lemma turns_worst:
  assumes "worst (takes E (Rgn skip cond)) e1" "worst (takes E (Rgn skip bd)) e2" "worst (takes E (Rgn skip stp)) e3"
    and b: "bounded (est_plus (est_plus e1 e2) e3)"
  shows "takes E (Turns skip cond bd stp t) (units (est_plus (est_plus e1 e2) e3) * of_nat t)"
    and "takes E (Turns skip cond bd stp t) c \<Longrightarrow> c \<le> units (est_plus (est_plus e1 e2) e3) * of_nat t"
proof -
  let ?u = "units e1 + units e2 + units e3"
  have bs: "bounded e1" "bounded e2" "bounded e3" and u: "units (est_plus (est_plus e1 e2) e3) = ?u"
    using b by (auto simp: est_plus_def split: if_splits)
  have w1: "0 \<le> units e1" "takes E (Rgn skip cond) (units e1)" "\<And>c. takes E (Rgn skip cond) c \<Longrightarrow> c \<le> units e1"
    and w2: "0 \<le> units e2" "takes E (Rgn skip bd) (units e2)" "\<And>c. takes E (Rgn skip bd) c \<Longrightarrow> c \<le> units e2"
    and w3: "0 \<le> units e3" "takes E (Rgn skip stp) (units e3)" "\<And>c. takes E (Rgn skip stp) c \<Longrightarrow> c \<le> units e3"
    using assms(1-3) bs by (auto simp: worst_def)
  have "takes E (Turns skip cond bd stp t) (?u * of_nat t)"
  proof (induction t)
    case (Suc t)
    then show ?case using takes.turn [OF w1(2) w2(2) w3(2) Suc] by (simp add: algebra_simps)
  qed (simp add: takes.no_turn)
  then show "takes E (Turns skip cond bd stp t) (units (est_plus (est_plus e1 e2) e3) * of_nat t)" by (simp add: u)
  show "takes E (Turns skip cond bd stp t) c \<Longrightarrow> c \<le> units (est_plus (est_plus e1 e2) e3) * of_nat t"
    unfolding u
  proof (induction t arbitrary: c)
    case 0
    then show ?case by (auto elim: takes_Turns)
  next
    case (Suc t)
    have nn: "0 \<le> ?u * of_nat t" using w1(1) w2(1) w3(1) by simp
    from Suc.prems show ?case
    proof (rule takes_Turns)
      fix a b' c' d t' assume "c = a + b' + c' + d" "Suc t = Suc t'" "takes E (Rgn skip cond) a" "takes E (Rgn skip bd) b'"
        "takes E (Rgn skip stp) c'" "takes E (Turns skip cond bd stp t') d"
      then show ?thesis using w1(3) [of a] w2(3) [of b'] w3(3) [of c'] Suc.IH [of d] by (simp add: algebra_simps)
    next
      fix a b' t' assume "c = a + b'" "takes E (Rgn skip cond) a" "takes E (Rgn skip bd) b'"
      then show ?thesis using w1(3) [of a] w2(3) [of b'] w3(1) nn by (simp add: algebra_simps)
    qed simp
  qed
qed


section \<open>The estimator finds the longest run\<close>

definition right :: "estimator \<Rightarrow> (rat \<Rightarrow> bool) \<Rightarrow> est_answer \<Rightarrow> bool" where
  "right E R a \<longleftrightarrow> worst R (fst a) \<and> memo_right E (snd a)"

lemma right_iff [simp]: "right E R (e, st) \<longleftrightarrow> worst R e \<and> memo_right E st"
  by (simp add: right_def)

lemma right_mono: "right E R a \<Longrightarrow> (\<And>c. R c \<longleftrightarrow> S c) \<Longrightarrow> right E S a"
  using worst_mono by (auto simp: right_def)

lemma memo_right_met [simp]: "memo_right E (st\<lparr>metDepth := b\<rparr>) = memo_right E st"
  by (simp add: memo_right_def)

definition begun :: "work_estimate \<Rightarrow> bool" where
  "begun e \<longleftrightarrow> bounded e \<and> 0 \<le> units e"

lemma begun_of: "0 \<le> u \<Longrightarrow> begun (est_of u)"
  by (simp add: begun_def est_of_def)

lemma begun_plus: "begun e \<Longrightarrow> worst R e2 \<Longrightarrow> bounded (est_plus e e2) \<Longrightarrow> begun (est_plus e e2)"
  by (auto simp: begun_def worst_def est_plus_def split: if_splits)

text \<open>An estimate so far, one more run, and what follows.\<close>

lemma worst_after:
  assumes "begun e" "worst R e2" "bounded (est_plus e e2)" "worst (after (est_plus e e2) S) e3"
  shows "worst (after e (\<lambda>c. \<exists>x y. R x \<and> S y \<and> c = x + y)) e3"
proof -
  have b: "bounded e" "bounded e2" and u: "units (est_plus e e2) = units e + units e2"
    using assms(1,3) by (auto simp: begun_def est_plus_def split: if_splits)
  show ?thesis unfolding worst_def
  proof (intro impI conjI allI)
    assume "bounded e3"
    then have e3: "0 \<le> units e3" "after (est_plus e e2) S (units e3)" "\<And>c. after (est_plus e e2) S c \<Longrightarrow> c \<le> units e3"
      using assms(4) by (auto simp: worst_def)
    have e2: "R (units e2)" "\<And>c. R c \<Longrightarrow> c \<le> units e2" using assms(2) b by (auto simp: worst_def)
    show "0 \<le> units e3" by (rule e3)
    show "after e (\<lambda>c. \<exists>x y. R x \<and> S y \<and> c = x + y) (units e3)"
      using e3(2) e2(1) by (fastforce simp: after_def u)
    fix c assume "after e (\<lambda>c. \<exists>x y. R x \<and> S y \<and> c = x + y) c"
    then obtain x y where xy: "R x" "S y" "c = units e + (x + y)" by (auto simp: after_def)
    have "after (est_plus e e2) S (units e + units e2 + y)" using xy(2) by (auto simp: after_def u)
    then show "c \<le> units e3" using e3(3) e2(2) [OF xy(1)] xy(3) by fastforce
  qed
qed

lemma worst_stop: "\<not> bounded e \<Longrightarrow> worst R e"
  by (simp add: worst_def)

lemma worst_so_far: "begun e \<Longrightarrow> worst (after e ((=) 0)) e"
  by (auto simp: worst_def begun_def after_def)

text \<open>More ways to run that take no more change nothing.\<close>

lemma worst_more:
  assumes "worst (after e R) e2" "\<And>c. R c \<Longrightarrow> S c" "\<And>c. S c \<Longrightarrow> \<exists>c'. R c' \<and> c \<le> c'"
  shows "worst (after e S) e2"
proof -
  have "after e S (units e2)" if "after e R (units e2)" using that assms(2) by (auto simp: after_def)
  moreover have "c \<le> units e2" if c: "after e S c" "\<And>c. after e R c \<Longrightarrow> c \<le> units e2" for c
  proof -
    obtain d where "S d" "c = units e + d" using c(1) by (auto simp: after_def)
    moreover from this obtain d' where "R d'" "d \<le> d'" using assms(3) by blast
    ultimately show ?thesis using c(2) [of "units e + d'"] by (auto simp: after_def)
  qed
  ultimately show ?thesis using assms(1) by (auto simp: worst_def)
qed

text \<open>The targets of a call: the longest so far, those to come, and a unit for the call.\<close>

definition targets_right :: "estimator \<Rightarrow> irop \<Rightarrow> cfunc list \<Rightarrow> work_estimate \<Rightarrow> work_estimate \<Rightarrow> bool" where
  "targets_right E x ts w e \<longleftrightarrow> (bounded e \<longrightarrow> (\<exists>m. units e = m + 1 \<and> 0 \<le> m \<and> units w \<le> m \<and>
     (m = units w \<or> (\<exists>t \<in> set ts. takes E (Callee x t) m)) \<and>
     (\<forall>t \<in> set ts. \<forall>a. takes E (Callee x t) a \<longrightarrow> a \<le> m) \<and> (\<forall>t \<in> set ts. \<exists>a\<ge>0. takes E (Callee x t) a)))"

lemma targets_right_Cons:
  assumes "begun w" "worst (takes E (Callee x t)) e1" "bounded (larger w e1)" "targets_right E x ts (larger w e1) e"
  shows "targets_right E x (t # ts) w e"
  unfolding targets_right_def
proof (intro impI)
  assume "bounded e"
  then obtain m where m: "units e = m + 1" "0 \<le> m" "units (larger w e1) \<le> m"
    "m = units (larger w e1) \<or> (\<exists>t \<in> set ts. takes E (Callee x t) m)"
    "\<forall>t \<in> set ts. \<forall>a. takes E (Callee x t) a \<longrightarrow> a \<le> m" "\<forall>t \<in> set ts. \<exists>a\<ge>0. takes E (Callee x t) a"
    using assms(4) by (auto simp: targets_right_def)
  have e1: "0 \<le> units e1" "takes E (Callee x t) (units e1)" "\<And>c. takes E (Callee x t) c \<Longrightarrow> c \<le> units e1"
    using assms(1-3) by (auto simp: worst_def larger_def begun_def split: if_splits)
  have l: "units w \<le> units (larger w e1)" "units e1 \<le> units (larger w e1)"
    "units (larger w e1) = units w \<or> units (larger w e1) = units e1"
    using assms(1,3) by (auto simp: larger_def begun_def split: if_splits)
  show "\<exists>m. units e = m + 1 \<and> 0 \<le> m \<and> units w \<le> m \<and> (m = units w \<or> (\<exists>t \<in> set (t # ts). takes E (Callee x t) m)) \<and>
     (\<forall>t \<in> set (t # ts). \<forall>a. takes E (Callee x t) a \<longrightarrow> a \<le> m) \<and> (\<forall>t \<in> set (t # ts). \<exists>a\<ge>0. takes E (Callee x t) a)"
  proof (intro exI [of _ m] conjI)
    show "units w \<le> m" using l(1) m(3) by linarith
    show "m = units w \<or> (\<exists>t \<in> set (t # ts). takes E (Callee x t) m)" using m(4) l(3) e1(2) by auto
    show "\<forall>t \<in> set (t # ts). \<forall>a. takes E (Callee x t) a \<longrightarrow> a \<le> m" using m(3,5) l(2) e1(3) by fastforce
    show "\<forall>t \<in> set (t # ts). \<exists>a\<ge>0. takes E (Callee x t) a" using m(6) e1(1,2) by auto
  qed (use m in auto)
qed

lemma targets_right_call:
  assumes t: "targets_right E x (est_targets_of (em E) c) (est_of 0) e" and ne: "est_targets_of (em E) c \<noteq> []"
    and x: "x = IrOp n k vs ts rs" and k: "class_of k = CCall c"
  shows "worst (takes E (Op skip x)) e"
  unfolding worst_def
proof (intro impI)
  assume "bounded e"
  then obtain m where m: "units e = m + 1" "0 \<le> m" "m = 0 \<or> (\<exists>t \<in> set (est_targets_of (em E) c). takes E (Callee x t) m)"
    "\<forall>t \<in> set (est_targets_of (em E) c). \<forall>a. takes E (Callee x t) a \<longrightarrow> a \<le> m"
    "\<forall>t \<in> set (est_targets_of (em E) c). \<exists>a\<ge>0. takes E (Callee x t) a"
    using t by (auto simp: targets_right_def est_of_def)
  obtain t0 where t0: "t0 \<in> set (est_targets_of (em E) c)" using ne by (cases "est_targets_of (em E) c") auto
  then obtain a0 where "0 \<le> a0" "takes E (Callee x t0) a0" using m(5) by blast
  moreover from this t0 m(4) have "a0 \<le> m" by blast
  ultimately have "\<exists>t \<in> set (est_targets_of (em E) c). takes E (Callee x t) m" using m(3) t0 by (metis order_antisym)
  then have "takes E (Op skip x) (m + 1)" using takes.enters [OF k] x by blast
  moreover have "a \<le> m + 1" if "takes E (Op skip x) a" for a
    using that [unfolded x] by (rule takes_Op) (use k m(4) x in auto)
  ultimately show "0 \<le> units e \<and> takes E (Op skip x) (units e) \<and> (\<forall>c. takes E (Op skip x) c \<longrightarrow> c \<le> units e)"
    using m by auto
qed


lemma for_worst:
  assumes k: "class_of k = CFor" and x: "x = IrOp n k vs ts [cond, bd, stp]"
    and t: "constantTripCount (em E) (ept E) x = Some trips"
    and w: "worst (takes E (Rgn skip cond)) e0" "worst (takes E (Rgn skip cond)) e1" "worst (takes E (Rgn skip bd)) e2"
      "worst (takes E (Rgn skip stp)) e3"
  shows "worst (takes E (Op skip x)) (est_plus e0 (times_est trips (est_plus (est_plus e1 e2) e3)))"
    (is "worst _ ?e")
  unfolding worst_def
proof (intro impI)
  let ?t = "est_plus (est_plus e1 e2) e3"
  assume "bounded ?e"
  then have b0: "bounded e0" and b: "bounded ?t" and u: "units ?e = units e0 + units ?t * of_nat trips"
    by (auto simp: est_plus_def times_est_def split: if_splits)
  note turns = turns_worst [OF w(2-4) b]
  have e0: "0 \<le> units e0" "takes E (Rgn skip cond) (units e0)" "\<And>c. takes E (Rgn skip cond) c \<Longrightarrow> c \<le> units e0"
    using w(1) b0 by (auto simp: worst_def)
  have nn: "0 \<le> units ?t" using w(2-4) b by (auto simp: worst_def est_plus_def split: if_splits)
  have le: "a \<le> units ?t * of_nat trips" if "takes E (Turns skip cond bd stp t) a" "t \<le> trips" for a t
    using turns(2) [OF that(1)] mult_left_mono [OF of_nat_mono [OF that(2)] nn] by linarith
  have "takes E (Op skip x) (units e0 + units ?t * of_nat trips)"
    unfolding x by (rule takes.for_done [OF k t [unfolded x] order_refl turns(1) e0(2)])
  moreover have "c \<le> units e0 + units ?t * of_nat trips" if c: "takes E (Op skip x) c" for c
    using c [unfolded x] by (rule takes_Op) (use k t [unfolded x] e0(1,3) le in \<open>auto intro: add_mono add_increasing\<close>)
  ultimately show "0 \<le> units ?e \<and> takes E (Op skip x) (units ?e) \<and> (\<forall>c. takes E (Op skip x) c \<longrightarrow> c \<le> units ?e)"
    using e0(1) nn by (simp add: u)
qed

lemma branch_worst:
  assumes k: "class_of k = CBranch" and w: "worst (takes E (Rgn skip r)) e1" "worst (takes E (Rgn skip r')) e2"
  shows "worst (takes E (Op skip (IrOp n k vs ts [r, r']))) (larger e1 e2)"
proof (rule worst_mono [OF worst_larger [OF w]])
  fix c show "takes E (Rgn skip r) c \<or> takes E (Rgn skip r') c \<longleftrightarrow> takes E (Op skip (IrOp n k vs ts [r, r'])) c"
    using k by (auto intro: takes.one_side takes.other_side elim: takes_Op)
qed

lemma est_regions_step:
  assumes "begun e" "worst (takes E (Rgn skip r)) e2" "bounded (est_plus e e2)" "worst (after (est_plus e e2) (takes E (Rgns skip rs))) e3"
  shows "worst (after e (takes E (Rgns skip (r # rs)))) e3"
proof (rule worst_more [OF worst_after [OF assms]])
  have "bounded e2" using assms(1,3) by (auto simp: begun_def est_plus_def split: if_splits)
  then obtain z where z: "takes E (Rgn skip r) z" "0 \<le> z" using assms(2) by (auto simp: worst_def)
  fix c assume "takes E (Rgns skip (r # rs)) c"
  then show "\<exists>c'. (\<exists>x y. takes E (Rgn skip r) x \<and> takes E (Rgns skip rs) y \<and> c' = x + y) \<and> c \<le> c'"
  proof (rule takes_Rgns)
    assume "takes E (Rgns skip rs) c"
    then show ?thesis using z by (intro exI [of _ "z + c"]) auto
  qed auto
qed (auto intro: takes.region_run)

lemma est_block_step:
  assumes "begun e" "worst (takes E (Op skip x)) e2" "bounded (est_plus e e2)" "worst (after (est_plus e e2) (takes E (Blk skip xs))) e3"
    and "\<not> skip x"
  shows "worst (after e (takes E (Blk skip (x # xs)))) e3"
proof (rule worst_more [OF worst_after [OF assms(1-4)]])
  have "bounded e2" using assms(1,3) by (auto simp: begun_def est_plus_def split: if_splits)
  then obtain z where z: "takes E (Op skip x) z" "0 \<le> z" using assms(2) by (auto simp: worst_def)
  fix c assume "takes E (Blk skip (x # xs)) c"
  then show "\<exists>c'. (\<exists>x' y. takes E (Op skip x) x' \<and> takes E (Blk skip xs) y \<and> c' = x' + y) \<and> c \<le> c'"
  proof (rule takes_Blk)
    assume "c = 0"
    then show ?thesis using z takes.block_left [of E skip xs] by (intro exI [of _ z] conjI exI [of _ 0]) auto
  qed (use assms(5) in auto)
qed (use assms(5) in \<open>auto intro: takes.in_order\<close>)

declare est_region.simps [simp del]

lemma memo_right_leave:
  assumes d: "distinct (map sym (funcs (em E)))" and f: "f \<in> set (funcs (em E))" and r: "right E (takes E (Rgn (\<lambda>_. False) (body f))) a"
  shows "right E (takes E (Rgn (\<lambda>_. False) (body f))) (est_leave (sym f) b a)"
proof -
  obtain e st where a: "a = (e, st)" by (cases a)
  have "g = f" if "g \<in> set (funcs (em E))" "sym g = sym f" for g
    using d f that by (metis distinct_map inj_on_def)
  then show ?thesis using r by (auto simp: a est_leave_def memo_right_def)
qed


abbreviation function_runs :: "estimator \<Rightarrow> cfunc \<Rightarrow> rat \<Rightarrow> bool" where
  "function_runs E f \<equiv> takes E (Rgn (\<lambda>_. False) (body f))"

lemma estimates_worst:
  "distinct (map sym (funcs (em E))) \<Longrightarrow> memo_right E st \<Longrightarrow> right E (takes E (Op skip x)) (est_op E d stk skip x st)"
  "distinct (map sym (funcs (em E))) \<Longrightarrow> memo_right E st \<Longrightarrow> right E (takes E (Rgn skip r)) (est_region E d stk skip par r st)"
  "distinct (map sym (funcs (em E))) \<Longrightarrow> memo_right E st \<Longrightarrow> begun e \<Longrightarrow>
     right E (after e (takes E (Blk skip xs))) (est_block E d stk skip xs e st)"
  "distinct (map sym (funcs (em E))) \<Longrightarrow> memo_right E st \<Longrightarrow> begun e \<Longrightarrow>
     right E (after e (takes E (Rgns skip rs))) (est_regions E d stk skip par rs e st)"
  "distinct (map sym (funcs (em E))) \<Longrightarrow> memo_right E st \<Longrightarrow> begun e \<Longrightarrow> set ts \<subseteq> set (funcs (em E)) \<Longrightarrow>
     targets_right E x ts e (fst (est_targets E d stk x ts e st)) \<and> memo_right E (snd (est_targets E d stk x ts e st))"
  "distinct (map sym (funcs (em E))) \<Longrightarrow> memo_right E st \<Longrightarrow> f \<in> set (funcs (em E)) \<Longrightarrow>
     right E (function_runs E f) (est_function E d stk f st)"
proof (induction E d stk skip x st and E d stk skip par r st and E d stk skip xs e st and E d stk skip par rs e st
    and E d stk x ts e st and E d stk f st rule: est_op_est_region_est_block_est_regions_est_targets_est_function.induct)
  case (1 E d stk skip n k vs ts rs st)
  let ?x = "IrOp n k vs ts rs"
  note pre = 1(9,10)
  show ?case
  proof (cases "class_of k")
    case CFor
    show ?thesis
    proof (cases "\<exists>trips cond bd stp. constantTripCount (em E) (ept E) ?x = Some trips \<and> rs = [cond, bd, stp]")
      case True
      then obtain trips cond bd stp where t: "constantTripCount (em E) (ept E) ?x = Some trips" and rs: "rs = [cond, bd, stp]" by blast
      obtain e0 st0 where r0: "est_region E d stk skip (Some ?x) cond st = (e0, st0)" by fastforce
      obtain e1 st1 where r1: "est_region E d stk skip (Some ?x) cond st0 = (e1, st1)" by fastforce
      obtain e2 st2 where r2: "est_region E d stk skip (Some ?x) bd st1 = (e2, st2)" by fastforce
      obtain e3 st3 where r3: "est_region E d stk skip (Some ?x) stp st2 = (e3, st3)" by fastforce
      have eq: "est_op E d stk skip ?x st = (est_plus e0 (times_est trips (est_plus (est_plus e1 e2) e3)), st3)"
        using CFor t r0 r1 r2 r3 by (simp add: Let_def rs)
      have a0: "right E (takes E (Rgn skip cond)) (e0, st0)" unfolding r0 [symmetric]
        by (rule 1(1)) (use CFor t rs pre in simp_all)
      have a1: "right E (takes E (Rgn skip cond)) (e1, st1)" unfolding r1 [symmetric]
        by (rule 1(2), (rule refl CFor t rs r0 [symmetric])+) (use pre a0 in simp_all)
      have a2: "right E (takes E (Rgn skip bd)) (e2, st2)" unfolding r2 [symmetric]
        by (rule 1(3), (rule refl CFor t rs r0 [symmetric] r1 [symmetric])+) (use pre a1 in simp_all)
      have a3: "right E (takes E (Rgn skip stp)) (e3, st3)" unfolding r3 [symmetric]
        by (rule 1(4), (rule refl CFor t rs r0 [symmetric] r1 [symmetric] r2 [symmetric])+) (use pre a2 in simp_all)
      show ?thesis unfolding eq
        using for_worst [OF CFor _ t, of n vs ts cond bd stp skip e0 e1 e2 e3] a0 a1 a2 a3 by (simp add: rs)
    qed (use CFor pre in \<open>auto simp: Let_def split: option.splits list.splits\<close>)
  next
    case CBranch
    show ?thesis
    proof (cases "\<exists>a b. rs = [a, b]")
      case True
      then obtain a b where rs: "rs = [a, b]" by blast
      obtain e1 st1 where r1: "est_region E d stk skip (Some ?x) a st = (e1, st1)" by fastforce
      obtain e2 st2 where r2: "est_region E d stk skip (Some ?x) b st1 = (e2, st2)" by fastforce
      have eq: "est_op E d stk skip ?x st = (larger e1 e2, st2)" using CBranch r1 r2 by (simp add: Let_def rs)
      have a1: "right E (takes E (Rgn skip a)) (e1, st1)" unfolding r1 [symmetric] by (rule 1(5)) (use CBranch rs pre in simp_all)
      have a2: "right E (takes E (Rgn skip b)) (e2, st2)" unfolding r2 [symmetric]
        by (rule 1(6), (rule refl CBranch rs r1 [symmetric])+) (use pre a1 in simp_all)
      show ?thesis unfolding eq using branch_worst [OF CBranch, of E skip a e1 b e2] a1 a2 by (simp add: rs)
    next
      case False
      then have l: "length rs \<noteq> 2" by (auto simp: length_Suc_conv numeral_2_eq_2)
      have eq: "est_op E d stk skip ?x st = (est_of 0, st)"
        using False CBranch by (auto simp: Let_def split: list.splits)
      have "worst (takes E (Op skip ?x)) (est_of 0)"
        by (rule worst_of) (use CBranch l in \<open>auto intro: takes.no_side elim: takes_Op\<close>)
      then show ?thesis unfolding eq using pre by simp
    qed
  next
    case (CCall c)
    show ?thesis
    proof (cases "est_targets_of (em E) c")
      case (Cons t ts')
      have "targets_right E ?x (t # ts') (est_of 0) (fst (est_targets E d stk ?x (t # ts') (est_of 0) st))
          \<and> memo_right E (snd (est_targets E d stk ?x (t # ts') (est_of 0) st))"
        by (rule 1(7)) (use CCall Cons pre est_targets_in [of _ "em E" c] begun_of [of 0] in auto)
      moreover have eq: "est_op E d stk skip ?x st = est_targets E d stk ?x (t # ts') (est_of 0) st"
        using CCall Cons by (simp add: Let_def)
      ultimately show ?thesis
        unfolding right_def eq using targets_right_call [OF _ _ refl CCall, of E] Cons by simp
    qed (use CCall pre in \<open>auto simp: Let_def\<close>)
  next
    case CFlat
    show ?thesis
    proof (cases "flat_op E ?x")
      case None
      let ?o = "est_of (own (em E) (ept E) ?x)"
      have "right E (after ?o (takes E (Rgns skip rs))) (est_regions E d stk skip (Some ?x) rs ?o st)"
        by (rule 1(8)) (use CFlat None pre begun_of [OF own_nonneg] in auto)
      moreover have "after ?o (takes E (Rgns skip rs)) a \<longleftrightarrow> takes E (Op skip ?x) a" for a
        using CFlat None by (auto simp: after_def est_of_def intro: takes.holds elim: takes_Op)
      moreover have eq: "est_op E d stk skip ?x st = est_regions E d stk skip (Some ?x) rs ?o st"
        using CFlat None by (simp add: Let_def)
      ultimately show ?thesis unfolding eq using right_mono by blast
    next
      case (Some e)
      have "worst (takes E (Op skip ?x)) e"
        unfolding worst_def using CFlat Some flat_op_nonneg [OF Some] by (auto intro: takes.flat elim: takes_Op)
      moreover have "est_op E d stk skip ?x st = (e, st)" using CFlat Some by (simp add: Let_def)
      ultimately show ?thesis using pre by simp
    qed
  qed (use pre in \<open>auto simp: Let_def\<close>)
next
  case (2 E d stk skip par r st)
  show ?case
  proof (cases r)
    case Nil
    have "worst (takes E (Rgn skip [])) (est_of 0)"
      by (rule worst_of) (auto intro: takes.no_block elim: takes_Rgn)
    then show ?thesis using 2 Nil by (simp add: est_region.simps)
  next
    case (Cons b r')
    show ?thesis
    proof (cases r')
      case Nil
      have "right E (after (est_of 0) (takes E (Blk skip b))) (est_block E d stk skip b (est_of 0) st)"
        by (rule 2(1)) (use 2 Cons Nil begun_of [of 0] in auto)
      moreover have "after (est_of 0) (takes E (Blk skip b)) a \<longleftrightarrow> takes E (Rgn skip [b]) a" for a
        by (auto simp: after_def est_of_def intro: takes.one_block elim: takes_Rgn)
      moreover have eq: "est_region E d stk skip par r st = est_block E d stk skip b (est_of 0) st"
        using Cons Nil by (simp add: est_region.simps)
      ultimately show ?thesis unfolding eq unfolding Cons Nil using right_mono by blast
    qed (use 2 Cons in \<open>auto simp: est_region.simps\<close>)
  qed
next
  case (3 E d stk skip e st)
  have "worst (after e (takes E (Blk skip []))) e"
    using 3 by (auto simp: worst_def after_def begun_def intro: takes.block_left elim: takes_Blk_Nil)
  then show ?case using 3 by simp
next
  case (4 E d stk skip x xs e st)
  show ?case
  proof (cases "skip x")
    case True
    have "right E (after e (takes E (Blk skip xs))) (est_block E d stk skip xs e st)" using 4 True by simp
    moreover have "after e (takes E (Blk skip xs)) a \<longleftrightarrow> after e (takes E (Blk skip (x # xs))) a" for a
      using True by (auto simp: after_def intro: takes.skipped takes.block_left elim!: takes_Blk)
    ultimately show ?thesis using True right_mono by simp
  next
    case False
    obtain e2 st2 where r: "est_op E d stk skip x st = (e2, st2)" by fastforce
    have a: "right E (takes E (Op skip x)) (e2, st2)" using 4(2) [OF False] 4(4,5) r by simp
    show ?thesis
    proof (cases "bounded (est_plus e e2)")
      case b: True
      have "right E (after (est_plus e e2) (takes E (Blk skip xs))) (est_block E d stk skip xs (est_plus e e2) st2)"
        by (rule 4(3) [OF False r [symmetric] refl]) (use 4(4-6) a b begun_plus in auto)
      then show ?thesis using False r b est_block_step [OF 4(6) _ b, of E skip x xs] a by (auto simp: right_def)
    qed (use False r a in \<open>simp add: worst_stop\<close>)
  qed
next
  case (5 E d stk skip par e st)
  have "worst (after e (takes E (Rgns skip []))) e"
    using 5 by (auto simp: worst_def after_def begun_def intro: takes.no_region elim: takes_Rgns_Nil)
  then show ?case using 5 by simp
next
  case (6 E d stk skip par r rs e st)
  obtain e2 st2 where r: "est_region E d stk skip par r st = (e2, st2)" by fastforce
  have a: "right E (takes E (Rgn skip r)) (e2, st2)" using 6(1) 6(3,4) r by simp
  show ?case
  proof (cases "bounded (est_plus e e2)")
    case b: True
    have "right E (after (est_plus e e2) (takes E (Rgns skip rs))) (est_regions E d stk skip par rs (est_plus e e2) st2)"
      by (rule 6(2) [OF r [symmetric] refl]) (use 6(3-5) a b begun_plus in auto)
    then show ?thesis using r b est_regions_step [OF 6(5) _ b, of E skip r rs] a by (auto simp: right_def)
  qed (use r a in \<open>simp add: worst_stop\<close>)
next
  case (7 E d stk x w st)
  then show ?case by (auto simp: targets_right_def est_plus_def est_of_def kCall_def begun_def)
next
  case (8 E d stk x t ts w st)
  let ?r = "if not_followed t then (external (em E) (ept E) (edemangle E) x t, st)
         else if sym t \<in> set stk then (unbounded (Some x) (''it makes a recursive call to '' @ edemangle E (sym t)), st)
         else (case d of
             0 \<Rightarrow> (unbounded (Some x) ''it calls more than 32 functions deep'', st\<lparr>metDepth := True\<rparr>)
           | Suc d' \<Rightarrow> (let (e, st2) = est_function E d' stk t st
               in (if \<not> bounded e then unbounded (Some x) (''it calls '' @ edemangle E (sym t) @ '', where '' @ because e) else e,
                   st2)))"
  obtain e st2 where r: "?r = (e, st2)" by fastforce
  have ok: "right E (takes E (Callee x t)) (e, st2)"
  proof (cases "not_followed t \<or> sym t \<in> set stk \<or> d = 0")
    case True
    have "worst (takes E (Callee x t)) (external (em E) (ept E) (edemangle E) x t)" if "not_followed t"
      unfolding worst_def using that external_nonneg by (auto intro: takes.outside elim: takes_Callee)
    then show ?thesis using r True 8(4) by (auto split: if_splits)
  next
    case False
    then obtain d' where d: "d = Suc d'" "\<not> not_followed t" "sym t \<notin> set stk" by (cases d) auto
    obtain e1 st1 where f: "est_function E d' stk t st = (e1, st1)" by fastforce
    have "right E (function_runs E t) (est_function E d' stk t st)"
      by (rule 8(1)) (use d 8(3,4,6) in auto)
    moreover have "function_runs E t a \<longleftrightarrow> takes E (Callee x t) a" for a
      using d(2) by (auto intro: takes.inside elim: takes_Callee)
    ultimately have "worst (takes E (Callee x t)) e1 \<and> memo_right E st1" using f worst_mono by fastforce
    then show ?thesis using r d f by (auto split: if_splits)
  qed
  show ?case
  proof (cases "bounded (larger w e)")
    case True
    have "begun (larger w e)" using 8(5) ok True by (auto simp: begun_def worst_def larger_def split: if_splits)
    then have "targets_right E x ts (larger w e) (fst (est_targets E d stk x ts (larger w e) st2))
        \<and> memo_right E (snd (est_targets E d stk x ts (larger w e) st2))"
      using 8(2) [OF r [symmetric] refl] True ok 8(3,6) by auto
    then show ?thesis using r True targets_right_Cons [OF 8(5) _ True] ok by (simp add: Let_def)
  next
    case False
    then have "est_targets E d stk x (t # ts) w st = (larger w e, st2)" using r by (simp add: Let_def)
    then show ?thesis using ok False by (simp add: targets_right_def)
  qed
next
  case (9 E d stk f st)
  show ?case
  proof (cases "map_of (ememo st) (sym f)")
    case None
    have "right E (function_runs E f) (est_region E d (sym f # stk) (\<lambda>_. False) None (body f) (st\<lparr>metDepth := False\<rparr>))"
      by (rule 9(1)) (use 9(2,3) None in auto)
    then show ?thesis using None memo_right_leave [OF 9(2,4)] by simp
  next
    case (Some e)
    then show ?thesis using 9(3,4) by (auto simp: memo_right_def)
  qed
qed


text \<open>An estimator that has been asked for the functions \<open>fs\<close>, in that order.\<close>

definition no_memo :: est_state where
  "no_memo = \<lparr>ememo = [], metDepth = False\<rparr>"

definition asked :: "estimator \<Rightarrow> cfunc list \<Rightarrow> est_state" where
  "asked E fs = foldl (\<lambda>st f. snd (estimate_function E f st)) no_memo fs"

lemma asked_right:
  assumes "distinct (map sym (funcs (em E)))" "set fs \<subseteq> set (funcs (em E))"
  shows "memo_right E (asked E fs)"
proof -
  have "memo_right E (foldl (\<lambda>st f. snd (estimate_function E f st)) st fs)" if "memo_right E st" for st
    using that assms(2)
  proof (induction fs arbitrary: st)
    case (Cons f fs)
    then show ?case using estimates_worst(6) [OF assms(1), of st f] by (simp add: estimate_function_def right_def)
  qed simp
  moreover have "memo_right E no_memo" by (simp add: no_memo_def memo_right_def)
  ultimately show ?thesis by (simp add: asked_def)
qed

text \<open>
  C14: the estimate is the longest run. Whatever functions the estimator was asked for before, when
  it gives a bound for an operation or a function, some run takes that many units and no run takes
  more: its memory, its depth limit and its early stops change no answer that has a bound. (A module
  has one function of a name. Units are rational numbers.)
\<close>

theorem estimate_is_longest_run:
  assumes "distinct (map sym (funcs (em E)))" and "set fs \<subseteq> set (funcs (em E))" and "f \<in> set (funcs (em E))"
    and op: "fst (estimate_op E skip x (asked E fs)) = e" and fn: "fst (estimate_function E f (asked E fs)) = e'"
  shows "(bounded e \<longrightarrow> takes E (Op skip x) (units e) \<and> (\<forall>c. takes E (Op skip x) c \<longrightarrow> c \<le> units e)) \<and>
    (bounded e' \<longrightarrow> takes E (Rgn (\<lambda>_. False) (body f)) (units e') \<and>
      (\<forall>c. takes E (Rgn (\<lambda>_. False) (body f)) c \<longrightarrow> c \<le> units e'))"
proof -
  note m = asked_right [OF assms(1,2)]
  have "worst (takes E (Op skip x)) e" "worst (function_runs E f) e'"
    using estimates_worst(1,6) [OF assms(1) m] assms(3) op fn
    by (auto simp: right_def estimate_op_def estimate_function_def)
  then show ?thesis by (simp add: worst_def)
qed

text \<open>
  A function that runs a loop of 128 turns, asked for before; then a branch, one side of which calls
  the function.
\<close>

definition worst_estimator :: estimator where
  "worst_estimator = \<lparr>em = trip_demo, ept = no_params, edemangle = id\<rparr>"

definition worst_demo :: irop where
  "worst_demo = IrOp 90 KIf [] [] [[[plain_call 91 ''f'']], [[]]]"


theorem estimate_is_longest_run_witness:
  "(let e = fst (estimate_op worst_estimator (\<lambda>_. False) worst_demo (asked worst_estimator (funcs trip_demo))) in
     bounded e \<and> units e = 129 * 2 + 128 * (1 + 3) + 2)
   \<and> takes worst_estimator (Op (\<lambda>_. False) worst_demo) 772 \<and> \<not> takes worst_estimator (Op (\<lambda>_. False) worst_demo) 773"
proof -
  let ?e = "fst (estimate_op worst_estimator (\<lambda>_. False) worst_demo (asked worst_estimator (funcs trip_demo)))"
  have e: "bounded ?e \<and> units ?e = 772" by code_simp
  have d: "distinct (map sym (funcs (em worst_estimator)))" by code_simp
  have f: "hd (funcs trip_demo) \<in> set (funcs (em worst_estimator))" "set (funcs trip_demo) \<subseteq> set (funcs (em worst_estimator))"
    by (simp_all add: worst_estimator_def trip_demo_def)
  have "takes worst_estimator (Op (\<lambda>_. False) worst_demo) (units ?e) \<and>
      (\<forall>c. takes worst_estimator (Op (\<lambda>_. False) worst_demo) c \<longrightarrow> c \<le> units ?e)"
    using estimate_is_longest_run [OF d f(2,1) refl refl, of "\<lambda>_. False" worst_demo] e by blast
  then have "takes worst_estimator (Op (\<lambda>_. False) worst_demo) 772" and "\<not> takes worst_estimator (Op (\<lambda>_. False) worst_demo) 773"
    using e by (auto dest: spec [of _ 773])
  then show ?thesis using e by (simp add: Let_def)
qed

end
