(* ===== verification/Waiter.thy ===== *)
theory Waiter
  imports Stream_Gate
begin

text \<open>
  \<open>runtime/waiter.hpp\<close>: a consumer's wait for an element. The protocol is an eventcount: a
  consumer that is about to sleep announces itself, looks at the queue once more and sleeps
  while the epoch is what it read; a producer publishes, looks for announced consumers and bumps
  the epoch and wakes. Every load, store, fence and system call of the class is a step of its
  own. A thread's plain stores and relaxed updates go through a buffer of its own, from which
  they reach memory in order and at any later time; a sequentially consistent fence is passed
  only with the buffer empty. So both fences of the protocol matter here as they do in the code.

  The queue is the sequential one, with a push that takes effect when its publishing store
  reaches memory. The tick counter, the counter's rate and the choice of the sleepers a wake-up
  wakes are inputs of the steps; a sleep may end at any time, as a futex wait may.
\<close>

section \<open>Ticks and nanoseconds\<close>

datatype wait_policy = Spin | Park | Spin_then_park

definition kSpinNs :: u64 where "kSpinNs = 4000"

definition kForeverNs :: u64 where "kForeverNs = 100000000 * 1000000000"

definition INT_MAX :: int where "INT_MAX = 2147483647"

definition passed :: "u64 \<Rightarrow> u64 \<Rightarrow> bool" where
  "passed until now \<longleftrightarrow> sint (until - now) \<le> 0"

definition to_ticks :: "u64 \<Rightarrow> u64 \<Rightarrow> u64" where
  "to_ticks per_ms ns = ns div 1000000 * per_ms + ns mod 1000000 * per_ms div 1000000"

definition to_ns :: "u64 \<Rightarrow> u64 \<Rightarrow> u64" where
  "to_ns per_ms t = t div per_ms * 1000000 + t mod per_ms * 1000000 div per_ms"

section \<open>State\<close>

text \<open>The two members set at construction, the counter's rate and the number of threads.\<close>

record waiter_cfg =
  policy :: wait_policy
  spin_ns :: u64
  per_ms :: u64
  threads :: nat

text \<open>
  Where a thread is. The limit of a wait is the tick it ends at, if it has one. \<open>S\<close> marks the
  loop that spins, \<open>P\<close> the loop that parks, \<open>N\<close> \<open>notify\<close>, \<open>C\<close> \<open>close\<close>, \<open>K\<close> \<open>wake\<close>.
\<close>

datatype wpc =
    Idle
  | Done bool
  | WFirst int
  | WLimit int
  | WUntil "u64 option"
  | SClosed "u64 option" u64
  | SPop "u64 option" u64 bool
  | STime "u64 option" u64
  | PClosed "u64 option"
  | PPop "u64 option" bool
  | PTime "u64 option"
  | PAdd "u64 option" u64
  | PFence "u64 option" u64
  | PKey "u64 option" u64
  | PClosed2 "u64 option" u64 u32
  | PPop2 "u64 option" u64 u32 bool
  | PParks "u64 option" u64 u32
  | PSleep "u64 option" u64 u32
  | PFutex "u64 option" u64 u32
  | PAsleep "u64 option"
  | PCancel "u64 option" "bool option"
  | NStart u64
  | NFence u64
  | NLoad u64
  | CFence
  | KBump int
  | KWake int

datatype 'a pstore = WPub "'a list" | WAdd | WSub | WClosed

text \<open>\<open>age\<close> counts, for the proofs, the bumps of the epoch since a thread read its key.\<close>

record 'a waiter_state =
  queue :: "'a list"
  waiters :: u32
  epoch :: u32
  is_closed :: bool
  parks :: u64
  pcs :: "nat \<Rightarrow> wpc"
  bufs :: "nat \<Rightarrow> 'a pstore list"
  age :: "nat \<Rightarrow> nat"

definition waiter_init :: "'a waiter_state" where
  "waiter_init = \<lparr>queue = [], waiters = 0, epoch = 0, is_closed = False, parks = 0,
     pcs = (\<lambda>_. Idle), bufs = (\<lambda>_. []), age = (\<lambda>_. 0)\<rparr>"

text \<open>What the world decides at a step: the call a thread makes, the tick it reads, whom a wake-up wakes.\<close>

datatype 'a inp =
    Go
  | Clock u64
  | Wait
  | WaitFor int
  | Push "'a list"
  | Close
  | Commit
  | Return
  | Wakes "nat list"

type_synonym 'a wmove = "('a qevent list \<times> 'a waiter_state) option"

section \<open>Operations\<close>

definition at_pc :: "nat \<Rightarrow> wpc \<Rightarrow> 'a waiter_state \<Rightarrow> 'a waiter_state" where
  "at_pc i p s = s\<lparr>pcs := (pcs s)(i := p)\<rparr>"

definition issue :: "nat \<Rightarrow> 'a pstore \<Rightarrow> 'a waiter_state \<Rightarrow> 'a waiter_state" where
  "issue i w s = s\<lparr>bufs := (bufs s)(i := bufs s i @ [w])\<rparr>"

definition look :: "nat \<Rightarrow> wpc \<Rightarrow> wpc \<Rightarrow> 'a waiter_state \<Rightarrow> 'a wmove" where
  "look i found none s = (case queue s of
     [] \<Rightarrow> Some ([DeqEmpty], at_pc i none s)
   | v # vs \<Rightarrow> Some ([Deq v], at_pc i found (s\<lparr>queue := vs\<rparr>)))"

definition quietly :: "'a waiter_state \<Rightarrow> 'a wmove" where
  "quietly s = Some ([], s)"

text \<open>A store of the buffer reaches memory.\<close>

fun land :: "'a pstore \<Rightarrow> 'a waiter_state \<Rightarrow> 'a qevent list \<times> 'a waiter_state" where
  "land (WPub vs) s = (map Enq vs, s\<lparr>queue := queue s @ vs\<rparr>)"
| "land WAdd s = ([], s\<lparr>waiters := waiters s + 1\<rparr>)"
| "land WSub s = ([], s\<lparr>waiters := waiters s - 1\<rparr>)"
| "land WClosed s = ([], s\<lparr>is_closed := True\<rparr>)"

definition commit :: "nat \<Rightarrow> 'a waiter_state \<Rightarrow> 'a wmove" where
  "commit i s = (case bufs s i of
     [] \<Rightarrow> None
   | w # ws \<Rightarrow> Some (land w (s\<lparr>bufs := (bufs s)(i := ws)\<rparr>)))"

text \<open>The calls: \<open>wait\<close>, \<open>wait_for\<close>, a queue's push with its \<open>notify\<close>, \<open>close\<close>.\<close>

fun wait_call :: "nat \<Rightarrow> 'a inp \<Rightarrow> 'a waiter_state \<Rightarrow> 'a wmove" where
  "wait_call i Wait s = quietly (at_pc i (WUntil None) s)"
| "wait_call i (WaitFor limit) s = quietly (at_pc i (WFirst limit) s)"
| "wait_call i (Push vs) s =
     (if int (length vs) < 2 ^ 64 then quietly (at_pc i (NStart (of_nat (length vs))) (issue i (WPub vs) s)) else None)"
| "wait_call i Close s = quietly (at_pc i CFence (issue i WClosed s))"
| "wait_call i _ s = None"

text \<open>\<open>wait_for\<close>: one look; no limit, a limit past \<open>kForeverNs\<close>, or the tick the limit ends at.\<close>

definition wait_for_rest :: "waiter_cfg \<Rightarrow> int \<Rightarrow> u64 \<Rightarrow> wpc" where
  "wait_for_rest C limit now =
     (if limit \<le> 0 then Done False
      else if (of_int limit :: u64) > kForeverNs then WUntil None
      else WUntil (Some (now + to_ticks (per_ms C) (of_int limit))))"

definition expired :: "u64 option \<Rightarrow> u64 \<Rightarrow> bool" where
  "expired lim now = (case lim of None \<Rightarrow> False | Some until \<Rightarrow> passed until now)"

text \<open>After a failed look of the spinning loop.\<close>

definition spin_rest :: "waiter_cfg \<Rightarrow> u64 option \<Rightarrow> u64 \<Rightarrow> u64 \<Rightarrow> wpc" where
  "spin_rest C lim start now =
     (if expired lim now then Done False
      else if now - start < to_ticks (per_ms C) (spin_ns C) \<or> policy C = Spin then SClosed lim start
      else PClosed lim)"

text \<open>After a failed look of the parking loop: the time left, at least a nanosecond where there is a limit.\<close>

definition left_ns :: "waiter_cfg \<Rightarrow> u64 option \<Rightarrow> u64 \<Rightarrow> u64" where
  "left_ns C lim now = (case lim of None \<Rightarrow> 0
     | Some until \<Rightarrow> let n = to_ns (per_ms C) (until - now) in if n = 0 then 1 else n)"

definition park_rest :: "waiter_cfg \<Rightarrow> u64 option \<Rightarrow> u64 \<Rightarrow> wpc" where
  "park_rest C lim now = (if expired lim now then Done False else PAdd lim (left_ns C lim now))"

text \<open>
  \<open>wait_until\<close>, \<open>prepare\<close>, \<open>cancel\<close> and \<open>sleep\<close>: the steps that read no clock, those that do, and
  the return from the kernel.
\<close>

fun wait_go :: "nat \<Rightarrow> wpc \<Rightarrow> 'a waiter_state \<Rightarrow> 'a wmove" where
  "wait_go i (WFirst limit) s = look i (Done True) (WLimit limit) s"
| "wait_go i (SClosed lim start) s = quietly (at_pc i (SPop lim start (is_closed s)) s)"
| "wait_go i (SPop lim start was_closed) s =
     look i (Done True) (if was_closed then Done False else STime lim start) s"
| "wait_go i (PClosed lim) s = quietly (at_pc i (PPop lim (is_closed s)) s)"
| "wait_go i (PPop lim was_closed) s =
     look i (Done True) (if was_closed then Done False else PTime lim) s"
| "wait_go i (PAdd lim ns) s = quietly (at_pc i (PFence lim ns) (issue i WAdd s))"
| "wait_go i (PFence lim ns) s = (if bufs s i = [] then quietly (at_pc i (PKey lim ns) s) else None)"
| "wait_go i (PKey lim ns) s =
     quietly (at_pc i (PClosed2 lim ns (epoch s)) (s\<lparr>age := (age s)(i := 0)\<rparr>))"
| "wait_go i (PClosed2 lim ns key) s = quietly (at_pc i (PPop2 lim ns key (is_closed s)) s)"
| "wait_go i (PPop2 lim ns key was_closed) s =
     look i (PCancel lim (Some True)) (if was_closed then PCancel lim (Some False) else PParks lim ns key) s"
| "wait_go i (PParks lim ns key) s = quietly (at_pc i (PSleep lim ns key) (s\<lparr>parks := parks s + 1\<rparr>))"
| "wait_go i (PSleep lim ns key) s =
     quietly (at_pc i (if epoch s \<noteq> key then PCancel lim None else PFutex lim ns key) s)"
| "wait_go i (PFutex lim ns key) s =
     quietly (at_pc i (if epoch s \<noteq> key then PCancel lim None else PAsleep lim) s)"
| "wait_go i (PCancel lim r) s =
     quietly (at_pc i (case r of None \<Rightarrow> PClosed lim | Some b \<Rightarrow> Done b) (issue i WSub s))"
| "wait_go i _ s = None"

fun wait_clock :: "waiter_cfg \<Rightarrow> nat \<Rightarrow> u64 \<Rightarrow> wpc \<Rightarrow> 'a waiter_state \<Rightarrow> 'a wmove" where
  "wait_clock C i now (WLimit limit) s = quietly (at_pc i (wait_for_rest C limit now) s)"
| "wait_clock C i now (WUntil lim) s =
     quietly (at_pc i (if policy C \<noteq> Park then SClosed lim now else PClosed lim) s)"
| "wait_clock C i now (STime lim start) s = quietly (at_pc i (spin_rest C lim start now) s)"
| "wait_clock C i now (PTime lim) s = quietly (at_pc i (park_rest C lim now) s)"
| "wait_clock C i now _ s = None"

fun sleep_return :: "nat \<Rightarrow> wpc \<Rightarrow> 'a waiter_state \<Rightarrow> 'a wmove" where
  "sleep_return i (PAsleep lim) s = quietly (at_pc i (PCancel lim None) s)"
| "sleep_return i _ s = None"

text \<open>The kernel's part of \<open>wake\<close>: it wakes as many sleepers as asked, or all there are.\<close>

definition sleepers :: "waiter_cfg \<Rightarrow> 'a waiter_state \<Rightarrow> nat list" where
  "sleepers C s = filter (\<lambda>j. case pcs s j of PAsleep _ \<Rightarrow> True | _ \<Rightarrow> False) [0..<threads C]"

definition wakes_ok :: "waiter_cfg \<Rightarrow> int \<Rightarrow> nat list \<Rightarrow> 'a waiter_state \<Rightarrow> bool" where
  "wakes_ok C n ws s \<longleftrightarrow> distinct ws \<and> set ws \<subseteq> set (sleepers C s) \<and>
     int (length ws) = min (max 0 n) (int (length (sleepers C s)))"

fun woken :: "wpc \<Rightarrow> wpc" where
  "woken (PAsleep lim) = PCancel lim None"
| "woken p = p"

definition futex_wake :: "nat list \<Rightarrow> 'a waiter_state \<Rightarrow> 'a waiter_state" where
  "futex_wake ws s = s\<lparr>pcs := (\<lambda>j. if j \<in> set ws then woken (pcs s j) else pcs s j)\<rparr>"

text \<open>\<open>notify\<close>, \<open>close\<close> and \<open>wake\<close>.\<close>

fun signal_go :: "waiter_cfg \<Rightarrow> nat \<Rightarrow> wpc \<Rightarrow> 'a waiter_state \<Rightarrow> 'a wmove" where
  "signal_go C i (NStart n) s =
     quietly (at_pc i (if policy C = Spin \<or> n = 0 then Idle else NFence n) s)"
| "signal_go C i (NFence n) s = (if bufs s i = [] then quietly (at_pc i (NLoad n) s) else None)"
| "signal_go C i (NLoad n) s =
     quietly (at_pc i (if waiters s = 0 then Idle else KBump (if uint n > INT_MAX then INT_MAX else uint n)) s)"
| "signal_go C i CFence s = (if bufs s i = [] then quietly (at_pc i (KBump INT_MAX) s) else None)"
| "signal_go C i (KBump n) s =
     quietly (at_pc i (KWake n) (s\<lparr>epoch := epoch s + 1, age := (\<lambda>j. age s j + 1)\<rparr>))"
| "signal_go C i _ s = None"

fun signal_wake :: "waiter_cfg \<Rightarrow> nat \<Rightarrow> nat list \<Rightarrow> wpc \<Rightarrow> 'a waiter_state \<Rightarrow> 'a wmove" where
  "signal_wake C i ws (KWake n) s =
     (if wakes_ok C n ws s then quietly (at_pc i Idle (futex_wake ws s)) else None)"
| "signal_wake C i ws _ s = None"

fun calling :: "wpc \<Rightarrow> bool" where
  "calling Idle = True"
| "calling (Done _) = True"
| "calling _ = False"

fun signalling :: "wpc \<Rightarrow> bool" where
  "signalling (NStart _) = True"
| "signalling (NFence _) = True"
| "signalling (NLoad _) = True"
| "signalling CFence = True"
| "signalling (KBump _) = True"
| "signalling (KWake _) = True"
| "signalling _ = False"

fun thread_act :: "waiter_cfg \<Rightarrow> nat \<Rightarrow> 'a inp \<Rightarrow> 'a waiter_state \<Rightarrow> 'a wmove" where
  "thread_act C i Commit s = commit i s"
| "thread_act C i Go s = (if signalling (pcs s i) then signal_go C i (pcs s i) s else wait_go i (pcs s i) s)"
| "thread_act C i (Clock now) s = wait_clock C i now (pcs s i) s"
| "thread_act C i Return s = sleep_return i (pcs s i) s"
| "thread_act C i (Wakes ws) s = signal_wake C i ws (pcs s i) s"
| "thread_act C i a s = (if calling (pcs s i) then wait_call i a s else None)"

definition wait_act :: "waiter_cfg \<Rightarrow> nat \<times> 'a inp \<Rightarrow> 'a waiter_state \<Rightarrow> 'a wmove" where
  "wait_act C c s = (case c of (i, a) \<Rightarrow> if i < threads C then thread_act C i a s else None)"

inductive wait_step :: "waiter_cfg \<Rightarrow> 'a waiter_state \<Rightarrow> 'a qevent list \<Rightarrow> 'a waiter_state \<Rightarrow> bool" for C where
  "wait_act C c s = Some (es, t) \<Longrightarrow> wait_step C s es t"

text \<open>
  The epoch has 32 bits. A run is taken as one in which no key is \<open>2 ^ 32\<close> bumps old while its
  thread has still to compare it: the futex could not tell it from a fresh one.
\<close>

fun key_of :: "wpc \<Rightarrow> u32 option" where
  "key_of (PClosed2 _ _ key) = Some key"
| "key_of (PPop2 _ _ key _) = Some key"
| "key_of (PParks _ _ key) = Some key"
| "key_of (PSleep _ _ key) = Some key"
| "key_of (PFutex _ _ key) = Some key"
| "key_of _ = None"

definition keys_fresh :: "waiter_cfg \<Rightarrow> 'a waiter_state \<Rightarrow> bool" where
  "keys_fresh C s \<longleftrightarrow> list_all (\<lambda>j. key_of (pcs s j) = None \<or> int (age s j) < 4294967296) [0..<threads C]"

definition fresh_act :: "waiter_cfg \<Rightarrow> nat \<times> 'a inp \<Rightarrow> 'a waiter_state \<Rightarrow> 'a wmove" where
  "fresh_act C c s = (case wait_act C c s of None \<Rightarrow> None
     | Some (es, t) \<Rightarrow> if keys_fresh C t then Some (es, t) else None)"

definition fresh_step :: "waiter_cfg \<Rightarrow> 'a waiter_state \<Rightarrow> 'a qevent list \<Rightarrow> 'a waiter_state \<Rightarrow> bool" where
  "fresh_step C s es t \<longleftrightarrow> wait_step C s es t \<and> keys_fresh C t"

lemma fresh_act_iff: "fresh_act C c s = Some (es, t) \<longleftrightarrow> wait_act C c s = Some (es, t) \<and> keys_fresh C t"
  by (auto simp: fresh_act_def split: option.splits if_splits)

interpretation wsched: scheduled "fresh_act C" "fresh_step C" for C :: waiter_cfg
  by unfold_locales (auto simp: fresh_act_iff fresh_step_def wait_step.simps)

end
