(* ===== verification/Waiter_Inv.thy ===== *)
theory Waiter_Inv
  imports Waiter
begin

text \<open>
  What the waiter promises: no wake-up is lost. The invariant has three parts. The number of
  announced consumers in memory is the number whose announcement has landed and whose withdrawal
  has not. The epoch is a consumer's key plus the bumps since it read the key. And, the heart of
  it: while a consumer sleeps, or is about to sleep on a current key, each element of the queue
  is matched by a consumer that is still to look at the queue or by a wake-up that is still to
  come.
\<close>

section \<open>Threads\<close>

text \<open>What a thread's buffer may hold at each place.\<close>

fun is_count :: "'a pstore \<Rightarrow> bool" where
  "is_count WAdd = True"
| "is_count WSub = True"
| "is_count _ = False"

fun pub_size :: "'a pstore \<Rightarrow> nat" where
  "pub_size (WPub vs) = length vs"
| "pub_size _ = 0"

primrec pending :: "'a pstore list \<Rightarrow> nat" where
  "pending [] = 0"
| "pending (w # b) = pub_size w + pending b"

lemma pending_snoc [simp]: "pending (b @ [w]) = pending b + pub_size w"
  by (induction b) auto

text \<open>Between the fence of \<open>prepare\<close> and the withdrawal a thread's buffer is empty.\<close>

fun announced :: "wpc \<Rightarrow> bool" where
  "announced (PKey _ _) = True"
| "announced (PClosed2 _ _ _) = True"
| "announced (PPop2 _ _ _ _) = True"
| "announced (PParks _ _ _) = True"
| "announced (PSleep _ _ _) = True"
| "announced (PFutex _ _ _) = True"
| "announced (PAsleep _) = True"
| "announced (PCancel _ _) = True"
| "announced _ = False"

fun in_park :: "wpc \<Rightarrow> bool" where
  "in_park (PClosed _) = True"
| "in_park (PPop _ _) = True"
| "in_park (PTime _) = True"
| "in_park (PAdd _ _) = True"
| "in_park (PFence _ _) = True"
| "in_park p = announced p"

fun tells :: "wpc \<Rightarrow> nat" where
  "tells (NStart n) = unat n"
| "tells (NFence n) = unat n"
| "tells (NLoad n) = unat n"
| "tells (KBump n) = nat n"
| "tells _ = 0"

definition leaving :: "'a pstore list \<Rightarrow> bool" where
  "leaving b \<longleftrightarrow> filter is_count b \<in> {[], [WSub]}"

definition entering :: "'a pstore list \<Rightarrow> bool" where
  "entering b \<longleftrightarrow> filter is_count b \<in> {[], [WAdd], [WSub, WAdd]}"

definition still_in :: "'a pstore list \<Rightarrow> bool" where
  "still_in b \<longleftrightarrow> filter is_count b \<noteq> []"

definition not_yet_in :: "'a pstore list \<Rightarrow> bool" where
  "not_yet_in b \<longleftrightarrow> filter is_count b = [WAdd]"

fun counts_ok :: "wpc \<Rightarrow> 'a pstore list \<Rightarrow> bool" where
  "counts_ok (PFence _ _) b \<longleftrightarrow> entering b"
| "counts_ok p b \<longleftrightarrow> (if announced p then b = [] else leaving b)"

fun fenced :: "wpc \<Rightarrow> bool" where
  "fenced (NLoad _) = True"
| "fenced (KBump _) = True"
| "fenced (KWake _) = True"
| "fenced _ = False"

fun may_close :: "wpc \<Rightarrow> bool" where
  "may_close CFence = True"
| "may_close _ = False"

definition thread_ok :: "wait_policy \<Rightarrow> wpc \<Rightarrow> 'a pstore list \<Rightarrow> bool" where
  "thread_ok pol p b \<longleftrightarrow> counts_ok p b \<and> (fenced p \<longrightarrow> b = []) \<and> (WClosed \<in> set b \<longrightarrow> may_close p) \<and>
     (pol = Spin \<longrightarrow> \<not> in_park p) \<and> (pol \<noteq> Spin \<longrightarrow> pending b \<le> tells p)"

fun counted :: "wpc \<Rightarrow> 'a pstore list \<Rightarrow> bool" where
  "counted (PFence _ _) b \<longleftrightarrow> \<not> not_yet_in b"
| "counted p b \<longleftrightarrow> announced p \<or> still_in b"

text \<open>
  A consumer that has made its last look and will sleep if its key is current; one that looks at
  the queue before it returns or sleeps (one whose key is old does so too); what a producer has
  published and not yet told of.
\<close>

fun nodding :: "wpc \<Rightarrow> bool" where
  "nodding (PParks _ _ _) = True"
| "nodding (PSleep _ _ _) = True"
| "nodding (PFutex _ _ _) = True"
| "nodding _ = False"

fun asleep :: "wpc \<Rightarrow> bool" where
  "asleep (PAsleep _) = True"
| "asleep _ = False"

fun will_look :: "wpc \<Rightarrow> nat \<Rightarrow> bool" where
  "will_look (WFirst _) a = True"
| "will_look (WUntil _) a = True"
| "will_look (SClosed _ _) a = True"
| "will_look (SPop _ _ _) a = True"
| "will_look (PClosed _) a = True"
| "will_look (PPop _ _) a = True"
| "will_look (PAdd _ _) a = True"
| "will_look (PFence _ _) a = True"
| "will_look (PKey _ _) a = True"
| "will_look (PClosed2 _ _ _) a = True"
| "will_look (PPop2 _ _ _ _) a = True"
| "will_look (PCancel _ r) a = (r = None)"
| "will_look p a = (nodding p \<and> a > 0)"

fun waking :: "wpc \<Rightarrow> nat" where
  "waking (KWake n) = nat n"
| "waking _ = 0"

definition cover :: "wpc \<Rightarrow> nat \<Rightarrow> 'a pstore list \<Rightarrow> nat" where
  "cover p a b = of_bool (will_look p a) + (tells p - pending b)"

fun bump_all :: "nat \<Rightarrow> wpc \<Rightarrow> bool" where
  "bump_all N (KBump n) \<longleftrightarrow> int N \<le> n"
| "bump_all N _ = False"

fun wake_all :: "nat \<Rightarrow> wpc \<Rightarrow> bool" where
  "wake_all N (KBump n) \<longleftrightarrow> int N \<le> n"
| "wake_all N (KWake n) \<longleftrightarrow> int N \<le> n"
| "wake_all N _ = False"

text \<open>The same for \<open>close\<close>: a consumer that has seen the waiter open, and a closer.\<close>

fun saw_open :: "wpc \<Rightarrow> bool" where
  "saw_open (PPop2 _ _ _ c) \<longleftrightarrow> \<not> c"
| "saw_open p = nodding p"

section \<open>The invariant\<close>

definition W1 :: "waiter_cfg \<Rightarrow> 'a waiter_state \<Rightarrow> nat" where
  "W1 C s = (\<Sum>j<threads C. cover (pcs s j) (age s j) (bufs s j))"

definition W2 :: "waiter_cfg \<Rightarrow> 'a waiter_state \<Rightarrow> nat" where
  "W2 C s = (\<Sum>j<threads C. waking (pcs s j))"

definition some_thread :: "waiter_cfg \<Rightarrow> (nat \<Rightarrow> bool) \<Rightarrow> bool" where
  "some_thread C P \<longleftrightarrow> (\<exists>j<threads C. P j)"

definition inv_threads :: "waiter_cfg \<Rightarrow> 'a waiter_state \<Rightarrow> bool" where
  "inv_threads C s \<longleftrightarrow> (\<forall>j<threads C. thread_ok (policy C) (pcs s j) (bufs s j))"

definition inv_count :: "waiter_cfg \<Rightarrow> 'a waiter_state \<Rightarrow> bool" where
  "inv_count C s \<longleftrightarrow> waiters s = of_nat (\<Sum>j<threads C. of_bool (counted (pcs s j) (bufs s j)))"

definition inv_keys :: "waiter_cfg \<Rightarrow> 'a waiter_state \<Rightarrow> bool" where
  "inv_keys C s \<longleftrightarrow> (\<forall>j<threads C. \<forall>k. key_of (pcs s j) = Some k \<longrightarrow> epoch s = k + of_nat (age s j))"

definition inv_nodding :: "waiter_cfg \<Rightarrow> 'a waiter_state \<Rightarrow> bool" where
  "inv_nodding C s \<longleftrightarrow>
     (some_thread C (\<lambda>j. nodding (pcs s j) \<and> age s j = 0) \<longrightarrow>
        some_thread C (\<lambda>j. bump_all (threads C) (pcs s j)) \<or> length (queue s) \<le> W1 C s)"

definition inv_asleep :: "waiter_cfg \<Rightarrow> 'a waiter_state \<Rightarrow> bool" where
  "inv_asleep C s \<longleftrightarrow>
     (some_thread C (\<lambda>j. asleep (pcs s j)) \<longrightarrow>
        some_thread C (\<lambda>j. wake_all (threads C) (pcs s j)) \<or> length (queue s) \<le> W1 C s + W2 C s)"

definition inv_closing :: "waiter_cfg \<Rightarrow> 'a waiter_state \<Rightarrow> bool" where
  "inv_closing C s \<longleftrightarrow>
     (is_closed s \<and> some_thread C (\<lambda>j. saw_open (pcs s j) \<and> age s j = 0) \<longrightarrow>
        some_thread C (\<lambda>j. may_close (pcs s j) \<or> bump_all (threads C) (pcs s j)))"

definition inv_closed :: "waiter_cfg \<Rightarrow> 'a waiter_state \<Rightarrow> bool" where
  "inv_closed C s \<longleftrightarrow>
     (is_closed s \<and> some_thread C (\<lambda>j. asleep (pcs s j)) \<longrightarrow>
        some_thread C (\<lambda>j. may_close (pcs s j) \<or> wake_all (threads C) (pcs s j)))"

definition waiter_inv :: "waiter_cfg \<Rightarrow> 'a waiter_state \<Rightarrow> bool" where
  "waiter_inv C s \<longleftrightarrow> keys_fresh C s \<and> inv_threads C s \<and> inv_count C s \<and> inv_keys C s \<and>
     inv_nodding C s \<and> inv_asleep C s \<and> inv_closing C s \<and> inv_closed C s"


lemma counts_nil [simp]: "leaving []" "entering []" "\<not> still_in []" "\<not> not_yet_in []"
  by (simp_all add: leaving_def entering_def still_in_def not_yet_in_def)

lemma counts_add [simp]: "leaving b \<Longrightarrow> entering (b @ [WAdd])" "leaving b \<Longrightarrow> not_yet_in (b @ [WAdd]) \<longleftrightarrow> \<not> still_in b"
  by (auto simp: leaving_def entering_def still_in_def not_yet_in_def)

lemma counts_sub [simp]: "leaving [WSub]" "still_in [WSub]"
  by (auto simp: leaving_def still_in_def)

lemma counts_other [simp]:
  "\<not> is_count w \<Longrightarrow> leaving (b @ [w]) \<longleftrightarrow> leaving b" "\<not> is_count w \<Longrightarrow> still_in (b @ [w]) \<longleftrightarrow> still_in b"
  by (auto simp: leaving_def still_in_def)

lemma counts_land_other:
  assumes "\<not> is_count w"
  shows "leaving (w # b) \<longleftrightarrow> leaving b" "entering (w # b) \<longleftrightarrow> entering b" "still_in (w # b) \<longleftrightarrow> still_in b"
    "not_yet_in (w # b) \<longleftrightarrow> not_yet_in b"
  using assms by (auto simp: leaving_def entering_def still_in_def not_yet_in_def)

lemma counts_land [simp]: "\<not> leaving (WAdd # b)" "still_in (WSub # b)" "\<not> not_yet_in (WSub # b)"
  by (simp_all add: leaving_def still_in_def not_yet_in_def)

lemma counts_landD:
  "leaving (WSub # b) \<Longrightarrow> leaving b \<and> \<not> still_in b"
  "entering (WSub # b) \<Longrightarrow> entering b \<and> not_yet_in b"
  "entering (WAdd # b) \<Longrightarrow> not_yet_in (WAdd # b) \<and> entering b \<and> \<not> not_yet_in b"
  by (auto simp: leaving_def entering_def still_in_def not_yet_in_def)

lemma key_current:
  assumes "int a < 4294967296"
  shows "(of_nat a :: u32) = 0 \<longleftrightarrow> a = 0"
  using assms of_nat_eq_window [where 'a = 32, of a 0] by auto

section \<open>Steps of one thread\<close>

definition moved :: "nat \<Rightarrow> 'a waiter_state \<Rightarrow> 'a waiter_state \<Rightarrow> bool" where
  "moved i s t \<longleftrightarrow> (\<forall>j. j \<noteq> i \<longrightarrow> pcs t j = pcs s j \<and> bufs t j = bufs s j \<and> age t j = age s j)"

lemma sum_moved:
  fixes f :: "nat \<Rightarrow> nat"
  assumes "i < N" "\<And>j. j \<noteq> i \<Longrightarrow> g j = f j"
  shows "(\<Sum>j<N. g j) + f i = (\<Sum>j<N. f j) + g i"
proof -
  have "(\<Sum>j<N. g j) = g i + (\<Sum>j\<in>{..<N} - {i}. g j)" and "(\<Sum>j<N. f j) = f i + (\<Sum>j\<in>{..<N} - {i}. f j)"
    using assms(1) by (auto intro: sum.remove)
  moreover have "(\<Sum>j\<in>{..<N} - {i}. g j) = (\<Sum>j\<in>{..<N} - {i}. f j)"
    using assms(2) by (intro sum.cong) auto
  ultimately show ?thesis by simp
qed

definition nods :: "'a waiter_state \<Rightarrow> nat \<Rightarrow> bool" where
  "nods s i \<longleftrightarrow> nodding (pcs s i) \<and> age s i = 0"

definition opens :: "'a waiter_state \<Rightarrow> nat \<Rightarrow> bool" where
  "opens s i \<longleftrightarrow> saw_open (pcs s i) \<and> age s i = 0"

abbreviation bumps :: "waiter_cfg \<Rightarrow> 'a waiter_state \<Rightarrow> nat \<Rightarrow> bool" where
  "bumps C s i \<equiv> bump_all (threads C) (pcs s i)"

abbreviation wakes :: "waiter_cfg \<Rightarrow> 'a waiter_state \<Rightarrow> nat \<Rightarrow> bool" where
  "wakes C s i \<equiv> wake_all (threads C) (pcs s i)"

abbreviation covers :: "'a waiter_state \<Rightarrow> nat \<Rightarrow> nat" where
  "covers s i \<equiv> cover (pcs s i) (age s i) (bufs s i)"

lemma at_pc_simps [simp]:
  "pcs (at_pc i p s) i = p" "bufs (at_pc i p s) = bufs s" "queue (at_pc i p s) = queue s"
  "waiters (at_pc i p s) = waiters s" "epoch (at_pc i p s) = epoch s" "age (at_pc i p s) = age s"
  "is_closed (at_pc i p s) = is_closed s"
  by (simp_all add: at_pc_def)

lemma moved_at_pc [simp]:
  "moved i s (at_pc i p t) \<longleftrightarrow> (\<forall>j. j \<noteq> i \<longrightarrow> pcs t j = pcs s j \<and> bufs t j = bufs s j \<and> age t j = age s j)"
  by (simp add: moved_def at_pc_def)

text \<open>What a step of one thread keeps of the match between elements and looks, and of the closing.\<close>

definition keeps_match :: "waiter_cfg \<Rightarrow> nat \<Rightarrow> 'a waiter_state \<Rightarrow> 'a waiter_state \<Rightarrow> bool" where
  "keeps_match C i s t \<longleftrightarrow> queue t = [] \<or> bumps C t i \<or>
     (nods t i \<longrightarrow> nods s i) \<and> (asleep (pcs t i) \<longrightarrow> asleep (pcs s i) \<or> nods s i) \<and>
     length (queue t) + covers s i \<le> length (queue s) + covers t i \<and>
     waking (pcs s i) \<le> waking (pcs t i) \<and>
     (bumps C s i \<longrightarrow> bumps C t i) \<and> (wakes C s i \<longrightarrow> wakes C t i)"

definition keeps_closing :: "waiter_cfg \<Rightarrow> nat \<Rightarrow> 'a waiter_state \<Rightarrow> 'a waiter_state \<Rightarrow> bool" where
  "keeps_closing C i s t \<longleftrightarrow> \<not> is_closed t \<or> may_close (pcs t i) \<or> bumps C t i \<or>
     is_closed s \<and> (opens t i \<longrightarrow> opens s i) \<and> (asleep (pcs t i) \<longrightarrow> asleep (pcs s i) \<or> opens s i) \<and>
     \<not> may_close (pcs s i) \<and> \<not> bumps C s i \<and> (wakes C s i \<longrightarrow> wakes C t i)"

definition nobody_in :: "waiter_cfg \<Rightarrow> 'a waiter_state \<Rightarrow> bool" where
  "nobody_in C t \<longleftrightarrow> (\<forall>j<threads C. \<not> announced (pcs t j))"

definition local_ok :: "waiter_cfg \<Rightarrow> nat \<Rightarrow> 'a waiter_state \<Rightarrow> 'a waiter_state \<Rightarrow> bool" where
  "local_ok C i s t \<longleftrightarrow> moved i s t \<and> thread_ok (policy C) (pcs t i) (bufs t i) \<and>
     waiters t + of_bool (counted (pcs s i) (bufs s i)) = waiters s + of_bool (counted (pcs t i) (bufs t i)) \<and>
     epoch t = epoch s \<and> (\<forall>k. key_of (pcs t i) = Some k \<longrightarrow> epoch s = k + of_nat (age t i)) \<and>
     (nobody_in C t \<or> keeps_match C i s t \<and> keeps_closing C i s t)"

lemma bump_wake: "bump_all N p \<Longrightarrow> wake_all N p"
  by (cases p) auto

lemma nodding_announced: "nodding p \<Longrightarrow> announced p" "asleep p \<Longrightarrow> announced p" "saw_open p \<Longrightarrow> announced p"
  by (cases p; simp)+

lemma inv_threads_local: "local_ok C i s t \<Longrightarrow> inv_threads C s \<Longrightarrow> inv_threads C t"
  unfolding inv_threads_def local_ok_def moved_def by metis

lemma inv_keys_local: "local_ok C i s t \<Longrightarrow> inv_keys C s \<Longrightarrow> inv_keys C t"
  unfolding inv_keys_def local_ok_def moved_def by metis

lemma inv_count_local:
  assumes "i < threads C" "local_ok C i s t" "inv_count C s"
  shows "inv_count C t"
proof -
  have "(\<Sum>j<threads C. of_bool (counted (pcs t j) (bufs t j))) + of_bool (counted (pcs s i) (bufs s i))
      = (\<Sum>j<threads C. of_bool (counted (pcs s j) (bufs s j))) + (of_bool (counted (pcs t i) (bufs t i)) :: nat)"
    using assms by (intro sum_moved) (auto simp: local_ok_def moved_def)
  from arg_cong [OF this, of "of_nat :: nat \<Rightarrow> u32"]
  have "(of_nat (\<Sum>j<threads C. of_bool (counted (pcs t j) (bufs t j))) :: u32) + of_bool (counted (pcs s i) (bufs s i))
      = of_nat (\<Sum>j<threads C. of_bool (counted (pcs s j) (bufs s j))) + of_bool (counted (pcs t i) (bufs t i))"
    unfolding of_nat_add of_nat_of_bool .
  also have "\<dots> = waiters t + of_bool (counted (pcs s i) (bufs s i))"
    using assms(2,3) by (simp only: inv_count_def local_ok_def)
  finally show ?thesis unfolding inv_count_def by (simp only: add_right_cancel)
qed

lemma W1_local: "i < threads C \<Longrightarrow> moved i s t \<Longrightarrow> W1 C t + covers s i = W1 C s + covers t i"
  unfolding W1_def by (rule sum_moved) (auto simp: moved_def)

lemma W2_local: "i < threads C \<Longrightarrow> moved i s t \<Longrightarrow> W2 C t + waking (pcs s i) = W2 C s + waking (pcs t i)"
  unfolding W2_def by (rule sum_moved) (auto simp: moved_def)

lemma nobody_some:
  assumes "nobody_in C t"
  shows "\<not> some_thread C (\<lambda>j. nodding (pcs t j) \<and> age t j = 0)" "\<not> some_thread C (\<lambda>j. asleep (pcs t j))"
    "\<not> some_thread C (\<lambda>j. saw_open (pcs t j) \<and> age t j = 0)"
  using assms by (auto simp: nobody_in_def some_thread_def dest: nodding_announced)

lemma some_local:
  assumes "some_thread C P" "i < threads C" "P i \<longrightarrow> Q i" "\<And>j. j \<noteq> i \<Longrightarrow> P j \<Longrightarrow> Q j"
  shows "some_thread C Q"
  using assms unfolding some_thread_def by metis

lemma match_local:
  assumes i: "i < threads C" and m: "moved i s t" and k: "keeps_match C i s t"
    and s: "inv_nodding C s" "inv_asleep C s"
  shows "inv_nodding C t" "inv_asleep C t"
proof -
  have o: "\<And>j. j \<noteq> i \<Longrightarrow> pcs t j = pcs s j \<and> bufs t j = bufs s j \<and> age t j = age s j"
    using m by (simp add: moved_def)
  consider "queue t = []" | "bumps C t i" |
    (kept) "nods t i \<longrightarrow> nods s i" "asleep (pcs t i) \<longrightarrow> asleep (pcs s i) \<or> nods s i"
      "length (queue t) + covers s i \<le> length (queue s) + covers t i"
      "waking (pcs s i) \<le> waking (pcs t i)"
      "bumps C s i \<longrightarrow> bumps C t i" "wakes C s i \<longrightarrow> wakes C t i"
    using k unfolding keeps_match_def by blast
  then have "inv_nodding C t \<and> inv_asleep C t"
  proof cases
    case 2
    then show ?thesis using i bump_wake by (auto simp: inv_nodding_def inv_asleep_def some_thread_def)
  next
    case kept
    have w1: "length (queue s) \<le> W1 C s \<Longrightarrow> length (queue t) \<le> W1 C t"
      using kept(3) W1_local [OF i m] by linarith
    have w2: "length (queue s) \<le> W1 C s + W2 C s \<Longrightarrow> length (queue t) \<le> W1 C t + W2 C t"
      using kept(3,4) W1_local [OF i m] W2_local [OF i m] by linarith
    have b: "some_thread C (bumps C s) \<Longrightarrow> some_thread C (bumps C t)"
      by (erule some_local [OF _ i]) (use kept o in auto)
    have w: "some_thread C (wakes C s) \<Longrightarrow> some_thread C (wakes C t)"
      by (erule some_local [OF _ i]) (use kept o in auto)
    have bw: "some_thread C (bumps C t) \<Longrightarrow> some_thread C (wakes C t)"
      by (erule some_local [OF _ i]) (auto simp: bump_wake)
    have n: "some_thread C (\<lambda>j. nodding (pcs t j) \<and> age t j = 0) \<Longrightarrow> some_thread C (\<lambda>j. nodding (pcs s j) \<and> age s j = 0)"
      by (erule some_local [OF _ i]) (use kept(1) o in \<open>auto simp: nods_def\<close>)
    have a: "some_thread C (\<lambda>j. asleep (pcs t j)) \<Longrightarrow>
        some_thread C (\<lambda>j. asleep (pcs s j)) \<or> some_thread C (\<lambda>j. nodding (pcs s j) \<and> age s j = 0)"
      using kept(2) o unfolding some_thread_def nods_def by metis
    show ?thesis
      using s n a b w bw w1 w2 unfolding inv_nodding_def inv_asleep_def by (meson trans_le_add1)
  qed (simp add: inv_nodding_def inv_asleep_def)
  then show "inv_nodding C t" "inv_asleep C t" by auto
qed

lemma closing_local:
  assumes i: "i < threads C" and m: "moved i s t" and k: "keeps_closing C i s t"
    and s: "inv_closing C s" "inv_closed C s"
  shows "inv_closing C t" "inv_closed C t"
proof -
  have o: "\<And>j. j \<noteq> i \<Longrightarrow> pcs t j = pcs s j \<and> bufs t j = bufs s j \<and> age t j = age s j"
    using m by (simp add: moved_def)
  consider "\<not> is_closed t" | "may_close (pcs t i) \<or> bumps C t i" |
    (kept) "is_closed s" "opens t i \<longrightarrow> opens s i" "asleep (pcs t i) \<longrightarrow> asleep (pcs s i) \<or> opens s i"
      "\<not> may_close (pcs s i)" "\<not> bumps C s i" "wakes C s i \<longrightarrow> wakes C t i"
    using k unfolding keeps_closing_def by blast
  then have "inv_closing C t \<and> inv_closed C t"
  proof cases
    case 2
    then show ?thesis using i bump_wake by (auto simp: inv_closing_def inv_closed_def some_thread_def)
  next
    case kept
    have b: "some_thread C (\<lambda>j. may_close (pcs s j) \<or> bumps C s j) \<Longrightarrow> some_thread C (\<lambda>j. may_close (pcs t j) \<or> bumps C t j)"
      by (erule some_local [OF _ i]) (use kept o in auto)
    have w: "some_thread C (\<lambda>j. may_close (pcs s j) \<or> wakes C s j) \<Longrightarrow> some_thread C (\<lambda>j. may_close (pcs t j) \<or> wakes C t j)"
      by (erule some_local [OF _ i]) (use kept o in auto)
    have bw: "some_thread C (\<lambda>j. may_close (pcs t j) \<or> bumps C t j) \<Longrightarrow> some_thread C (\<lambda>j. may_close (pcs t j) \<or> wakes C t j)"
      by (erule some_local [OF _ i]) (auto simp: bump_wake)
    have n: "some_thread C (\<lambda>j. saw_open (pcs t j) \<and> age t j = 0) \<Longrightarrow> some_thread C (\<lambda>j. saw_open (pcs s j) \<and> age s j = 0)"
      by (erule some_local [OF _ i]) (use kept(2) o in \<open>auto simp: opens_def\<close>)
    have a: "some_thread C (\<lambda>j. asleep (pcs t j)) \<Longrightarrow>
        some_thread C (\<lambda>j. asleep (pcs s j)) \<or> some_thread C (\<lambda>j. saw_open (pcs s j) \<and> age s j = 0)"
      using kept(3) o unfolding some_thread_def opens_def by metis
    show ?thesis
      using s n a b w bw kept(1) unfolding inv_closing_def inv_closed_def by meson
  qed (simp add: inv_closing_def inv_closed_def)
  then show "inv_closing C t" "inv_closed C t" by auto
qed

lemma waiter_inv_local:
  assumes i: "i < threads C" and l: "local_ok C i s t" and f: "keys_fresh C t" and s: "waiter_inv C s"
  shows "waiter_inv C t"
proof -
  have "inv_nodding C t \<and> inv_asleep C t \<and> inv_closing C t \<and> inv_closed C t"
  proof (cases "nobody_in C t")
    case True
    then show ?thesis
      using nobody_some [OF True] by (simp add: inv_nodding_def inv_asleep_def inv_closing_def inv_closed_def)
  next
    case False
    then show ?thesis
      using l s match_local [OF i] closing_local [OF i] by (auto simp: local_ok_def waiter_inv_def)
  qed
  then show ?thesis
    using inv_threads_local [OF l] inv_keys_local [OF l] inv_count_local [OF i l] f s
    by (simp add: waiter_inv_def)
qed


section \<open>Each operation\<close>

lemma local_okI:
  assumes "moved i s t" "thread_ok (policy C) (pcs t i) (bufs t i)"
    "waiters t + of_bool (counted (pcs s i) (bufs s i)) = waiters s + of_bool (counted (pcs t i) (bufs t i))"
    "epoch t = epoch s" "\<And>k. key_of (pcs t i) = Some k \<Longrightarrow> epoch s = k + of_nat (age t i)"
    "keeps_match C i s t" "keeps_closing C i s t"
  shows "local_ok C i s t"
  using assms by (auto simp: local_ok_def)

lemmas keeps_defs = keeps_match_def keeps_closing_def thread_ok_def nods_def opens_def cover_def issue_def


lemma wait_go_local:
  assumes "wait_go i (pcs s i) s = Some (es, t)" "thread_ok (policy C) (pcs s i) (bufs s i)"
    "\<And>k. key_of (pcs s i) = Some k \<Longrightarrow> epoch s = k + of_nat (age s i)"
    "key_of (pcs s i) \<noteq> None \<Longrightarrow> int (age s i) < 4294967296"
  shows "local_ok C i s t"
  using assms
  by (cases "pcs s i"; simp add: quietly_def look_def split: list.splits if_splits option.splits)
    (clarify, rule local_okI; simp add: key_current keeps_defs)+

lemma wait_clock_local:
  assumes "wait_clock C i now (pcs s i) s = Some (es, t)" "thread_ok (policy C) (pcs s i) (bufs s i)"
  shows "local_ok C i s t"
  using assms
  by (cases "pcs s i"; simp add: quietly_def wait_for_rest_def spin_rest_def park_rest_def split: if_splits)
    (clarify, rule local_okI; simp add: keeps_defs)+

lemma sleep_return_local:
  assumes "sleep_return i (pcs s i) s = Some (es, t)" "thread_ok (policy C) (pcs s i) (bufs s i)"
  shows "local_ok C i s t"
  using assms by (cases "pcs s i"; simp add: quietly_def) (clarify, rule local_okI; simp add: keeps_defs)

lemma unat_u64: "int n < 18446744073709551616 \<Longrightarrow> unat (of_nat n :: u64) = n"
  by (simp add: unsigned_of_nat take_bit_nat_eq_self)

lemma wait_call_local:
  assumes "wait_call i c s = Some (es, t)" "calling (pcs s i)" "thread_ok (policy C) (pcs s i) (bufs s i)"
  shows "local_ok C i s t"
  using assms
  by (cases "pcs s i"; simp) (cases c; simp add: quietly_def split: if_splits;
      clarify, rule local_okI; simp add: keeps_defs unat_u64)+

fun in_fence :: "wpc \<Rightarrow> bool" where
  "in_fence (PFence _ _) = True"
| "in_fence _ = False"

lemma counts_by_place:
  "counts_ok p b \<longleftrightarrow> (if in_fence p then entering b else if announced p then b = [] else leaving b)"
  "counted p b \<longleftrightarrow> (if in_fence p then \<not> not_yet_in b else announced p \<or> still_in b)"
  by (cases p; simp)+

lemma commit_moved: "commit i s = Some (es, t) \<Longrightarrow> moved i s t \<and> pcs t = pcs s \<and> age t = age s \<and> epoch t = epoch s"
  by (auto simp: commit_def moved_def split: list.splits elim!: land.elims)

lemma nobody_spin: "policy C = Spin \<Longrightarrow> inv_threads C s \<Longrightarrow> pcs t = pcs s \<Longrightarrow> nobody_in C t"
proof -
  have *: "announced p \<Longrightarrow> in_park p" for p by (cases p) auto
  show "policy C = Spin \<Longrightarrow> inv_threads C s \<Longrightarrow> pcs t = pcs s \<Longrightarrow> nobody_in C t"
    using * by (auto simp: nobody_in_def inv_threads_def thread_ok_def)
qed

lemma commit_local:
  assumes c: "commit i s = Some (es, t)" and i: "i < threads C" and inv: "inv_threads C s"
    and key: "\<And>k. key_of (pcs s i) = Some k \<Longrightarrow> epoch s = k + of_nat (age s i)"
  shows "local_ok C i s t"
proof -
  obtain w b where b: "bufs s i = w # b" and t: "(es, t) = land w (s\<lparr>bufs := (bufs s)(i := b)\<rparr>)"
    using c by (auto simp: commit_def split: list.splits)
  have ok: "thread_ok (policy C) (pcs s i) (w # b)" using inv i b by (auto simp: inv_threads_def)
  have m: "moved i s t" "pcs t = pcs s" "age t = age s" "epoch t = epoch s" using commit_moved [OF c] by auto
  have bt: "bufs t i = b" using t by (cases w) auto
  have tok: "thread_ok (policy C) (pcs t i) (bufs t i)"
    using ok by (cases w) (auto simp: bt m thread_ok_def counts_by_place counts_land_other dest: counts_landD split: if_splits)
  have cnt: "waiters t + of_bool (counted (pcs s i) (bufs s i)) = waiters s + of_bool (counted (pcs t i) (bufs t i))"
    using ok t by (cases w) (auto simp: bt b m thread_ok_def counts_by_place counts_land_other dest: counts_landD split: if_splits)
  have clo: "keeps_closing C i s t"
    using ok t by (cases w) (auto simp: m thread_ok_def keeps_closing_def opens_def)
  have "nobody_in C t \<or> keeps_match C i s t"
  proof (cases "policy C = Spin")
    case True
    then show ?thesis using nobody_spin inv m(2) by blast
  next
    case False
    then have "pub_size w + pending b \<le> tells (pcs s i)" using ok by (simp add: thread_ok_def)
    then have "keeps_match C i s t"
      using t by (cases w) (auto simp: m b bt keeps_match_def nods_def cover_def)
    then show ?thesis ..
  qed
  then show ?thesis using m tok cnt clo key by (simp add: local_ok_def)
qed


lemma announced_counted: "announced p \<Longrightarrow> counted p b"
  by (cases p) auto

lemma nobody_waiting:
  assumes "inv_count C s" "threads C < 2 ^ 32" "waiters s = 0"
  shows "nobody_in C s"
proof -
  let ?S = "\<Sum>j<threads C. of_bool (counted (pcs s j) (bufs s j)) :: nat"
  have "?S \<le> (\<Sum>j<threads C. 1)" by (rule sum_mono) simp
  then have "?S < 2 ^ 32" using assms(2) by simp
  moreover have "(of_nat ?S :: u32) = of_nat 0" using assms(1,3) by (simp add: inv_count_def)
  ultimately have "?S = 0" using of_nat_eq_window [where 'a = 32, of ?S 0] by simp
  then have "j < threads C \<Longrightarrow> \<not> counted (pcs s j) (bufs s j)" for j by auto
  then show ?thesis using announced_counted by (auto simp: nobody_in_def)
qed

lemma signal_go_local:
  assumes g: "signal_go C i (pcs s i) s = Some (es, t)" and i: "i < threads C" and N: "int (threads C) \<le> INT_MAX"
    and inv: "inv_threads C s" "inv_count C s" and nb: "\<And>n. pcs s i \<noteq> KBump n"
  shows "local_ok C i s t"
proof -
  have ok: "thread_ok (policy C) (pcs s i) (bufs s i)" using inv(1) i by (auto simp: inv_threads_def)
  consider (NStart) n where "pcs s i = NStart n" | (NFence) n where "pcs s i = NFence n"
    | (NLoad) n where "pcs s i = NLoad n" | (CFence) "pcs s i = CFence"
    using g nb by (cases "pcs s i") auto
  then show ?thesis
  proof cases
    case NStart
    show ?thesis
    proof (cases "policy C = Spin")
      case True
      have "nobody_in C (at_pc i Idle s)"
        using nobody_spin [OF True inv(1) refl] by (auto simp: nobody_in_def at_pc_def)
      then show ?thesis using g ok True NStart by (auto simp: quietly_def local_ok_def thread_ok_def)
    next
      case False
      then show ?thesis using g ok NStart
        by (simp add: quietly_def split: if_splits) (clarify, rule local_okI; simp add: keeps_defs)+
    qed
  next
    case NFence
    then show ?thesis using g ok
      by (simp add: quietly_def split: if_splits) (clarify, rule local_okI; simp add: keeps_defs)+
  next
    case NLoad
    show ?thesis
    proof (cases "waiters s = 0")
      case True
      have "nobody_in C (at_pc i Idle s)"
        using nobody_waiting [OF inv(2) _ True] N by (auto simp: nobody_in_def at_pc_def INT_MAX_def)
      then show ?thesis using g ok True NLoad by (auto simp: quietly_def local_ok_def thread_ok_def)
    next
      case False
      then show ?thesis using g ok NLoad N
        by (simp add: quietly_def split: if_splits) (clarify, rule local_okI; simp add: keeps_defs)+
    qed
  next
    case CFence
    then show ?thesis using g ok N
      by (simp add: quietly_def split: if_splits) (clarify, rule local_okI; simp add: keeps_defs)+
  qed
qed

end
