(* ===== verification/Waiter_Correct.thy ===== *)
theory Waiter_Correct
  imports Waiter_Inv
begin

text \<open>
  The two steps of the waiter that reach other threads, the bump of the epoch and the wake-up;
  that every step keeps the invariant; and the waiter's promises.
\<close>

section \<open>The bump and the wake-up\<close>

definition W :: "waiter_cfg \<Rightarrow> 'a waiter_state \<Rightarrow> nat \<Rightarrow> nat" where
  "W C s j = covers s j + waking (pcs s j)"

lemma W_sum: "W1 C s + W2 C s = (\<Sum>j<threads C. W C s j)"
  by (simp add: W1_def W2_def W_def sum.distrib)

lemma cover_age: "cover p a b \<le> cover p (a + 1) b"
  by (cases p) (auto simp: cover_def)

lemma bump_step:
  assumes p: "pcs s i = KBump n" and i: "i < threads C" and s: "waiter_inv C s"
    and t: "t = at_pc i (KWake n) (s\<lparr>epoch := epoch s + 1, age := (\<lambda>j. age s j + 1)\<rparr>)" and f: "keys_fresh C t"
  shows "waiter_inv C t"
proof -
  have inv: "inv_threads C s" "inv_count C s" "inv_keys C s" "inv_asleep C s" "inv_closed C s"
    using s by (auto simp: waiter_inv_def)
  have ok: "thread_ok (policy C) (KBump n) (bufs s i)" using inv(1) i p by (auto simp: inv_threads_def)
  have pt: "pcs t = (pcs s)(i := KWake n)" "bufs t = bufs s" "age t = (\<lambda>j. Suc (age s j))" "epoch t = epoch s + 1"
    "queue t = queue s" "is_closed t = is_closed s" "waiters t = waiters s"
    by (simp_all add: t at_pc_def)
  have 1: "inv_threads C t" using inv(1) ok by (auto simp: inv_threads_def pt thread_ok_def)
  have "(\<Sum>j<threads C. of_bool (counted (pcs t j) (bufs t j))) = (\<Sum>j<threads C. of_bool (counted (pcs s j) (bufs s j)) :: nat)"
    by (rule sum.cong) (auto simp: pt p)
  then have 2: "inv_count C t" using inv(2) by (simp add: inv_count_def pt)
  have 3: "inv_keys C t" using inv(3) by (auto simp: inv_keys_def pt)
  have 4: "inv_nodding C t" "inv_closing C t" by (simp_all add: inv_nodding_def inv_closing_def some_thread_def pt)
  have "(\<Sum>j<threads C. W C s j) \<le> (\<Sum>j<threads C. W C t j)"
  proof (rule sum_mono)
    fix j show "W C s j \<le> W C t j"
      using ok cover_age [of "pcs s j" "age s j" "bufs s j"]
      by (cases "j = i") (auto simp: W_def pt p cover_def thread_ok_def)
  qed
  then have w: "W1 C s + W2 C s \<le> W1 C t + W2 C t" by (simp add: W_sum)
  have k: "some_thread C (wakes C s) \<Longrightarrow> some_thread C (wakes C t)"
    by (erule some_local [OF _ i]) (auto simp: pt p)
  have m: "some_thread C (\<lambda>j. may_close (pcs s j) \<or> wakes C s j) \<Longrightarrow> some_thread C (\<lambda>j. may_close (pcs t j) \<or> wakes C t j)"
    by (erule some_local [OF _ i]) (auto simp: pt p)
  have a: "some_thread C (\<lambda>j. asleep (pcs t j)) \<Longrightarrow> some_thread C (\<lambda>j. asleep (pcs s j))"
    by (erule some_local [OF _ i]) (auto simp: pt p)
  have 5: "inv_asleep C t"
    using inv(4) w k a unfolding inv_asleep_def pt(5) by (meson le_trans)
  have 6: "inv_closed C t"
    using inv(5) m a unfolding inv_closed_def pt(6) by meson
  show ?thesis using 1 2 3 4 5 6 f by (simp add: waiter_inv_def)
qed


lemma set_sleepers: "set (sleepers C s) = {j. j < threads C \<and> asleep (pcs s j)}"
proof -
  have "(case p of PAsleep _ \<Rightarrow> True | _ \<Rightarrow> False) = asleep p" for p by (cases p) auto
  then show ?thesis by (auto simp: sleepers_def)
qed

lemma length_sleepers: "length (sleepers C s) = card (set (sleepers C s))"
  by (rule distinct_card [symmetric]) (simp add: sleepers_def)

lemma woken_asleep: "asleep p \<Longrightarrow> \<exists>lim. p = PAsleep lim \<and> woken p = PCancel lim None"
  by (cases p) auto

lemma wake_step:
  assumes p: "pcs s i = KWake n" and i: "i < threads C" and s: "waiter_inv C s"
    and wk: "wakes_ok C n ws s" and t: "t = at_pc i Idle (futex_wake ws s)" and f: "keys_fresh C t"
  shows "waiter_inv C t"
proof -
  have inv: "inv_threads C s" "inv_count C s" "inv_keys C s" "inv_nodding C s" "inv_asleep C s" "inv_closing C s" "inv_closed C s"
    using s by (auto simp: waiter_inv_def)
  have ws: "distinct ws" "\<And>j. j \<in> set ws \<Longrightarrow> j < threads C \<and> asleep (pcs s j)"
    using wk by (auto simp: wakes_ok_def set_sleepers)
  have len: "length ws = min (nat n) (length (sleepers C s))"
    using wk unfolding wakes_ok_def by linarith
  have iws: "i \<notin> set ws" using ws(2) [of i] p by auto
  have pi: "pcs t i = Idle" by (simp add: t)
  have pw: "\<exists>lim. pcs s j = PAsleep lim \<and> pcs t j = PCancel lim None" if "j \<in> set ws" for j
    using that iws woken_asleep [of "pcs s j"] ws(2) [of j] by (auto simp: t at_pc_def futex_wake_def)
  have po: "pcs t j = pcs s j" if "j \<noteq> i" "j \<notin> set ws" for j
    using that by (simp add: t at_pc_def futex_wake_def)
  have pt: "bufs t = bufs s" "age t = age s" "epoch t = epoch s" "queue t = queue s" "is_closed t = is_closed s" "waiters t = waiters s"
    by (simp_all add: t futex_wake_def)
  have th: "Q (KWake n) Idle \<Longrightarrow> (\<And>p. Q p p) \<Longrightarrow> (\<And>lim. Q (PAsleep lim) (PCancel lim None)) \<Longrightarrow> Q (pcs s j) (pcs t j)" for Q j
    using pi pw [of j] po [of j] p by (cases "j = i"; cases "j \<in> set ws") auto
  have 1: "inv_threads C t"
  proof -
    have "thread_ok (policy C) (pcs s j) (bufs s j) \<longrightarrow> thread_ok (policy C) (pcs t j) (bufs s j)" for j
      by (rule th [of "\<lambda>p p'. thread_ok (policy C) p (bufs s j) \<longrightarrow> thread_ok (policy C) p' (bufs s j)"])
        (auto simp: thread_ok_def)
    then show ?thesis using inv(1) by (auto simp: inv_threads_def pt)
  qed
  have "counted (pcs t j) (bufs s j) = counted (pcs s j) (bufs s j)" for j
    by (rule th [of "\<lambda>p p'. counted p' (bufs s j) = counted p (bufs s j)"]) auto
  then have 2: "inv_count C t" using inv(2) by (simp add: inv_count_def pt)
  have "key_of (pcs t j) = key_of (pcs s j)" for j
    by (rule th [of "\<lambda>p p'. key_of p' = key_of p"]) auto
  then have 3: "inv_keys C t" using inv(3) by (simp add: inv_keys_def pt)
  have nod: "nodding (pcs t j) = nodding (pcs s j)" for j
    by (rule th [of "\<lambda>p p'. nodding p' = nodding p"]) auto
  have bmp: "bumps C t j = bumps C s j" for j
    by (rule th [of "\<lambda>p p'. bump_all (threads C) p' = bump_all (threads C) p"]) auto
  have mcl: "may_close (pcs t j) = may_close (pcs s j)" for j
    by (rule th [of "\<lambda>p p'. may_close p' = may_close p"]) auto
  have opn: "saw_open (pcs t j) = saw_open (pcs s j)" for j
    by (rule th [of "\<lambda>p p'. saw_open p' = saw_open p"]) auto
  have cov: "covers s j \<le> covers t j" for j unfolding pt
    by (rule th [of "\<lambda>p p'. cover p (age s j) (bufs s j) \<le> cover p' (age s j) (bufs s j)"]) (auto simp: cover_def)
  have "W1 C s \<le> W1 C t" unfolding W1_def by (rule sum_mono) (rule cov)
  then have 4: "inv_nodding C t"
    using inv(4) le_trans unfolding inv_nodding_def nod bmp pt by blast
  have 5: "inv_closing C t"
    using inv(6) unfolding inv_closing_def opn bmp mcl pt .
  have 6: "inv_asleep C t \<and> inv_closed C t"
  proof (cases "some_thread C (\<lambda>j. asleep (pcs t j))")
    case False
    then show ?thesis by (simp add: inv_asleep_def inv_closed_def)
  next
    case True
    then obtain j where j: "j < threads C" "asleep (pcs t j)" by (auto simp: some_thread_def)
    have ji: "j \<noteq> i" using j(2) pi by auto
    have jw: "j \<notin> set ws" using j(2) pw [of j] by auto
    have js: "asleep (pcs s j)" using j(2) po [OF ji jw] by simp
    have "set ws \<subset> set (sleepers C s)"
      using j(1) js jw ws(2) by (auto simp: set_sleepers)
    then have "card (set ws) < card (set (sleepers C s))" by (intro psubset_card_mono) auto
    then have "length ws \<noteq> length (sleepers C s)"
      using distinct_card [OF ws(1)] by (simp add: length_sleepers)
    then have n: "length ws = nat n" "nat n < length (sleepers C s)" using len by auto
    have "length (sleepers C s) \<le> threads C" by (simp add: sleepers_def le_trans [OF length_filter_le])
    then have nw: "\<not> wakes C s i" using n p by auto
    have wj: "wakes C s j \<Longrightarrow> j \<noteq> i \<Longrightarrow> wakes C t j" for j
      using pw [of j] po [of j] by (cases "j \<in> set ws") auto
    have wke: "some_thread C (\<lambda>j. R j \<or> wakes C s j) \<Longrightarrow> some_thread C (\<lambda>j. R j \<or> wakes C t j)" for R
      by (erule some_local [OF _ i]) (use nw wj in auto)
    have "(\<Sum>j<threads C. W C t j) + (\<Sum>j<threads C. if j = i then nat n else 0)
        = (\<Sum>j<threads C. W C s j) + (\<Sum>j<threads C. of_bool (j \<in> set ws))"
      unfolding sum.distrib [symmetric]
    proof (rule sum.cong [OF refl])
      fix j show "W C t j + (if j = i then nat n else 0) = W C s j + of_bool (j \<in> set ws)"
        using pi po [of j] pw [of j] p iws by (cases "j = i"; cases "j \<in> set ws") (auto simp: W_def cover_def pt)
    qed
    moreover have "(\<Sum>j<threads C. of_bool (j \<in> set ws) :: nat) = nat n"
    proof -
      have "{..<threads C} \<inter> {j. j \<in> set ws} = set ws" using ws(2) by auto
      then show ?thesis using n(1) distinct_card [OF ws(1)] by simp
    qed
    ultimately have eq: "W1 C t + W2 C t = W1 C s + W2 C s" using i by (simp add: W_sum)
    have sl: "some_thread C (\<lambda>j. asleep (pcs s j))" using j(1) js by (auto simp: some_thread_def)
    have wks: "some_thread C (wakes C s) \<Longrightarrow> some_thread C (wakes C t)"
      by (erule some_local [OF _ i]) (use nw wj in auto)
    have "inv_asleep C t"
      using inv(5) sl wks unfolding inv_asleep_def eq pt(4) by blast
    moreover have "inv_closed C t"
      using inv(7) sl wke [of "\<lambda>j. may_close (pcs s j)"] unfolding inv_closed_def mcl pt(5) by blast
    ultimately show ?thesis by (rule conjI)
  qed
  show ?thesis using 1 2 3 4 5 6 f by (simp add: waiter_inv_def)
qed


section \<open>Every step\<close>

lemma signal_wake_KWake:
  "signal_wake C i ws p s = Some (es, t) \<Longrightarrow> \<exists>n. p = KWake n \<and> wakes_ok C n ws s \<and> t = at_pc i Idle (futex_wake ws s)"
  by (cases p) (auto simp: quietly_def split: if_splits)

lemma fresh_step_inv:
  assumes st: "fresh_step C s es t" and N: "int (threads C) \<le> INT_MAX" and s: "waiter_inv C s"
  shows "waiter_inv C t"
proof -
  obtain i a where i: "i < threads C" and act: "thread_act C i a s = Some (es, t)" and f: "keys_fresh C t"
    using st by (auto simp: fresh_step_def wait_step.simps wait_act_def split: if_splits)
  have inv: "inv_threads C s" "inv_count C s" "inv_keys C s" "keys_fresh C s"
    using s by (auto simp: waiter_inv_def)
  have ok: "thread_ok (policy C) (pcs s i) (bufs s i)" using inv(1) i by (auto simp: inv_threads_def)
  have key: "\<And>k. key_of (pcs s i) = Some k \<Longrightarrow> epoch s = k + of_nat (age s i)" using inv(3) i by (auto simp: inv_keys_def)
  have "key_of (pcs s i) = None \<or> int (age s i) < 4294967296"
    using bspec [OF inv(4) [unfolded keys_fresh_def list_all_iff], of i] i by simp
  then have fr: "key_of (pcs s i) \<noteq> None \<Longrightarrow> int (age s i) < 4294967296" by (rule disjE) simp_all
  note close = waiter_inv_local [OF i _ f s]
  show ?thesis
  proof (cases a)
    case Go
    show ?thesis
    proof (cases "signalling (pcs s i)")
      case False
      then show ?thesis using act Go wait_go_local [OF _ ok key fr] by (auto intro: close)
    next
      case True
      then have g: "signal_go C i (pcs s i) s = Some (es, t)" using act Go by simp
      show ?thesis
      proof (cases "\<exists>n. pcs s i = KBump n")
        case True
        then show ?thesis using g bump_step [OF _ i s _ f] by (auto simp: quietly_def)
      next
        case False
        then show ?thesis using signal_go_local [OF g i N inv(1,2)] by (auto intro: close)
      qed
    qed
  next
    case (Wakes ws)
    then show ?thesis using act signal_wake_KWake [of C i ws "pcs s i" s es t] wake_step [OF _ i s _ _ f] by auto
  next
    case Commit
    then show ?thesis using act commit_local [OF _ i inv(1) key] by (auto intro: close)
  next
    case (Clock now)
    then show ?thesis using act wait_clock_local [OF _ ok] by (auto intro: close)
  next
    case Return
    then show ?thesis using act sleep_return_local [OF _ ok] by (auto intro: close)
  qed (use act wait_call_local [OF _ _ ok] in \<open>auto intro: close simp del: wait_call.simps split: if_splits\<close>)
qed

definition waiter_start :: "waiter_cfg \<Rightarrow> 'a waiter_state \<Rightarrow> bool" where
  "waiter_start C s \<longleftrightarrow> s = waiter_init \<and> int (threads C) \<le> INT_MAX"

lemma waiter_inv_init: "waiter_inv C waiter_init"
  by (simp add: waiter_inv_def waiter_init_def keys_fresh_def list_all_iff inv_threads_def thread_ok_def inv_count_def
      inv_keys_def inv_nodding_def inv_asleep_def inv_closing_def inv_closed_def some_thread_def)

text \<open>What takes effect at a step is what the sequential queue does there.\<close>

lemma wait_step_fifo: "wait_step C s es t \<Longrightarrow> fifo_run (queue s) es = Some (queue t)"
proof (erule wait_step.cases)
  fix c s' es' t'
  assume eq: "s = s'" "es = es'" "t = t'" and act: "wait_act C c s' = Some (es', t')"
  obtain i a where a: "thread_act C i a s = Some (es, t)"
    using act eq by (cases c) (auto simp: wait_act_def split: if_splits)
  show "fifo_run (queue s) es = Some (queue t)"
  proof (cases a)
    case Go
    then show ?thesis using a
      by (cases "pcs s i") (auto simp: quietly_def look_def issue_def split: list.splits if_splits)
  next
    case Commit
    then show ?thesis using a
      by (auto simp: commit_def split: list.splits elim!: land.elims)
  next
    case (Clock now)
    then show ?thesis using a by (cases "pcs s i") (auto simp: quietly_def)
  next
    case Return
    then show ?thesis using a by (cases "pcs s i") (auto simp: quietly_def)
  next
    case (Wakes ws)
    then show ?thesis using a signal_wake_KWake [of C i ws "pcs s i" s es t]
      by (cases "pcs s i") (auto simp: quietly_def futex_wake_def split: if_splits)
  qed (use a in \<open>auto simp: quietly_def issue_def split: if_splits\<close>)
qed

interpretation wfifo: fifo_machine "waiter_start C" "fresh_step C" "\<lambda>s. waiter_inv C s \<and> int (threads C) \<le> INT_MAX" queue
  for C :: waiter_cfg
proof unfold_locales
  fix s t :: "'a waiter_state" and es
  show "waiter_start C s \<Longrightarrow> waiter_inv C s \<and> int (threads C) \<le> INT_MAX"
    by (auto simp: waiter_start_def waiter_inv_init)
  show "waiter_inv C s \<and> int (threads C) \<le> INT_MAX \<Longrightarrow> fresh_step C s es t \<Longrightarrow> waiter_inv C t \<and> int (threads C) \<le> INT_MAX"
    using fresh_step_inv by blast
  show "waiter_start C s \<Longrightarrow> queue s = []"
    by (auto simp: waiter_start_def waiter_init_def)
  show "waiter_inv C s \<and> int (threads C) \<le> INT_MAX \<Longrightarrow> fresh_step C s es t \<Longrightarrow> fifo_run (queue s) es = Some (queue t)"
    using wait_step_fifo by (auto simp: fresh_step_def)
qed


section \<open>What the waiter promises\<close>

lemma will_look_moves: "will_look p a \<Longrightarrow> \<not> asleep p \<and> \<not> calling p \<and> \<not> signalling p"
  by (cases p) auto

lemma signalling_moves: "signalling p \<Longrightarrow> \<not> asleep p \<and> \<not> calling p"
  by (cases p) auto

text \<open>A thread inside a call that is not asleep can take a step: no step of the code waits for another thread.\<close>

lemma thread_moves:
  assumes "i < threads C" "\<not> calling (pcs s i)" "\<not> asleep (pcs s i)"
  shows "\<exists>a. wait_act C (i, a) s \<noteq> None"
proof (cases "bufs s i = []")
  case False
  then have "wait_act C (i, Commit) s \<noteq> None" using assms(1) by (simp add: wait_act_def commit_def split: list.splits)
  then show ?thesis by blast
next
  case True
  have wk: "\<exists>ws. wakes_ok C n ws s" for n
    by (rule exI [of _ "take (nat n) (sleepers C s)"])
      (auto simp: wakes_ok_def sleepers_def min_def max_def dest: in_set_takeD intro: distinct_take)
  consider "wait_act C (i, Go) s \<noteq> None" | "wait_act C (i, Clock 0) s \<noteq> None" | n where "pcs s i = KWake n"
    using assms True by (cases "pcs s i") (auto simp: wait_act_def quietly_def look_def split: list.splits)
  then show ?thesis
  proof cases
    case (3 n)
    then obtain ws where "wakes_ok C n ws s" using wk by blast
    then have "wait_act C (i, Wakes ws) s \<noteq> None" using 3 assms(1) by (simp add: wait_act_def quietly_def)
    then show ?thesis by blast
  qed blast+
qed

lemma cover_pos: "0 < cover p a b \<Longrightarrow> will_look p a \<or> signalling p"
  by (cases p) (auto simp: cover_def)

lemma waking_pos: "0 < waking p \<Longrightarrow> signalling p" "wake_all N p \<Longrightarrow> signalling p" "may_close p \<Longrightarrow> signalling p"
  by (cases p; auto)+

lemma sleeper_is_served:
  assumes s: "waiter_inv C s" and j: "j < threads C" "asleep (pcs s j)" and q: "queue s \<noteq> [] \<or> is_closed s"
  shows "some_thread C (\<lambda>k. signalling (pcs s k) \<or> will_look (pcs s k) (age s k))"
proof -
  have sl: "some_thread C (\<lambda>j. asleep (pcs s j))" using j by (auto simp: some_thread_def)
  have inv: "inv_asleep C s" "inv_closed C s" using s by (auto simp: waiter_inv_def)
  consider (some) "some_thread C (\<lambda>j. may_close (pcs s j) \<or> wakes C s j)" | (many) "queue s \<noteq> []" "length (queue s) \<le> W1 C s + W2 C s"
    using inv sl q by (auto simp: inv_asleep_def inv_closed_def some_thread_def)
  then show ?thesis
  proof cases
    case some
    then show ?thesis using waking_pos unfolding some_thread_def by meson
  next
    case many
    then have "0 < (\<Sum>j<threads C. W C s j)"
      using less_le_trans [of 0 "length (queue s)"] unfolding W_sum by simp
    then obtain k where k: "k < threads C" "0 < W C s k" by (auto simp: sum_eq_0_iff simp flip: neq0_conv)
    then have "will_look (pcs s k) (age s k) \<or> signalling (pcs s k)"
      using cover_pos [of "pcs s k" "age s k" "bufs s k"] waking_pos(1) [of "pcs s k"] by (auto simp: W_def)
    then show ?thesis using k(1) by (auto simp: some_thread_def)
  qed
qed


text \<open>
  C9. No wake-up is lost: in every interleaving of any number of consumers that wait and threads
  that push, one element or a batch, and close, with every relaxed store free to reach memory late,
  while a consumer sleeps and the queue holds an element or the waiter is closed, some other thread
  is on its way to look at the queue or is inside a \<open>notify\<close> or \<open>close\<close>; and that thread can take a
  step. So no consumer is left asleep on an element or on a closed waiter with everyone else idle.
\<close>

theorem waiter_no_lost_wakeup:
  assumes run: "run (fresh_step C) waiter_init es s" and N: "int (threads C) \<le> INT_MAX"
    and j: "j < threads C" "asleep (pcs s j)" and q: "queue s \<noteq> [] \<or> is_closed s"
  shows "\<exists>k < threads C. k \<noteq> j \<and> (signalling (pcs s k) \<or> will_look (pcs s k) (age s k)) \<and> (\<exists>a. wait_act C (k, a) s \<noteq> None)"
proof -
  have "waiter_inv C s" using wfifo.run_inv [OF _ run] N by (simp add: waiter_start_def)
  from sleeper_is_served [OF this j q] obtain k where k: "k < threads C" "signalling (pcs s k) \<or> will_look (pcs s k) (age s k)"
    by (auto simp: some_thread_def)
  have m: "\<not> asleep (pcs s k)" "\<not> calling (pcs s k)" using k(2) will_look_moves signalling_moves by blast+
  then show ?thesis using k thread_moves [OF k(1) m(2,1)] j(2) by auto
qed

text \<open>One consumer parks; a producer pushes and has announced nothing yet.\<close>

definition wait_demo_cfg :: waiter_cfg where
  "wait_demo_cfg = \<lparr>policy = Park, spin_ns = kSpinNs, per_ms = 3000000, threads = 2\<rparr>"

definition wait_demo :: "nat waiter_state" where
  "wait_demo = snd (the (exec (fresh_act wait_demo_cfg)
     [(0, Wait), (0, Clock 5), (0, Go), (0, Go), (0, Clock 6), (0, Go), (0, Commit), (0, Go), (0, Go), (0, Go), (0, Go),
      (0, Go), (0, Go), (0, Go), (1, Push [7]), (1, Commit)] waiter_init))"

theorem waiter_no_lost_wakeup_witness:
  "asleep (pcs wait_demo 0) \<and> queue wait_demo = [7] \<and>
   (\<exists>k < 2. k \<noteq> 0 \<and> (signalling (pcs wait_demo k) \<or> will_look (pcs wait_demo k) (age wait_demo k)))"
proof -
  let ?cs = "[(0, Wait), (0, Clock 5), (0, Go), (0, Go), (0, Clock 6), (0, Go), (0, Commit), (0, Go), (0, Go), (0, Go), (0, Go),
      (0, Go), (0, Go), (0, Go), (1, Push [7]), (1, Commit)] :: (nat \<times> nat inp) list"
  have "is_some (exec (fresh_act wait_demo_cfg) ?cs waiter_init)" by code_simp
  then obtain es where "exec (fresh_act wait_demo_cfg) ?cs waiter_init = Some (es, wait_demo)"
    by (auto simp: is_some_iff wait_demo_def)
  then have r: "run (fresh_step wait_demo_cfg) waiter_init es wait_demo" by (rule wsched.exec_run)
  have a: "asleep (pcs wait_demo 0)" "queue wait_demo = [7]" "int (threads wait_demo_cfg) \<le> INT_MAX" "threads wait_demo_cfg = 2"
    by code_simp+
  then show ?thesis using waiter_no_lost_wakeup [OF r a(3), of 0] by auto
qed


section \<open>Answers\<close>

text \<open>A thread that has seen the waiter closed, and one in a wait without a limit.\<close>

fun seen_closed :: "wpc \<Rightarrow> bool" where
  "seen_closed (SPop _ _ c) = c"
| "seen_closed (PPop _ c) = c"
| "seen_closed (PPop2 _ _ _ c) = c"
| "seen_closed (PCancel _ r) = (r = Some False)"
| "seen_closed _ = False"

fun limit_of :: "wpc \<Rightarrow> u64 option option" where
  "limit_of (WUntil lim) = Some lim"
| "limit_of (SClosed lim _) = Some lim"
| "limit_of (SPop lim _ _) = Some lim"
| "limit_of (STime lim _) = Some lim"
| "limit_of (PClosed lim) = Some lim"
| "limit_of (PPop lim _) = Some lim"
| "limit_of (PTime lim) = Some lim"
| "limit_of (PAdd lim _) = Some lim"
| "limit_of (PFence lim _) = Some lim"
| "limit_of (PKey lim _) = Some lim"
| "limit_of (PClosed2 lim _ _) = Some lim"
| "limit_of (PPop2 lim _ _ _) = Some lim"
| "limit_of (PParks lim _ _) = Some lim"
| "limit_of (PSleep lim _ _) = Some lim"
| "limit_of (PFutex lim _ _) = Some lim"
| "limit_of (PAsleep lim) = Some lim"
| "limit_of (PCancel lim _) = Some lim"
| "limit_of _ = None"

definition flags_true :: "'a waiter_state \<Rightarrow> bool" where
  "flags_true s \<longleftrightarrow> (\<forall>j. seen_closed (pcs s j) \<longrightarrow> is_closed s)"

lemma flags_at_pc: "flags_true s \<Longrightarrow> (seen_closed p \<longrightarrow> is_closed s) \<Longrightarrow> flags_true (at_pc i p s)"
  by (auto simp: flags_true_def at_pc_def split: if_splits)

lemma seen_woken: "seen_closed (woken p) = seen_closed p"
  by (cases p) auto

lemma flags_wake: "flags_true s \<Longrightarrow> flags_true (futex_wake ws s)"
  by (auto simp: flags_true_def futex_wake_def seen_woken split: if_splits)

lemma flags_commit: "commit i s = Some (es, t) \<Longrightarrow> flags_true s \<Longrightarrow> flags_true t"
  by (auto simp: commit_def flags_true_def split: list.splits elim!: land.elims)

lemma flags_seenD: "flags_true s \<Longrightarrow> seen_closed (pcs s i) \<Longrightarrow> is_closed s"
  by (auto simp: flags_true_def)

lemma flags_issue [simp]: "flags_true (issue i w s) = flags_true s" "is_closed (issue i w s) = is_closed s"
  by (simp_all add: flags_true_def issue_def)

lemma flags_upd [simp]:
  "flags_true (s\<lparr>queue := q\<rparr>) = flags_true s" "flags_true (s\<lparr>parks := n\<rparr>) = flags_true s"
  "flags_true (s\<lparr>age := f\<rparr>) = flags_true s" "flags_true (s\<lparr>epoch := e\<rparr>) = flags_true s"
  by (simp_all add: flags_true_def)

lemma wait_go_flags: "wait_go i p s = Some (es, t) \<Longrightarrow> pcs s i = p \<Longrightarrow> flags_true s \<Longrightarrow> flags_true t"
  by (cases p) (auto simp: quietly_def look_def intro!: flags_at_pc split: list.splits if_splits option.splits
      dest: flags_seenD [where i = i])

lemma signal_go_flags: "signal_go C i p s = Some (es, t) \<Longrightarrow> flags_true s \<Longrightarrow> flags_true t"
  by (cases p) (auto simp: quietly_def intro!: flags_at_pc split: if_splits)

lemma wait_clock_flags: "wait_clock C i now p s = Some (es, t) \<Longrightarrow> flags_true s \<Longrightarrow> flags_true t"
  by (cases p) (auto simp: quietly_def wait_for_rest_def spin_rest_def park_rest_def intro!: flags_at_pc split: if_splits)

lemma thread_act_flags:
  assumes "thread_act C i a s = Some (es, t)" "flags_true s"
  shows "flags_true t"
proof (cases a)
  case Go
  then show ?thesis using assms wait_go_flags [OF _ refl, of i s es t] signal_go_flags [of C i "pcs s i" s es t] by (auto split: if_splits)
next
  case Return
  then show ?thesis using assms by (cases "pcs s i") (auto simp: quietly_def intro!: flags_at_pc)
next
  case (Wakes ws)
  then show ?thesis using assms signal_wake_KWake [of C i ws "pcs s i" s es t] by (auto intro!: flags_at_pc flags_wake)
qed (use assms wait_clock_flags flags_commit in \<open>auto simp: quietly_def intro!: flags_at_pc split: if_splits\<close>)

interpretation wflags: machine "\<lambda>s. s = waiter_init" "fresh_step C" flags_true for C :: waiter_cfg
proof unfold_locales
  show "flags_true s" if "s = waiter_init" for s :: "'a waiter_state"
    using that by (simp add: flags_true_def waiter_init_def)
  show "flags_true t" if "flags_true s" "fresh_step C s es t" for s t :: "'a waiter_state" and es
    using that thread_act_flags [of C _ _ s es t]
    by (auto simp: fresh_step_def wait_step.simps wait_act_def split: if_splits)
qed

text \<open>
  C18. A wait without a limit answers false only of a closed waiter: in every reachable state, the
  step at which such a wait returns false is one of a waiter that is closed. (That it has then looked
  at the queue after it saw the close is the order of the steps.)
\<close>

theorem wait_false_only_closed:
  assumes "run (fresh_step C) waiter_init es s" and "wait_act C (i, a) s = Some (fs, t)"
    and "limit_of (pcs s i) = Some None" and "pcs t i = Done False"
  shows "is_closed s"
proof -
  have f: "flags_true s" using wflags.run_inv [OF refl assms(1)] .
  have "thread_act C i a s = Some (fs, t)" using assms(2) by (auto simp: wait_act_def split: if_splits)
  then have "seen_closed (pcs s i)"
    using assms(3,4)
    by (cases "pcs s i"; cases a)
      (auto simp: quietly_def look_def at_pc_def commit_def spin_rest_def park_rest_def expired_def
        split: list.splits if_splits option.splits elim!: land.elims)
  then show ?thesis using flags_seenD [OF f] by blast
qed


text \<open>A waiter closed before a consumer calls it: the wait looks once and answers false.\<close>

definition closed_demo :: "nat waiter_state" where
  "closed_demo = snd (the (exec (fresh_act wait_demo_cfg)
     [(1, Close), (1, Commit), (1, Go), (1, Go), (1, Wakes []), (0, Wait), (0, Clock 5), (0, Go)] waiter_init))"

theorem wait_false_only_closed_witness:
  "limit_of (pcs closed_demo 0) = Some None \<and>
   (\<exists>fs t. wait_act wait_demo_cfg (0, Go) closed_demo = Some (fs, t) \<and> pcs t 0 = Done False) \<and> is_closed closed_demo"
proof -
  let ?cs = "[(1, Close), (1, Commit), (1, Go), (1, Go), (1, Wakes []), (0, Wait), (0, Clock 5), (0, Go)] :: (nat \<times> nat inp) list"
  have "is_some (exec (fresh_act wait_demo_cfg) ?cs waiter_init)" by code_simp
  then obtain es where "exec (fresh_act wait_demo_cfg) ?cs waiter_init = Some (es, closed_demo)"
    by (auto simp: is_some_iff closed_demo_def)
  then have r: "run (fresh_step wait_demo_cfg) waiter_init es closed_demo" by (rule wsched.exec_run)
  have l: "limit_of (pcs closed_demo 0) = Some None" by code_simp
  have "is_some (wait_act wait_demo_cfg (0, Go) closed_demo)"
    and d: "pcs (snd (the (wait_act wait_demo_cfg (0, Go) closed_demo))) 0 = Done False" by code_simp+
  then obtain fs t where a: "wait_act wait_demo_cfg (0, Go) closed_demo = Some (fs, t)" by (auto simp: is_some_iff)
  then show ?thesis using wait_false_only_closed [OF r a l] l d by auto
qed

section \<open>Limits in ticks\<close>








text \<open>Sixty years at 10 GHz do not fit: the conversion wraps well below the five hundred years its comment names.\<close>

lemma to_ticks_wraps: "unat (to_ticks 10000000 (60 * 31556952 * 1000000000)) \<noteq> 60 * 31556952 * 1000000000 * 10000000 div 1000000"
  by (simp add: to_ticks_def)

end
