(* ===== verification/Spec2Isabelle.thy ===== *)
theory Spec2Isabelle
  imports Stream_Gate Spsc_Correct Spmc_Promises Bounded_Promises Trace_Correct Lift_Lower Work_Worst Waiter_Correct
begin

text \<open>
  A verification library for the concurrent queues of wtc: the queue runtime under
  \<open>src/runtime\<close>.
\<close>

end
